(* ===== verification/Mqtt_Prelude.thy ===== *)
theory Mqtt_Prelude
  imports "HOL-Library.Word" "HOL-Library.AList"
begin

text \<open>
  Shared vocabulary of the development.  Python bytes are lists of \<open>8 word\<close>, a Python
  \<open>str\<close> is the list of its code points, a Python \<open>int\<close> is an \<open>int\<close>, and a call that
  may raise returns \<open>py_error + 'a\<close> with the exception on the left.  The theory also models
  the parts of the standard library the wire code calls (indexing, \<open>struct\<close>, \<open>bytes([...])\<close>
  and the strict UTF-8 codec) and proves the UTF-8 codec a bijection between encodable
  strings and well-formed byte sequences.  A Python \<open>dict\<close> is an association list in insertion
  order (\<open>AList.update\<close> overwrites in place and appends a new key at the end, as the dict does).
\<close>

unbundle bit_operations_syntax

section \<open>Types\<close>

type_synonym byte = "8 word"
type_synonym bytes = "byte list"
type_synonym pystr = "nat list"

datatype py_error =
    ValueError string
  | UnicodeEncodeError
  | UnicodeDecodeError
  | StructError
  | IndexError
  | TypeError
  | PacketTooLargeError nat int

type_synonym 'a res = "py_error + 'a"

named_theorems wire_simps \<open>evaluation of the wire primitives on a known prefix of the buffer\<close>

section \<open>Step relations\<close>

text \<open>Every interleaving of this development keeps an invariant; runs keep it then.\<close>

locale step_invariant =
  fixes step :: "'s \<Rightarrow> 's \<Rightarrow> bool" and inv :: "'s \<Rightarrow> bool"
  assumes kept: "step s s' \<Longrightarrow> inv s \<Longrightarrow> inv s'"
begin

lemma steps_kept: "step\<^sup>*\<^sup>* s s' \<Longrightarrow> inv s \<Longrightarrow> inv s'"
  by (induction rule: rtranclp_induct) (auto intro: kept)

end

section \<open>The error monad\<close>

definition rbind :: "'e + 'a \<Rightarrow> ('a \<Rightarrow> 'e + 'b) \<Rightarrow> 'e + 'b" where
  "rbind m f = (case m of Inl e \<Rightarrow> Inl e | Inr x \<Rightarrow> f x)"

definition rmap :: "('a \<Rightarrow> 'b) \<Rightarrow> 'e + 'a \<Rightarrow> 'e + 'b" where
  "rmap f m = (case m of Inl e \<Rightarrow> Inl e | Inr x \<Rightarrow> Inr (f x))"

lemma rbind_simps [simp]:
  "rbind (Inl e) f = Inl e"
  "rbind (Inr x) f = f x"
  by (simp_all add: rbind_def)

lemma rmap_simps [simp]:
  "rmap g (Inl e) = Inl e"
  "rmap g (Inr x) = Inr (g x)"
  by (simp_all add: rmap_def)

lemma rbind_eq_Inr [simp]: "rbind m f = Inr y \<longleftrightarrow> (\<exists>x. m = Inr x \<and> f x = Inr y)"
  by (cases m) auto

lemma rmap_eq_Inr [simp]: "rmap f m = Inr y \<longleftrightarrow> (\<exists>x. m = Inr x \<and> y = f x)"
  by (cases m) auto

lemma rbind_cong [fundef_cong]:
  "m = m' \<Longrightarrow> (\<And>x. m' = Inr x \<Longrightarrow> f x = f' x) \<Longrightarrow> rbind m f = rbind m' f'"
  by (cases m') auto

text \<open>Running a fallible operation over a list, left to right, concatenating the bytes.\<close>

fun rconcat :: "('a \<Rightarrow> 'e + 'b list) \<Rightarrow> 'a list \<Rightarrow> 'e + 'b list" where
  "rconcat f [] = Inr []"
| "rconcat f (x # xs) = rbind (f x) (\<lambda>b. rmap (\<lambda>bs. b @ bs) (rconcat f xs))"

section \<open>Buffers\<close>

text \<open>\<open>buf[pos]\<close>, \<open>struct.unpack_from\<close> and \<open>struct.pack\<close> in network byte order, \<open>bytes([v])\<close>.\<close>

definition byte_at :: "bytes \<Rightarrow> nat \<Rightarrow> int res" where
  "byte_at buf pos = (if pos < length buf then Inr (uint (buf ! pos)) else Inl IndexError)"

definition unpack_H :: "bytes \<Rightarrow> nat \<Rightarrow> int res" where
  "unpack_H buf pos =
     (if pos + 2 \<le> length buf then Inr (uint (buf ! pos) * 256 + uint (buf ! (pos + 1)))
      else Inl StructError)"

definition unpack_I :: "bytes \<Rightarrow> nat \<Rightarrow> int res" where
  "unpack_I buf pos =
     (if pos + 4 \<le> length buf
      then Inr (uint (buf ! pos) * 16777216 + uint (buf ! (pos + 1)) * 65536
              + uint (buf ! (pos + 2)) * 256 + uint (buf ! (pos + 3)))
      else Inl StructError)"

definition pack_B :: "int \<Rightarrow> bytes res" where
  "pack_B v = (if 0 \<le> v \<and> v < 256 then Inr [word_of_int v] else Inl StructError)"

definition pack_H :: "int \<Rightarrow> bytes res" where
  "pack_H v =
     (if 0 \<le> v \<and> v < 65536 then Inr [word_of_int (v div 256), word_of_int (v mod 256)]
      else Inl StructError)"

definition pack_I :: "int \<Rightarrow> bytes res" where
  "pack_I v =
     (if 0 \<le> v \<and> v < 4294967296
      then Inr [word_of_int (v div 16777216), word_of_int (v div 65536 mod 256),
                word_of_int (v div 256 mod 256), word_of_int (v mod 256)]
      else Inl StructError)"

definition byte_of :: "int \<Rightarrow> bytes res" where
  "byte_of v =
     (if 0 \<le> v \<and> v < 256 then Inr [word_of_int v]
      else Inl (ValueError ''bytes must be in range(0, 256)''))"

lemma uint_byte_of_int [simp]: "0 \<le> v \<Longrightarrow> v < 256 \<Longrightarrow> uint (word_of_int v :: byte) = v"
  by (simp add: uint_word_of_int)

lemma uint_byte_lt [simp]: "uint (b :: byte) < 256"
  using uint_lt2p [of b] by simp

lemma unat_byte_lt [simp]: "unat (b :: byte) < 256"
  using unsigned_less [of b, where ?'a = nat] by simp

definition mk_byte :: "nat \<Rightarrow> byte" where
  "mk_byte n = word_of_nat n"

lemma unat_mk_byte [simp]: "n < 256 \<Longrightarrow> unat (mk_byte n) = n"
  by (simp add: mk_byte_def unat_of_nat)

lemma mk_byte_unat [simp]: "mk_byte (unat b) = b"
  by (simp add: mk_byte_def)

lemma uint_mk_byte [simp]: "n < 256 \<Longrightarrow> uint (mk_byte n) = int n"
  by (metis uint_nat unat_mk_byte)

lemma drop_prefix_lt: "drop off buf = b # rest \<Longrightarrow> off < length buf"
  by (metis drop_all leI list.distinct(1))

lemma drop_prefix_len: "drop off buf = bs @ rest \<Longrightarrow> bs \<noteq> [] \<Longrightarrow> off + length bs \<le> length buf"
  by (metis append_is_Nil_conv drop_eq_Nil length_append length_drop le_add1 le_add_diff_inverse
      nat_le_linear add_le_mono1 add.commute)

lemma drop_prefix_nth: "drop off buf = bs @ rest \<Longrightarrow> i < length bs \<Longrightarrow> buf ! (off + i) = bs ! i"
  by (metis nth_append nth_drop drop_all length_0_conv append_is_Nil_conv nat_le_linear not_less0)

lemma drop_prefix_drop: "drop off buf = bs @ rest \<Longrightarrow> drop (off + length bs) buf = rest"
  by (metis append_eq_conv_conj drop_drop add.commute)

lemma drop_prefix_take:
  "drop off buf = bs @ rest \<Longrightarrow> take (off + length bs - off) (drop off buf) = bs"
  by simp

lemma byte_at_drop [wire_simps]: "drop off buf = b # rest \<Longrightarrow> byte_at buf off = Inr (uint b)"
  by (metis byte_at_def drop_prefix_lt hd_drop_conv_nth list.sel(1))

lemma unpack_H_drop:
  assumes "drop off buf = bs @ rest" and "pack_H v = Inr bs"
  shows "unpack_H buf off = Inr v"
proof -
  from assms(2) have v: "0 \<le> v" "v < 65536"
    and bs: "bs = [word_of_int (v div 256), word_of_int (v mod 256)]"
    by (auto simp: pack_H_def split: if_splits)
  from assms(1) bs have "off + 2 \<le> length buf"
    using drop_prefix_len [OF assms(1)] by simp
  moreover have "buf ! off = bs ! 0" "buf ! (off + 1) = bs ! 1"
    using drop_prefix_nth [OF assms(1), of 0] drop_prefix_nth [OF assms(1), of 1] bs by auto
  ultimately show ?thesis
    using v by (simp add: unpack_H_def bs)
qed

lemma four_bytes_sum:
  "v div 16777216 * 16777216 + v div 65536 mod 256 * 65536
     + v div 256 mod 256 * 256 + v mod 256 = (v :: int)"
proof -
  have "v div 65536 = v div 256 div 256" "v div 16777216 = v div 65536 div 256"
    using zdiv_zmult2_eq [of 256 v 256] zdiv_zmult2_eq [of 256 v 65536] by simp_all
  then show ?thesis
    using div_mult_mod_eq [of v 256] div_mult_mod_eq [of "v div 256" 256]
      div_mult_mod_eq [of "v div 65536" 256] by linarith
qed

lemma unpack_I_drop:
  assumes "drop off buf = bs @ rest" and "pack_I v = Inr bs"
  shows "unpack_I buf off = Inr v"
proof -
  from assms(2) have v: "0 \<le> v" "v < 4294967296"
    and bs: "bs = [word_of_int (v div 16777216), word_of_int (v div 65536 mod 256),
                word_of_int (v div 256 mod 256), word_of_int (v mod 256)]"
    by (auto simp: pack_I_def split: if_splits)
  from v have top: "0 \<le> v div 16777216" "v div 16777216 < 256" by auto
  have nth: "buf ! off = bs ! 0" "buf ! (off + 1) = bs ! 1"
      "buf ! (off + 2) = bs ! 2" "buf ! (off + 3) = bs ! 3"
    using drop_prefix_nth [OF assms(1), of 0] drop_prefix_nth [OF assms(1), of 1]
      drop_prefix_nth [OF assms(1), of 2] drop_prefix_nth [OF assms(1), of 3] bs by auto
  have u: "uint (bs ! 0) = v div 16777216" "uint (bs ! 1) = v div 65536 mod 256"
      "uint (bs ! 2) = v div 256 mod 256" "uint (bs ! 3) = v mod 256"
    unfolding bs using top by simp_all
  have "off + 4 \<le> length buf"
    using drop_prefix_len [OF assms(1)] bs by simp
  then show ?thesis
    unfolding unpack_I_def nth u four_bytes_sum by simp
qed

lemma pack_length:
  "pack_B v = Inr bs \<Longrightarrow> length bs = 1"
  "pack_H v = Inr bs \<Longrightarrow> length bs = 2"
  "pack_I v = Inr bs \<Longrightarrow> length bs = 4"
  "byte_of v = Inr bs \<Longrightarrow> length bs = 1"
  by (auto simp: pack_B_def pack_H_def pack_I_def byte_of_def split: if_splits)

lemma pack_B_Inr: "pack_B v = Inr bs \<longleftrightarrow> 0 \<le> v \<and> v < 256 \<and> bs = [word_of_int v]"
  by (auto simp: pack_B_def)

lemma byte_of_Inr: "byte_of v = Inr bs \<longleftrightarrow> 0 \<le> v \<and> v < 256 \<and> bs = [word_of_int v]"
  by (auto simp: byte_of_def)

section \<open>Strings\<close>

definition str_lit :: "string \<Rightarrow> pystr" where
  "str_lit s = map of_char s"

text \<open>\<open>s.encode("utf-8")\<close>: a surrogate code point raises UnicodeEncodeError.\<close>

definition is_surrogate :: "nat \<Rightarrow> bool" where
  "is_surrogate c \<longleftrightarrow> 0xD800 \<le> c \<and> c < 0xE000"

definition utf8_char :: "nat \<Rightarrow> bytes res" where
  "utf8_char c =
     (if c < 0x80 then Inr [mk_byte c]
      else if c < 0x800 then Inr [mk_byte (0xC0 + c div 64), mk_byte (0x80 + c mod 64)]
      else if is_surrogate c then Inl UnicodeEncodeError
      else if c < 0x10000
        then Inr [mk_byte (0xE0 + c div 4096), mk_byte (0x80 + c div 64 mod 64),
                  mk_byte (0x80 + c mod 64)]
      else if c < 0x110000
        then Inr [mk_byte (0xF0 + c div 262144), mk_byte (0x80 + c div 4096 mod 64),
                  mk_byte (0x80 + c div 64 mod 64), mk_byte (0x80 + c mod 64)]
      else Inl UnicodeEncodeError)"

definition utf8_encode :: "pystr \<Rightarrow> bytes res" where
  "utf8_encode s = rconcat utf8_char s"

text \<open>\<open>bytes.decode("utf-8")\<close> in strict mode: no overlong forms, no surrogates, at most U+10FFFF.\<close>

definition cont_bits :: "byte \<Rightarrow> nat res" where
  "cont_bits b =
     (if 0x80 \<le> unat b \<and> unat b < 0xC0 then Inr (unat b - 0x80) else Inl UnicodeDecodeError)"

definition utf8_check :: "nat \<Rightarrow> nat \<Rightarrow> nat res" where
  "utf8_check lo c =
     (if lo \<le> c \<and> c < 0x110000 \<and> \<not> is_surrogate c then Inr c else Inl UnicodeDecodeError)"

fun utf8_decode :: "bytes \<Rightarrow> pystr res" where
  "utf8_decode [] = Inr []"
| "utf8_decode (b0 # bs) =
     (let n = unat b0 in
      if n < 0x80 then rmap (\<lambda>s. n # s) (utf8_decode bs)
      else if n < 0xC0 then Inl UnicodeDecodeError
      else if n < 0xE0 then
        (case bs of
           b1 # r \<Rightarrow> rbind (cont_bits b1) (\<lambda>x1.
             rbind (utf8_check 0x80 ((n - 0xC0) * 64 + x1)) (\<lambda>c.
               rmap (\<lambda>s. c # s) (utf8_decode r)))
         | _ \<Rightarrow> Inl UnicodeDecodeError)
      else if n < 0xF0 then
        (case bs of
           b1 # b2 # r \<Rightarrow> rbind (cont_bits b1) (\<lambda>x1. rbind (cont_bits b2) (\<lambda>x2.
             rbind (utf8_check 0x800 ((n - 0xE0) * 4096 + x1 * 64 + x2)) (\<lambda>c.
               rmap (\<lambda>s. c # s) (utf8_decode r))))
         | _ \<Rightarrow> Inl UnicodeDecodeError)
      else if n < 0xF8 then
        (case bs of
           b1 # b2 # b3 # r \<Rightarrow>
             rbind (cont_bits b1) (\<lambda>x1. rbind (cont_bits b2) (\<lambda>x2. rbind (cont_bits b3) (\<lambda>x3.
             rbind (utf8_check 0x10000 ((n - 0xF0) * 262144 + x1 * 4096 + x2 * 64 + x3)) (\<lambda>c.
               rmap (\<lambda>s. c # s) (utf8_decode r)))))
         | _ \<Rightarrow> Inl UnicodeDecodeError)
      else Inl UnicodeDecodeError)"

lemma cont_bits_cont [simp]: "x < 64 \<Longrightarrow> cont_bits (mk_byte (0x80 + x)) = Inr x"
  by (simp add: cont_bits_def)

lemma utf8_check_ok [simp]:
  "lo \<le> c \<Longrightarrow> c < 0x110000 \<Longrightarrow> \<not> is_surrogate c \<Longrightarrow> utf8_check lo c = Inr c"
  by (simp add: utf8_check_def)

lemma split_64: "(c :: nat) div 64 * 64 + c mod 64 = c"
  by simp

lemma split_4096: "(c :: nat) div 4096 * 4096 + c div 64 mod 64 * 64 + c mod 64 = c"
proof -
  have "c div 4096 = c div 64 div 64" by (simp add: div_mult2_eq [symmetric])
  then show ?thesis
    using div_mult_mod_eq [of c 64] div_mult_mod_eq [of "c div 64" 64] by linarith
qed

lemma split_262144:
  "(c :: nat) div 262144 * 262144 + c div 4096 mod 64 * 4096 + c div 64 mod 64 * 64 + c mod 64 = c"
proof -
  have "c div 262144 = c div 4096 div 64" by (simp add: div_mult2_eq [symmetric])
  then show ?thesis
    using split_4096 [of c] div_mult_mod_eq [of "c div 4096" 64] by linarith
qed

lemma utf8_decode_char:
  assumes "utf8_char c = Inr bs"
  shows "utf8_decode (bs @ r) = rmap ((#) c) (utf8_decode r)"
proof -
  consider "c < 0x80" | "0x80 \<le> c" "c < 0x800"
    | "0x800 \<le> c" "c < 0x10000" "\<not> is_surrogate c"
    | "0x10000 \<le> c" "c < 0x110000" "\<not> is_surrogate c"
    using assms by (force simp: utf8_char_def split: if_splits)
  then show ?thesis
  proof cases
    case 1
    with assms have "bs = [mk_byte c]" by (simp add: utf8_char_def)
    with 1 show ?thesis by simp
  next
    case 2
    with assms have bs: "bs = [mk_byte (0xC0 + c div 64), mk_byte (0x80 + c mod 64)]"
      by (simp add: utf8_char_def)
    from 2 have "c div 64 < 32" "\<not> is_surrogate c" by (auto simp: is_surrogate_def)
    with 2 show ?thesis by (simp add: bs)
  next
    case 3
    with assms have bs: "bs = [mk_byte (0xE0 + c div 4096), mk_byte (0x80 + c div 64 mod 64),
        mk_byte (0x80 + c mod 64)]"
      by (simp add: utf8_char_def)
    from 3 have "c div 4096 < 16" by auto
    with 3 show ?thesis by (simp add: bs split_4096)
  next
    case 4
    with assms have bs: "bs = [mk_byte (0xF0 + c div 262144), mk_byte (0x80 + c div 4096 mod 64),
        mk_byte (0x80 + c div 64 mod 64), mk_byte (0x80 + c mod 64)]"
      by (simp add: utf8_char_def is_surrogate_def)
    from 4 have "c div 262144 < 8" by auto
    with 4 show ?thesis by (simp add: bs split_262144)
  qed
qed

lemma utf8_decode_encode: "utf8_encode s = Inr bs \<Longrightarrow> utf8_decode bs = Inr s"
  unfolding utf8_encode_def
  by (induction s arbitrary: bs) (auto simp: utf8_decode_char)

lemma cont_bits_Inr: "cont_bits b = Inr x \<longleftrightarrow> x < 64 \<and> b = mk_byte (0x80 + x)"
  by (auto simp: cont_bits_def)

lemma utf8_check_Inr:
  "utf8_check lo v = Inr c \<longleftrightarrow> c = v \<and> lo \<le> c \<and> c < 0x110000 \<and> \<not> is_surrogate c"
  by (auto simp: utf8_check_def)

lemma utf8_char_two:
  assumes "0xC0 \<le> n" "n < 0xE0" "x < 64" "0x80 \<le> (n - 0xC0) * 64 + x"
  shows "utf8_char ((n - 0xC0) * 64 + x) = Inr [mk_byte n, mk_byte (0x80 + x)]"
proof -
  define m where "m = n - 0xC0"
  with assms have "n = 0xC0 + m" "m < 32" "0x80 \<le> m * 64 + x" by auto
  with assms(3) show ?thesis
    unfolding utf8_char_def by simp
qed

lemma div_mod_64: "x < 64 \<Longrightarrow> (m * 64 + x) div 64 = (m :: nat) \<and> (m * 64 + x) mod 64 = x"
  by simp

lemma utf8_char_three:
  assumes "0xE0 \<le> n" "n < 0xF0" "x < 64" "y < 64"
    and "0x800 \<le> (n - 0xE0) * 4096 + x * 64 + y" "\<not> is_surrogate ((n - 0xE0) * 4096 + x * 64 + y)"
  shows "utf8_char ((n - 0xE0) * 4096 + x * 64 + y)
           = Inr [mk_byte n, mk_byte (0x80 + x), mk_byte (0x80 + y)]"
proof -
  define m where "m = n - 0xE0"
  define c where "c = (m * 64 + x) * 64 + y"
  have c: "(n - 0xE0) * 4096 + x * 64 + y = c" by (simp add: c_def m_def)
  have n: "n = 0xE0 + m" "m < 16" using assms m_def by auto
  have d64: "c div 64 = m * 64 + x" "c mod 64 = y"
    using div_mod_64 [OF assms(4), of "m * 64 + x"] by (simp_all only: c_def)
  have dd: "c div 64 mod 64 = x" "c div 4096 = m"
    using div_mod_64 [OF assms(3), of m] div_mult2_eq [of c 64 64] by (simp_all add: d64(1))
  have "c < 0x10000" "\<not> c < 0x800" "\<not> c < 0x80"
    using n assms(3,4,5) unfolding c by (auto simp: c_def)
  moreover have "\<not> is_surrogate c" using assms(6) unfolding c .
  ultimately have "utf8_char c = Inr [mk_byte n, mk_byte (0x80 + x), mk_byte (0x80 + y)]"
    unfolding utf8_char_def dd d64(2) n(1) by simp
  then show ?thesis unfolding c .
qed

lemma utf8_char_four:
  assumes "0xF0 \<le> n" "x < 64" "y < 64" "z < 64"
    and "0x10000 \<le> (n - 0xF0) * 262144 + x * 4096 + y * 64 + z"
      "(n - 0xF0) * 262144 + x * 4096 + y * 64 + z < 0x110000"
  shows "utf8_char ((n - 0xF0) * 262144 + x * 4096 + y * 64 + z)
           = Inr [mk_byte n, mk_byte (0x80 + x), mk_byte (0x80 + y), mk_byte (0x80 + z)]"
proof -
  define m where "m = n - 0xF0"
  define c where "c = ((m * 64 + x) * 64 + y) * 64 + z"
  have c: "(n - 0xF0) * 262144 + x * 4096 + y * 64 + z = c" by (simp add: c_def m_def)
  have n: "n = 0xF0 + m" using assms(1) m_def by simp
  have d64: "c div 64 = (m * 64 + x) * 64 + y" "c mod 64 = z"
    using div_mod_64 [OF assms(4), of "(m * 64 + x) * 64 + y"] by (simp_all only: c_def)
  have d4096: "c div 4096 = m * 64 + x" "c div 64 mod 64 = y"
    using div_mod_64 [OF assms(3), of "m * 64 + x"] div_mult2_eq [of c 64 64]
    by (simp_all add: d64(1))
  have dd: "c div 4096 mod 64 = x" "c div 262144 = m"
    using div_mod_64 [OF assms(2), of m] div_mult2_eq [of c 4096 64] by (simp_all add: d4096(1))
  have b: "0x10000 \<le> c" "c < 0x110000" using assms(5,6) unfolding c by simp_all
  then have "\<not> is_surrogate c" by (simp add: is_surrogate_def)
  with b have "utf8_char c
      = Inr [mk_byte n, mk_byte (0x80 + x), mk_byte (0x80 + y), mk_byte (0x80 + z)]"
    unfolding utf8_char_def dd d64(2) d4096(2) n by simp
  then show ?thesis unfolding c .
qed

lemma utf8_encode_Cons:
  "utf8_char c = Inr bs \<Longrightarrow> utf8_encode s = Inr cs \<Longrightarrow> utf8_encode (c # s) = Inr (bs @ cs)"
  by (simp add: utf8_encode_def)

lemma utf8_encode_decode: "utf8_decode bs = Inr s \<Longrightarrow> utf8_encode s = Inr bs"
proof (induction bs arbitrary: s rule: utf8_decode.induct)
  case 1
  then show ?case by (simp add: utf8_encode_def)
next
  case (2 b0 bs)
  consider "unat b0 < 0x80" | "0xC0 \<le> unat b0" "unat b0 < 0xE0"
    | "0xE0 \<le> unat b0" "unat b0 < 0xF0" | "0xF0 \<le> unat b0" "unat b0 < 0xF8"
    using "2.prems" by (fastforce simp: Let_def split: if_splits)
  then show ?case
  proof cases
    case 1
    then obtain s' where s': "s = unat b0 # s'" "utf8_decode bs = Inr s'"
      using "2.prems" by auto
    with 1 have "utf8_encode s' = Inr bs" using "2.IH"(1) by blast
    moreover have "utf8_char (unat b0) = Inr [b0]" using 1 by (simp add: utf8_char_def)
    ultimately show ?thesis using utf8_encode_Cons s'(1) by fastforce
  next
    case 2
    note IH = "2.IH"(2)
    from 2 obtain b1 r x c s' where
      *: "bs = b1 # r" "cont_bits b1 = Inr x" "utf8_check 0x80 ((unat b0 - 0xC0) * 64 + x) = Inr c"
      "utf8_decode r = Inr s'" "s = c # s'"
      using "2.prems" by (auto split: list.splits)
    have "utf8_encode s' = Inr r"
      using IH [OF refl _ _ _ *(1) *(2) *(3) *(4)] 2 by simp
    moreover have "utf8_char c = Inr [b0, b1]"
      using * 2 utf8_char_two [of "unat b0" x] by (auto simp: cont_bits_Inr utf8_check_Inr)
    ultimately show ?thesis using utf8_encode_Cons *(1,5) by fastforce
  next
    case 3
    then obtain b1 b2 r x y c s' where
      *: "bs = b1 # b2 # r" "cont_bits b1 = Inr x" "cont_bits b2 = Inr y"
      "utf8_check 0x800 ((unat b0 - 0xE0) * 4096 + x * 64 + y) = Inr c"
      "utf8_decode r = Inr s'" "s = c # s'"
      using "2.prems" by (auto split: list.splits)
    have "utf8_encode s' = Inr r"
      using "2.IH"(3) [OF refl _ _ _ _ *(1) refl *(2) *(3) *(4) *(5)] 3 by simp
    moreover have "utf8_char c = Inr [b0, b1, b2]"
      using * 3 utf8_char_three [of "unat b0" x y] by (auto simp: cont_bits_Inr utf8_check_Inr)
    ultimately show ?thesis using utf8_encode_Cons *(1,6) by fastforce
  next
    case 4
    then obtain b1 b2 b3 r x y z c s' where
      *: "bs = b1 # b2 # b3 # r" "cont_bits b1 = Inr x" "cont_bits b2 = Inr y" "cont_bits b3 = Inr z"
      "utf8_check 0x10000 ((unat b0 - 0xF0) * 262144 + x * 4096 + y * 64 + z) = Inr c"
      "utf8_decode r = Inr s'" "s = c # s'"
      using "2.prems" by (auto split: list.splits)
    have "utf8_encode s' = Inr r"
      using "2.IH"(4) [OF refl _ _ _ _ _ *(1) refl refl *(2) *(3) *(4) *(5) *(6)] 4 by simp
    moreover have "utf8_char c = Inr [b0, b1, b2, b3]"
      using * 4 utf8_char_four [of "unat b0" x y z] by (auto simp: cont_bits_Inr utf8_check_Inr)
    ultimately show ?thesis using utf8_encode_Cons *(1,7) by fastforce
  qed
qed

section \<open>Dicts in insertion order\<close>

lemma AList_update_new: "k \<notin> fst ` set d \<Longrightarrow> AList.update k v d = d @ [(k, v)]"
  by (induction d) auto

lemma AList_delete_filter: "AList.delete k d = filter (\<lambda>kv. fst kv \<noteq> k) d"
  by (simp add: AList.delete_eq case_prod_unfold eq_commute)

lemma dict_item:
  "distinct (map fst d) \<Longrightarrow> map_of d k = Some v \<Longrightarrow> it \<in> set d \<Longrightarrow> fst it = k \<Longrightarrow> it = (k, v)"
  by (metis map_of_is_SomeI option.inject prod.collapse)

lemma dict_delete_split:
  assumes "distinct (map fst al)" and "map_of al key = Some r"
  obtains us vs where "al = us @ (key, r) # vs" and "AList.delete key al = us @ vs"
proof -
  obtain us vs where p: "al = us @ (key, r) # vs"
    using map_of_SomeD [OF assms(2)] by (meson split_list)
  with assms(1) have "\<forall>kv \<in> set (us @ vs). fst kv \<noteq> key" by force
  then have "filter (\<lambda>kv. fst kv \<noteq> key) us = us" "filter (\<lambda>kv. fst kv \<noteq> key) vs = vs"
    by (simp_all add: filter_id_conv)
  with that p show ?thesis by (simp add: AList_delete_filter)
qed

end
