(* ===== verification/Wire.thy ===== *)
theory Wire
  imports Mqtt_Prelude
begin

text \<open>
  The wire primitives of \<open>packets/_wire.py\<close>: variable-length integers, UTF-8 strings and
  binary fields, each as an encoder and a decoder reading at an offset of a buffer.  The
  locale \<open>wire_field\<close> is the interface the property and packet codecs rely on (decoding at an
  offset inverts encoding, whatever follows, and never reads past the buffer); every encoder
  and decoder pair of this theory interprets it.
\<close>

unbundle bit_operations_syntax

section \<open>Definitions\<close>

definition MAX_MQTT_VARINT :: int where
  "MAX_MQTT_VARINT = 268435455"

text \<open>The \<open>while True\<close> loop of \<open>encode_varint\<close>; its guard has made the value non-negative.\<close>

function encode_varint_loop :: "nat \<Rightarrow> bytes" where
  "encode_varint_loop value =
     (let b = value AND 0x7F; value' = drop_bit 7 value in
      if value' \<noteq> 0 then mk_byte (b OR 0x80) # encode_varint_loop value'
      else [mk_byte b])"
  by pat_completeness auto
termination
  by (relation "measure id") (auto simp: drop_bit_eq_div)

declare encode_varint_loop.simps [simp del]

definition encode_varint :: "int \<Rightarrow> bytes res" where
  "encode_varint value =
     (if value < 0 \<or> value > MAX_MQTT_VARINT then Inl (ValueError ''Value out of varint range'')
      else Inr (encode_varint_loop (nat value)))"

text \<open>The \<open>for i in range(4)\<close> loop of \<open>decode_varint\<close>.\<close>

function decode_varint_loop :: "bytes \<Rightarrow> nat \<Rightarrow> nat \<Rightarrow> int \<Rightarrow> int \<Rightarrow> (int \<times> nat) res" where
  "decode_varint_loop buf offset i multiplier value =
     (if i \<ge> 4 then Inl (ValueError ''Varint exceeds 4 bytes'')
      else
        let pos = offset + i in
        if pos \<ge> length buf then Inl (ValueError ''Buffer too short for varint'')
        else
          let b = uint (buf ! pos); value' = value + (b AND 0x7F) * multiplier in
          if b AND 0x80 = 0 then Inr (value', i + 1)
          else decode_varint_loop buf offset (i + 1) (multiplier * 128) value')"
  by pat_completeness auto
termination
  by (relation "measure (\<lambda>(buf, offset, i, m, v). 4 - i)") auto

declare decode_varint_loop.simps [simp del]

definition decode_varint :: "bytes \<Rightarrow> nat \<Rightarrow> (int \<times> nat) res" where
  "decode_varint buf offset = decode_varint_loop buf offset 0 1 0"

definition encode_str :: "pystr \<Rightarrow> bytes res" where
  "encode_str s =
     rbind (utf8_encode s) (\<lambda>encoded.
       rmap (\<lambda>h. h @ encoded) (pack_H (int (length encoded))))"

definition decode_str :: "bytes \<Rightarrow> nat \<Rightarrow> (pystr \<times> nat) res" where
  "decode_str buf offset =
     (if offset + 2 > length buf then Inl (ValueError ''Buffer too short for string length prefix'')
      else rbind (unpack_H buf offset) (\<lambda>len.
        let fin = offset + 2 + nat len in
        if fin > length buf then Inl (ValueError ''Buffer too short for string data'')
        else rmap (\<lambda>s. (s, 2 + nat len)) (utf8_decode (take (nat len) (drop (offset + 2) buf)))))"

definition encode_bytes_field :: "bytes \<Rightarrow> bytes res" where
  "encode_bytes_field data = rmap (\<lambda>h. h @ data) (pack_H (int (length data)))"

definition decode_bytes_field :: "bytes \<Rightarrow> nat \<Rightarrow> (bytes \<times> nat) res" where
  "decode_bytes_field buf offset =
     (if offset + 2 > length buf then Inl (ValueError ''Buffer too short for bytes length prefix'')
      else rbind (unpack_H buf offset) (\<lambda>len.
        let fin = offset + 2 + nat len in
        if fin > length buf then Inl (ValueError ''Buffer too short for bytes data'')
        else Inr (take (nat len) (drop (offset + 2) buf), 2 + nat len)))"

section \<open>The interface of a field codec\<close>

text \<open>
  \<open>norm x\<close> is what the receiver sees of \<open>x\<close>: the value itself for the primitives, and a canonical
  form where the format cannot tell two values apart (an empty property block and no properties).
\<close>

locale wire_field =
  fixes enc :: "'a \<Rightarrow> bytes res"
    and dec :: "bytes \<Rightarrow> nat \<Rightarrow> ('a \<times> nat) res"
    and norm :: "'a \<Rightarrow> 'a"
  assumes enc_nonempty: "enc x = Inr bs \<Longrightarrow> bs \<noteq> []"
    and dec_enc: "enc x = Inr bs \<Longrightarrow> drop off buf = bs @ rest \<Longrightarrow>
      dec buf off = Inr (norm x, length bs)"
    and dec_bound: "dec buf off = Inr (y, n) \<Longrightarrow> 0 < n \<and> off + n \<le> length buf"
begin

lemma field_at:
  assumes "enc x = Inr bs" and "drop off buf = bs @ rest"
  shows "dec buf off = Inr (norm x, length bs)" and "drop (off + length bs) buf = rest"
    and "off < length buf" and "off + length bs \<le> length buf"
  using dec_enc [OF assms] drop_prefix_drop [OF assms(2)] dec_bound [OF dec_enc [OF assms]]
  by linarith+

lemma enc_inj: "enc x = Inr bs \<Longrightarrow> enc y = Inr bs \<Longrightarrow> norm x = norm y"
  using dec_enc [of x bs 0 bs "[]"] dec_enc [of y bs 0 bs "[]"] by simp

lemma enc_prefix_free:
  assumes "enc x = Inr bs" and "enc y = Inr cs" and "bs @ r = cs @ r'"
  shows "norm x = norm y \<and> bs = cs \<and> r = r'"
proof -
  have "dec (bs @ r) 0 = Inr (norm x, length bs)" "dec (bs @ r) 0 = Inr (norm y, length cs)"
    using dec_enc [OF assms(1), of 0 "bs @ r" r] dec_enc [OF assms(2), of 0 "bs @ r" r'] assms(3)
    by simp_all
  then have "norm x = norm y" "length bs = length cs" by simp_all
  with assms(3) show ?thesis by simp
qed

end

section \<open>Variable-length integers\<close>

lemma and_127: "(n :: nat) AND 127 = n mod 128"
  using take_bit_eq_mask [of 7 n] by (simp add: take_bit_eq_mod mask_eq_exp_minus_1)

lemma int_and_127: "(n :: int) AND 127 = n mod 128"
  using take_bit_eq_mask [of 7 n] by (simp add: take_bit_eq_mod mask_eq_exp_minus_1)

lemma int_and_128: "0 \<le> n \<Longrightarrow> n < 256 \<Longrightarrow> (n :: int) AND 128 = 0 \<longleftrightarrow> n < 128"
proof -
  assume n: "0 \<le> n" "n < 256"
  have "n AND 128 = 0 \<longleftrightarrow> \<not> bit n 7"
    using and_exp_eq_0_iff_not_bit [of n 7] by simp
  also have "\<dots> \<longleftrightarrow> even (n div 128)" by (simp add: bit_iff_odd)
  also have "\<dots> \<longleftrightarrow> n < 128"
  proof -
    have "n div 128 = (if n < 128 then 0 else 1)"
      using n by auto
    then show ?thesis by simp
  qed
  finally show ?thesis .
qed

lemma or_128: "(n :: nat) < 128 \<Longrightarrow> n OR 128 = n + 128"
proof -
  assume n: "n < 128"
  have "n AND 128 = 0"
    using n and_exp_eq_0_iff_not_bit [of n 7] by (simp add: bit_iff_odd)
  then show ?thesis using disjunctive_add_eq_or [of n 128] by simp
qed

lemma encode_varint_loop_eq:
  "encode_varint_loop v =
     (if v < 128 then [mk_byte v] else mk_byte (v mod 128 + 128) # encode_varint_loop (v div 128))"
proof -
  have "drop_bit 7 v = v div 128" by (simp add: drop_bit_eq_div)
  moreover have "v div 128 = 0 \<longleftrightarrow> v < 128" by auto
  ultimately show ?thesis
    by (subst encode_varint_loop.simps) (simp add: and_127 or_128 Let_def)
qed

lemma encode_varint_loop_nonempty [simp]: "encode_varint_loop v \<noteq> []"
  by (subst encode_varint_loop_eq) simp

text \<open>Four bytes hold every value up to 268435455, and the length grows with the value.\<close>

lemma encode_varint_loop_length: "0 < k \<Longrightarrow> v < 128 ^ k \<Longrightarrow> length (encode_varint_loop v) \<le> k"
proof (induction k arbitrary: v)
  case (Suc k)
  show ?case
  proof (cases "v < 128")
    case True
    then show ?thesis by (subst encode_varint_loop_eq) simp
  next
    case False
    then have "0 < k" using Suc.prems by (cases k) auto
    moreover have "v div 128 < 128 ^ k"
      using Suc.prems by (simp add: less_mult_imp_div_less mult.commute)
    ultimately have "length (encode_varint_loop (v div 128)) \<le> k" by (rule Suc.IH)
    with False show ?thesis by (subst encode_varint_loop_eq) simp
  qed
qed simp

lemma decode_varint_loop_encode:
  assumes "i < 4" and "v < 128 ^ (4 - i)" and "drop (offset + i) buf = encode_varint_loop v @ rest"
  shows "decode_varint_loop buf offset i m a
           = Inr (a + int v * m, i + length (encode_varint_loop v))"
  using assms
proof (induction v arbitrary: i m a rule: encode_varint_loop.induct)
  case (1 v)
  show ?case
  proof (cases "v < 128")
    case True
    then have l: "encode_varint_loop v = [mk_byte v]" by (subst encode_varint_loop_eq) simp
    have "offset + i < length buf" "buf ! (offset + i) = mk_byte v"
      using drop_prefix_len [OF "1.prems"(3)] drop_prefix_nth [OF "1.prems"(3), of 0] l by auto
    then show ?thesis
      using True "1.prems"(1)
      by (subst decode_varint_loop.simps) (simp add: l int_and_127 int_and_128 Let_def)
  next
    case False
    then have l: "encode_varint_loop v = mk_byte (v mod 128 + 128) # encode_varint_loop (v div 128)"
      by (subst encode_varint_loop_eq) simp
    have nth: "offset + i < length buf" "buf ! (offset + i) = mk_byte (v mod 128 + 128)"
      using drop_prefix_len [OF "1.prems"(3)] drop_prefix_nth [OF "1.prems"(3), of 0] l by auto
    have i: "Suc i < 4"
    proof (rule ccontr)
      assume "\<not> Suc i < 4"
      with "1.prems"(1) have "i = 3" by simp
      with "1.prems"(2) False show False by simp
    qed
    have "4 - i = Suc (4 - Suc i)" using "1.prems"(1) by simp
    with "1.prems"(2) have v: "v div 128 < 128 ^ (4 - Suc i)"
      by (simp add: less_mult_imp_div_less mult.commute)
    have d: "drop (offset + Suc i) buf = encode_varint_loop (v div 128) @ rest"
      using drop_prefix_drop [of "offset + i" buf "[mk_byte (v mod 128 + 128)]"] "1.prems"(3) l by simp
    have g: "drop_bit 7 v \<noteq> 0" "drop_bit 7 v = v div 128"
      using False by (auto simp: drop_bit_eq_div)
    from "1.IH" [OF refl refl g(1), of "Suc i"] i v d g(2) have IH:
      "decode_varint_loop buf offset (Suc i) (m * 128) (a + int (v mod 128) * m)
         = Inr (a + int (v mod 128) * m + int (v div 128) * (m * 128),
                Suc i + length (encode_varint_loop (v div 128)))"
      by simp
    have "int (v mod 128) + 128 < 256" by simp
    then have "uint (buf ! (offset + i)) AND 128 \<noteq> 0"
      "uint (buf ! (offset + i)) AND 127 = int (v mod 128)"
      by (simp_all add: nth int_and_127 int_and_128)
    moreover have "a + int (v mod 128) * m + int (v div 128) * (m * 128) = a + int v * m"
    proof -
      have "int v = int (v div 128) * 128 + int (v mod 128)"
        by (metis div_mult_mod_eq of_nat_add of_nat_mult of_nat_numeral)
      then show ?thesis by (simp add: algebra_simps)
    qed
    ultimately show ?thesis
      using IH nth(1) "1.prems"(1)
      by (subst decode_varint_loop.simps) (simp add: l Let_def)
  qed
qed

lemma decode_varint_loop_bound:
  "decode_varint_loop buf offset i m a = Inr (v, n) \<Longrightarrow> 0 \<le> a \<Longrightarrow> 0 \<le> m \<Longrightarrow>
     i < n \<and> n \<le> 4 \<and> offset + n \<le> length buf \<and> a \<le> v \<and> v \<le> a + m * (128 ^ (4 - i) - 1)"
proof (induction buf offset i m a rule: decode_varint_loop.induct)
  case (1 buf offset i m a)
  define b where "b = uint (buf ! (offset + i))"
  have i: "i < 4" "offset + i < length buf"
    using "1.prems"(1) by (auto simp: decode_varint_loop.simps [of buf offset i] Let_def split: if_splits)
  have b: "0 \<le> b mod 128" "b mod 128 \<le> 127" by auto
  have p: "128 ^ (4 - i) = (128 :: int) * 128 ^ (3 - i)"
    using i(1) by (simp add: Suc_diff_le [symmetric] flip: power_Suc)
  have one: "1 \<le> (128 :: int) ^ (3 - i)" by simp
  have step: "b mod 128 * m \<le> 127 * m" using b "1.prems"(3) by (simp add: mult_right_mono)
  show ?case
  proof (cases "b AND 128 = 0")
    case True
    then have "v = a + b mod 128 * m" "n = i + 1"
      using "1.prems"(1) i by (auto simp: decode_varint_loop.simps [of buf offset i] b_def int_and_127 Let_def)
    moreover have "127 * m \<le> m * (128 * 128 ^ (3 - i) - 1)"
      using mult_left_mono [of 127 "128 * 128 ^ (3 - i) - 1" m] one "1.prems"(3)
      by (simp add: mult.commute)
    ultimately show ?thesis using i b "1.prems"(2,3) step by (simp add: p)
  next
    case False
    then have r: "decode_varint_loop buf offset (i + 1) (m * 128) (a + b mod 128 * m) = Inr (v, n)"
      using "1.prems"(1) i by (simp add: decode_varint_loop.simps [of buf offset i] b_def int_and_127 Let_def)
    have "i + 1 < n \<and> n \<le> 4 \<and> offset + n \<le> length buf \<and> a + b mod 128 * m \<le> v
        \<and> v \<le> a + b mod 128 * m + m * 128 * (128 ^ (4 - (i + 1)) - 1)"
      using "1.IH" [OF _ refl _ refl refl] False i r "1.prems"(2,3) b by (simp add: b_def int_and_127)
    moreover have "m * 128 * (128 ^ (3 - i) - 1) + 127 * m = m * (128 * 128 ^ (3 - i) - 1)"
      by (simp add: algebra_simps)
    moreover have "0 \<le> b mod 128 * m" using b "1.prems"(3) by simp
    ultimately show ?thesis using step by (simp add: p)
  qed
qed

lemma decode_varint_bound:
  assumes "decode_varint buf off = Inr (v, n)"
  shows "0 < n \<and> n \<le> 4 \<and> off + n \<le> length buf \<and> 0 \<le> v \<and> v \<le> MAX_MQTT_VARINT"
  using decode_varint_loop_bound [OF assms [unfolded decode_varint_def]]
  by (simp add: MAX_MQTT_VARINT_def)

lemma encode_varint_Inr:
  "encode_varint v = Inr bs \<longleftrightarrow>
     0 \<le> v \<and> v \<le> MAX_MQTT_VARINT \<and> bs = encode_varint_loop (nat v)"
  by (auto simp: encode_varint_def)

lemma decode_varint_encode:
  assumes "encode_varint v = Inr bs" and "drop off buf = bs @ rest"
  shows "decode_varint buf off = Inr (v, length bs)"
proof -
  from assms(1) have v: "0 \<le> v" "nat v < 128 ^ 4" "bs = encode_varint_loop (nat v)"
    by (auto simp: encode_varint_Inr MAX_MQTT_VARINT_def)
  then show ?thesis
    using decode_varint_loop_encode [of 0 "nat v" off buf rest 1 0] assms(2)
    by (simp add: decode_varint_def)
qed

interpretation varint: wire_field encode_varint decode_varint "\<lambda>v. v"
proof unfold_locales
  fix x bs assume "encode_varint x = Inr bs"
  then show "bs \<noteq> []" by (auto simp: encode_varint_Inr)
qed (auto simp: decode_varint_encode dest: decode_varint_bound)

section \<open>Strings and binary fields\<close>

text \<open>A length-prefixed field: what both decoders read once the prefix has been unpacked.\<close>

lemma prefixed_at:
  assumes h: "pack_H (int (length data)) = Inr h" and d: "drop off buf = (h @ data) @ rest"
  shows "unpack_H buf off = Inr (int (length data))" and "length h = 2"
    and "off + 2 + length data \<le> length buf"
    and "take (length data) (drop (off + 2) buf) = data"
proof -
  show "unpack_H buf off = Inr (int (length data))"
    using unpack_H_drop [OF _ h, of off buf "data @ rest"] d by simp
  show l: "length h = 2" using pack_length(2) [OF h] .
  then show "off + 2 + length data \<le> length buf"
    using drop_prefix_len [OF d] by fastforce
  have "drop (off + 2) buf = data @ rest"
    using drop_prefix_drop [of off buf h "data @ rest"] d l by simp
  then show "take (length data) (drop (off + 2) buf) = data" by simp
qed

lemma decode_str_encode:
  assumes "encode_str s = Inr bs" and "drop off buf = bs @ rest"
  shows "decode_str buf off = Inr (s, length bs)"
proof -
  from assms(1) obtain e h where e: "utf8_encode s = Inr e"
    and h: "pack_H (int (length e)) = Inr h" and bs: "bs = h @ e"
    by (auto simp: encode_str_def)
  note p = prefixed_at [OF h, of off buf rest]
  show ?thesis
    using p assms(2) utf8_decode_encode [OF e] by (simp add: decode_str_def bs Let_def)
qed

lemma decode_bytes_encode:
  assumes "encode_bytes_field data = Inr bs" and "drop off buf = bs @ rest"
  shows "decode_bytes_field buf off = Inr (data, length bs)"
proof -
  from assms(1) obtain h where h: "pack_H (int (length data)) = Inr h" and bs: "bs = h @ data"
    by (auto simp: encode_bytes_field_def)
  note p = prefixed_at [OF h, of off buf rest]
  show ?thesis
    using p assms(2) by (simp add: decode_bytes_field_def bs Let_def)
qed

interpretation str_field: wire_field encode_str decode_str "\<lambda>s. s"
proof unfold_locales
  fix s bs assume "encode_str s = Inr bs"
  then show "bs \<noteq> []" by (auto simp: encode_str_def dest: pack_length)
qed (auto simp: decode_str_encode, auto simp: decode_str_def Let_def split: if_splits)

interpretation bytes_field: wire_field encode_bytes_field decode_bytes_field "\<lambda>b. b"
proof unfold_locales
  fix s bs assume "encode_bytes_field s = Inr bs"
  then show "bs \<noteq> []" by (auto simp: encode_bytes_field_def dest: pack_length)
qed (auto simp: decode_bytes_encode, auto simp: decode_bytes_field_def Let_def split: if_splits)

section \<open>Properties\<close>

text \<open>
  every value from 0 to 268435455 has a varint encoding of at most four bytes that decodes,
  at any position and whatever follows, to the value and its length; every other value is
  refused with a ValueError.
\<close>

theorem varint_total:
  "(if 0 \<le> v \<and> v \<le> MAX_MQTT_VARINT
    then \<exists>bs. encode_varint v = Inr bs \<and> length bs \<le> 4
           \<and> (\<forall>pre rest. decode_varint (pre @ bs @ rest) (length pre) = Inr (v, length bs))
    else encode_varint v = Inl (ValueError ''Value out of varint range''))"
proof (cases "0 \<le> v \<and> v \<le> MAX_MQTT_VARINT")
  case True
  then obtain bs where bs: "encode_varint v = Inr bs" by (simp add: encode_varint_def)
  have dec: "decode_varint (pre @ bs @ rest) (length pre) = Inr (v, length bs)" for pre rest
    using decode_varint_encode [OF bs] by simp
  from decode_varint_bound [OF dec [of "[]" "[]"]] have "length bs \<le> 4" by simp
  with True bs dec show ?thesis by auto
qed (auto simp: encode_varint_def)

text \<open>
  strings travel unchanged: a string that can be encoded at all is decoded at its offset to
  itself, the decoder consumes exactly the encoder's bytes, and no encoded string is a proper
  prefix of another, so consecutive fields can be told apart.
\<close>

theorem str_field_roundtrip:
  assumes "encode_str s = Inr bs" and "encode_str t = Inr cs"
  shows "decode_str (pre @ bs @ rest) (length pre) = Inr (s, length bs)
    \<and> (bs @ rest = cs @ rest' \<longrightarrow> s = t \<and> rest = rest')"
  using str_field.dec_enc [OF assms(1), of "length pre" "pre @ bs @ rest" rest]
    str_field.enc_prefix_free [OF assms, of rest rest'] by simp

theorem str_field_roundtrip_witness:
  "encode_str (str_lit ''a'') = Inr [0, 1, 97] \<and> encode_str [0x20AC] = Inr [0, 3, 0xE2, 0x82, 0xAC]
   \<and> decode_str ([7] @ [0, 1, 97] @ [5]) 1 = Inr (str_lit ''a'', 3)"
proof -
  have e: "encode_str (str_lit ''a'') = Inr [0, 1, 97]" by code_simp
  have "utf8_encode [0x20AC] = Inr [0xE2, 0x82, 0xAC]"
    by (simp add: utf8_encode_def utf8_char_def is_surrogate_def mk_byte_def)
  moreover have "pack_H 3 = Inr [0, 3]" by code_simp
  ultimately have f: "encode_str [0x20AC] = Inr [0, 3, 0xE2, 0x82, 0xAC]"
    by (simp add: encode_str_def)
  show ?thesis using str_field_roundtrip [OF e f, of "[7]" "[5]" "[]"] e f by simp
qed

end
