(* ===== verification/Property_Block.thy ===== *)
theory Property_Block
  imports Wire
begin

text \<open>
  The generic part of \<open>packets/properties.py\<close>: the property identifiers, their wire types, and
  the encoder and decoder of a property block (a dict of properties in insertion order,
  preceded by its length as a variable-length integer).  The main result is that decoding an
  encoded block gives back the dict, in order, whatever surrounds it in the buffer.
\<close>

section \<open>Property identifiers and wire types\<close>

datatype PropertyID =
    PAYLOAD_FORMAT_INDICATOR
  | MESSAGE_EXPIRY_INTERVAL
  | CONTENT_TYPE
  | RESPONSE_TOPIC
  | CORRELATION_DATA
  | SUBSCRIPTION_IDENTIFIER
  | SESSION_EXPIRY_INTERVAL
  | ASSIGNED_CLIENT_IDENTIFIER
  | SERVER_KEEP_ALIVE
  | AUTHENTICATION_METHOD
  | AUTHENTICATION_DATA
  | REQUEST_PROBLEM_INFORMATION
  | WILL_DELAY_INTERVAL
  | REQUEST_RESPONSE_INFORMATION
  | RESPONSE_INFORMATION
  | SERVER_REFERENCE
  | REASON_STRING
  | RECEIVE_MAXIMUM
  | TOPIC_ALIAS_MAXIMUM
  | TOPIC_ALIAS
  | MAXIMUM_QOS
  | RETAIN_AVAILABLE
  | USER_PROPERTY
  | MAXIMUM_PACKET_SIZE
  | WILDCARD_SUBSCRIPTION_AVAILABLE
  | SUBSCRIPTION_IDENTIFIER_AVAILABLE
  | SHARED_SUBSCRIPTION_AVAILABLE

primrec pid_value :: "PropertyID \<Rightarrow> int" where
  "pid_value PAYLOAD_FORMAT_INDICATOR = 0x01"
| "pid_value MESSAGE_EXPIRY_INTERVAL = 0x02"
| "pid_value CONTENT_TYPE = 0x03"
| "pid_value RESPONSE_TOPIC = 0x08"
| "pid_value CORRELATION_DATA = 0x09"
| "pid_value SUBSCRIPTION_IDENTIFIER = 0x0B"
| "pid_value SESSION_EXPIRY_INTERVAL = 0x11"
| "pid_value ASSIGNED_CLIENT_IDENTIFIER = 0x12"
| "pid_value SERVER_KEEP_ALIVE = 0x13"
| "pid_value AUTHENTICATION_METHOD = 0x15"
| "pid_value AUTHENTICATION_DATA = 0x16"
| "pid_value REQUEST_PROBLEM_INFORMATION = 0x17"
| "pid_value WILL_DELAY_INTERVAL = 0x18"
| "pid_value REQUEST_RESPONSE_INFORMATION = 0x19"
| "pid_value RESPONSE_INFORMATION = 0x1A"
| "pid_value SERVER_REFERENCE = 0x1C"
| "pid_value REASON_STRING = 0x1F"
| "pid_value RECEIVE_MAXIMUM = 0x21"
| "pid_value TOPIC_ALIAS_MAXIMUM = 0x22"
| "pid_value TOPIC_ALIAS = 0x23"
| "pid_value MAXIMUM_QOS = 0x24"
| "pid_value RETAIN_AVAILABLE = 0x25"
| "pid_value USER_PROPERTY = 0x26"
| "pid_value MAXIMUM_PACKET_SIZE = 0x27"
| "pid_value WILDCARD_SUBSCRIPTION_AVAILABLE = 0x28"
| "pid_value SUBSCRIPTION_IDENTIFIER_AVAILABLE = 0x29"
| "pid_value SHARED_SUBSCRIPTION_AVAILABLE = 0x2A"

definition all_property_ids :: "PropertyID list" where
  "all_property_ids =
     [PAYLOAD_FORMAT_INDICATOR,
      MESSAGE_EXPIRY_INTERVAL,
      CONTENT_TYPE,
      RESPONSE_TOPIC,
      CORRELATION_DATA,
      SUBSCRIPTION_IDENTIFIER,
      SESSION_EXPIRY_INTERVAL,
      ASSIGNED_CLIENT_IDENTIFIER,
      SERVER_KEEP_ALIVE,
      AUTHENTICATION_METHOD,
      AUTHENTICATION_DATA,
      REQUEST_PROBLEM_INFORMATION,
      WILL_DELAY_INTERVAL,
      REQUEST_RESPONSE_INFORMATION,
      RESPONSE_INFORMATION,
      SERVER_REFERENCE,
      REASON_STRING,
      RECEIVE_MAXIMUM,
      TOPIC_ALIAS_MAXIMUM,
      TOPIC_ALIAS,
      MAXIMUM_QOS,
      RETAIN_AVAILABLE,
      USER_PROPERTY,
      MAXIMUM_PACKET_SIZE,
      WILDCARD_SUBSCRIPTION_AVAILABLE,
      SUBSCRIPTION_IDENTIFIER_AVAILABLE,
      SHARED_SUBSCRIPTION_AVAILABLE]"

text \<open>\<open>PropertyID(v)\<close>, with the caller's \<open>except ValueError\<close> clause.\<close>

definition PropertyID_of :: "int \<Rightarrow> PropertyID res" where
  "PropertyID_of v =
     (case List.find (\<lambda>p. pid_value p = v) all_property_ids of
        Some p \<Rightarrow> Inr p
      | None \<Rightarrow> Inl (ValueError ''Unknown property ID''))"

definition WIRE_BYTE :: "PropertyID set" where
  "WIRE_BYTE =
     {PAYLOAD_FORMAT_INDICATOR, REQUEST_PROBLEM_INFORMATION, REQUEST_RESPONSE_INFORMATION,
      MAXIMUM_QOS, RETAIN_AVAILABLE, WILDCARD_SUBSCRIPTION_AVAILABLE,
      SUBSCRIPTION_IDENTIFIER_AVAILABLE, SHARED_SUBSCRIPTION_AVAILABLE}"

definition WIRE_UINT16 :: "PropertyID set" where
  "WIRE_UINT16 = {SERVER_KEEP_ALIVE, RECEIVE_MAXIMUM, TOPIC_ALIAS_MAXIMUM, TOPIC_ALIAS}"

definition WIRE_UINT32 :: "PropertyID set" where
  "WIRE_UINT32 =
     {MESSAGE_EXPIRY_INTERVAL, SESSION_EXPIRY_INTERVAL, WILL_DELAY_INTERVAL, MAXIMUM_PACKET_SIZE}"

definition WIRE_VARINT :: "PropertyID set" where
  "WIRE_VARINT = {SUBSCRIPTION_IDENTIFIER}"

definition WIRE_STR :: "PropertyID set" where
  "WIRE_STR =
     {CONTENT_TYPE, RESPONSE_TOPIC, ASSIGNED_CLIENT_IDENTIFIER, AUTHENTICATION_METHOD,
      REASON_STRING, RESPONSE_INFORMATION, SERVER_REFERENCE}"

definition WIRE_BYTES_DATA :: "PropertyID set" where
  "WIRE_BYTES_DATA = {CORRELATION_DATA, AUTHENTICATION_DATA}"

lemmas wire_type_defs =
  WIRE_BYTE_def WIRE_UINT16_def WIRE_UINT32_def WIRE_VARINT_def WIRE_STR_def WIRE_BYTES_DATA_def

section \<open>Property dicts\<close>

text \<open>The values of the dict: a bool is the int 0 or 1, as in Python.\<close>

datatype prop_val =
    PInt int
  | PStr pystr
  | PBytes bytes
  | PPairs "(pystr \<times> pystr) list"

type_synonym props_dict = "(PropertyID \<times> prop_val) list"

definition encode_user_pair :: "PropertyID \<Rightarrow> pystr \<times> pystr \<Rightarrow> bytes res" where
  "encode_user_pair pid kv =
     rbind (byte_of (pid_value pid)) (\<lambda>b. rbind (encode_str (fst kv)) (\<lambda>k.
       rmap (\<lambda>v. b @ k @ v) (encode_str (snd kv))))"

text \<open>One iteration of the loop of \<open>encode_props\<close>.\<close>

definition encode_prop :: "PropertyID \<Rightarrow> prop_val \<Rightarrow> bytes res" where
  "encode_prop pid v =
     (if pid \<in> WIRE_BYTE then
        (case v of
           PInt i \<Rightarrow> rbind (pack_B (pid_value pid)) (\<lambda>b. rmap (\<lambda>x. b @ x) (pack_B i))
         | _ \<Rightarrow> Inl TypeError)
      else if pid \<in> WIRE_UINT16 then
        (case v of
           PInt i \<Rightarrow> rbind (pack_B (pid_value pid)) (\<lambda>b. rmap (\<lambda>x. b @ x) (pack_H i))
         | _ \<Rightarrow> Inl TypeError)
      else if pid \<in> WIRE_UINT32 then
        (case v of
           PInt i \<Rightarrow> rbind (pack_B (pid_value pid)) (\<lambda>b. rmap (\<lambda>x. b @ x) (pack_I i))
         | _ \<Rightarrow> Inl TypeError)
      else if pid \<in> WIRE_VARINT then
        (case v of
           PInt i \<Rightarrow> rbind (byte_of (pid_value pid)) (\<lambda>b. rmap (\<lambda>x. b @ x) (encode_varint i))
         | _ \<Rightarrow> Inl TypeError)
      else if pid \<in> WIRE_STR then
        (case v of
           PStr s \<Rightarrow> rbind (byte_of (pid_value pid)) (\<lambda>b. rmap (\<lambda>x. b @ x) (encode_str s))
         | _ \<Rightarrow> Inl TypeError)
      else if pid \<in> WIRE_BYTES_DATA then
        (case v of
           PBytes d \<Rightarrow> rbind (byte_of (pid_value pid)) (\<lambda>b. rmap (\<lambda>x. b @ x) (encode_bytes_field d))
         | _ \<Rightarrow> Inl TypeError)
      else if pid = USER_PROPERTY then
        (case v of PPairs kvs \<Rightarrow> rconcat (encode_user_pair pid) kvs | _ \<Rightarrow> Inl TypeError)
      else Inr [])"

definition encode_props :: "props_dict \<Rightarrow> bytes res" where
  "encode_props d = rconcat (\<lambda>(pid, v). encode_prop pid v) d"

definition encode_props_block :: "props_dict option \<Rightarrow> bytes res" where
  "encode_props_block d =
     (case d of
        None \<Rightarrow> encode_varint 0
      | Some d' \<Rightarrow>
          if d' = [] then encode_varint 0
          else rbind (encode_props d') (\<lambda>raw.
            rmap (\<lambda>h. h @ raw) (encode_varint (int (length raw)))))"

definition user_pairs :: "props_dict \<Rightarrow> PropertyID \<Rightarrow> (pystr \<times> pystr) list" where
  "user_pairs d pid = (case map_of d pid of Some (PPairs kvs) \<Rightarrow> kvs | _ \<Rightarrow> [])"

text \<open>The body of the loop of \<open>decode_props_block\<close> after the identifier has been read.\<close>

definition decode_prop :: "bytes \<Rightarrow> nat \<Rightarrow> PropertyID \<Rightarrow> props_dict \<Rightarrow> (props_dict \<times> nat) res" where
  "decode_prop buf pos pid d =
     (if pid \<in> WIRE_BYTE then
        rmap (\<lambda>v. (AList.update pid (PInt v) d, pos + 1)) (byte_at buf pos)
      else if pid \<in> WIRE_UINT16 then
        rmap (\<lambda>v. (AList.update pid (PInt v) d, pos + 2)) (unpack_H buf pos)
      else if pid \<in> WIRE_UINT32 then
        rmap (\<lambda>v. (AList.update pid (PInt v) d, pos + 4)) (unpack_I buf pos)
      else if pid \<in> WIRE_VARINT then
        rmap (\<lambda>(v, n). (AList.update pid (PInt v) d, pos + n)) (decode_varint buf pos)
      else if pid \<in> WIRE_STR then
        rmap (\<lambda>(s, n). (AList.update pid (PStr s) d, pos + n)) (decode_str buf pos)
      else if pid \<in> WIRE_BYTES_DATA then
        rmap (\<lambda>(b, n). (AList.update pid (PBytes b) d, pos + n)) (decode_bytes_field buf pos)
      else if pid = USER_PROPERTY then
        rbind (decode_str buf pos) (\<lambda>(k, kn).
          rmap (\<lambda>(v, vn). (AList.update pid (PPairs (user_pairs d pid @ [(k, v)])) d, pos + kn + vn))
            (decode_str buf (pos + kn)))
      else Inr (d, pos))"

lemma decode_prop_progress: "decode_prop buf pos pid d = Inr (d', pos') \<Longrightarrow> pos \<le> pos'"
  by (auto simp: decode_prop_def split: if_splits)

function decode_props_loop :: "bytes \<Rightarrow> nat \<Rightarrow> nat \<Rightarrow> props_dict \<Rightarrow> props_dict res" where
  "decode_props_loop buf pos fin d =
     (if pos < fin then
        rbind (byte_at buf pos) (\<lambda>x. rbind (PropertyID_of x) (\<lambda>pid.
          rbind (decode_prop buf (pos + 1) pid d) (\<lambda>dp.
            decode_props_loop buf (snd dp) fin (fst dp))))
      else Inr d)"
  by pat_completeness auto
termination
  by (relation "measure (\<lambda>(buf, pos, fin, d). fin - pos)") (auto dest!: decode_prop_progress)

declare decode_props_loop.simps [simp del]

definition decode_props_block :: "bytes \<Rightarrow> nat \<Rightarrow> (props_dict \<times> nat) res" where
  "decode_props_block buf offset =
     rbind (decode_varint buf offset) (\<lambda>(props_len, n).
       let pos = offset + n in
       rmap (\<lambda>d. (d, n + nat props_len)) (decode_props_loop buf pos (pos + nat props_len) []))"

section \<open>Round trip of a block\<close>

lemma PropertyID_of_value [simp]: "PropertyID_of (pid_value p) = Inr p"
  by (cases p) (simp_all add: PropertyID_of_def all_property_ids_def)

lemma pid_value_byte [simp]: "0 \<le> pid_value p" "pid_value p < 256"
  by (cases p; simp)+

lemma pid_byte_enc [simp]:
  "pack_B (pid_value p) = Inr [word_of_int (pid_value p)]"
  "byte_of (pid_value p) = Inr [word_of_int (pid_value p)]"
  by (simp_all add: pack_B_def byte_of_def)

lemma byte_at_pid:
  "drop pos buf = word_of_int (pid_value p) # rest \<Longrightarrow> byte_at buf pos = Inr (pid_value p)"
  by (simp add: byte_at_drop)

lemma AList_update_last: "k \<notin> fst ` set d \<Longrightarrow> AList.update k v (d @ [(k, w)]) = d @ [(k, v)]"
  by (induction d) auto

lemma map_of_snoc_new: "k \<notin> fst ` set d \<Longrightarrow> map_of (d @ [(k, v)]) k = Some v"
  by (induction d) auto

text \<open>Every property but the user property: one identifier byte and one value.\<close>

lemma decode_prop_encode:
  assumes "encode_prop pid v = Inr bs" and "pid \<noteq> USER_PROPERTY" and "drop pos buf = bs @ rest"
  shows "\<exists>x. bs = word_of_int (pid_value pid) # x
           \<and> decode_prop buf (Suc pos) pid d = Inr (AList.update pid v d, pos + length bs)"
proof -
  have *: "drop (Suc pos) buf = x @ rest" if "bs = word_of_int (pid_value pid) # x" for x
    using assms(3) drop_prefix_drop [of pos buf "[word_of_int (pid_value pid)]" "x @ rest"] that
    by simp
  consider "pid \<in> WIRE_BYTE" | "pid \<notin> WIRE_BYTE" "pid \<in> WIRE_UINT16" | "pid \<in> WIRE_UINT32"
    | "pid \<in> WIRE_VARINT" | "pid \<in> WIRE_STR" | "pid \<in> WIRE_BYTES_DATA"
    using assms(2) by (cases pid) (auto simp: wire_type_defs)
  then show ?thesis
  proof cases
    case 1
    then obtain i where i: "v = PInt i" "bs = [word_of_int (pid_value pid), word_of_int i]"
        "0 \<le> i" "i < 256"
      using assms(1) by (auto simp: encode_prop_def pack_B_Inr split: prop_val.splits)
    with 1 * [of "[word_of_int i]"] show ?thesis
      by (simp add: decode_prop_def byte_at_drop)
  next
    case 2
    then obtain i x where "v = PInt i" "pack_H i = Inr x" "bs = word_of_int (pid_value pid) # x"
      using assms(1) by (auto simp: encode_prop_def split: prop_val.splits)
    with 2 * [of x] show ?thesis
      by (simp add: decode_prop_def unpack_H_drop pack_length(2))
  next
    case 3
    then have n: "pid \<notin> WIRE_BYTE" "pid \<notin> WIRE_UINT16" by (auto simp: wire_type_defs)
    with 3 obtain i x where "v = PInt i" "pack_I i = Inr x" "bs = word_of_int (pid_value pid) # x"
      using assms(1) by (auto simp: encode_prop_def split: prop_val.splits)
    with 3 n * [of x] show ?thesis
      by (simp add: decode_prop_def unpack_I_drop pack_length(3))
  next
    case 4
    then have n: "pid \<notin> WIRE_BYTE" "pid \<notin> WIRE_UINT16" "pid \<notin> WIRE_UINT32"
      by (auto simp: wire_type_defs)
    with 4 obtain i x where "v = PInt i" "encode_varint i = Inr x"
        "bs = word_of_int (pid_value pid) # x"
      using assms(1) by (auto simp: encode_prop_def split: prop_val.splits)
    with 4 n * [of x] show ?thesis
      by (simp add: decode_prop_def varint.field_at(1))
  next
    case 5
    then have n: "pid \<notin> WIRE_BYTE" "pid \<notin> WIRE_UINT16" "pid \<notin> WIRE_UINT32" "pid \<notin> WIRE_VARINT"
      by (auto simp: wire_type_defs)
    with 5 obtain i x where "v = PStr i" "encode_str i = Inr x"
        "bs = word_of_int (pid_value pid) # x"
      using assms(1) by (auto simp: encode_prop_def split: prop_val.splits)
    with 5 n * [of x] show ?thesis
      by (simp add: decode_prop_def str_field.field_at(1))
  next
    case 6
    then have n: "pid \<notin> WIRE_BYTE" "pid \<notin> WIRE_UINT16" "pid \<notin> WIRE_UINT32" "pid \<notin> WIRE_VARINT"
        "pid \<notin> WIRE_STR"
      by (auto simp: wire_type_defs)
    with 6 obtain i x where "v = PBytes i" "encode_bytes_field i = Inr x"
        "bs = word_of_int (pid_value pid) # x"
      using assms(1) by (auto simp: encode_prop_def split: prop_val.splits)
    with 6 n * [of x] show ?thesis
      by (simp add: decode_prop_def bytes_field.field_at(1))
  qed
qed

lemma decode_props_loop_step:
  assumes "pos < fin" and "drop pos buf = word_of_int (pid_value pid) # x"
    and "decode_prop buf (Suc pos) pid d = Inr (d', pos')"
  shows "decode_props_loop buf pos fin d = decode_props_loop buf pos' fin d'"
  using assms by (subst decode_props_loop.simps) (simp add: byte_at_pid)

text \<open>The user property: one identifier byte and two strings for every pair.\<close>

lemma decode_user_pair_encode:
  assumes "encode_user_pair USER_PROPERTY (k, v) = Inr bs" and "drop pos buf = bs @ rest"
  shows "\<exists>x. bs = word_of_int (pid_value USER_PROPERTY) # x
    \<and> decode_prop buf (Suc pos) USER_PROPERTY d
        = Inr (AList.update USER_PROPERTY (PPairs (user_pairs d USER_PROPERTY @ [(k, v)])) d,
               pos + length bs)"
proof -
  from assms(1) obtain kb vb where kv: "encode_str k = Inr kb" "encode_str v = Inr vb"
    and bs: "bs = word_of_int (pid_value USER_PROPERTY) # kb @ vb"
    by (auto simp: encode_user_pair_def simp del: pid_value.simps)
  have d: "drop (Suc pos) buf = kb @ vb @ rest"
    using assms(2) drop_prefix_drop [of pos buf "[word_of_int (pid_value USER_PROPERTY)]"] bs by simp
  note f = str_field.field_at [OF kv(1) d]
  show ?thesis
    using f(1) str_field.field_at(1) [OF kv(2) f(2)] bs
    by (simp add: decode_prop_def wire_type_defs)
qed

lemma decode_user_pairs_loop:
  assumes "rconcat (encode_user_pair USER_PROPERTY) kvs = Inr raw" and "drop pos buf = raw @ rest"
    and "pos + length raw \<le> fin" and "USER_PROPERTY \<notin> fst ` set acc"
  shows "decode_props_loop buf pos fin (acc @ [(USER_PROPERTY, PPairs done)])
       = decode_props_loop buf (pos + length raw) fin (acc @ [(USER_PROPERTY, PPairs (done @ kvs))])"
  using assms(1-3)
proof (induction kvs arbitrary: raw pos "done")
  case (Cons kv kvs)
  from Cons.prems(1) obtain b raw' where b: "encode_user_pair USER_PROPERTY kv = Inr b"
    and raw': "rconcat (encode_user_pair USER_PROPERTY) kvs = Inr raw'" and raw: "raw = b @ raw'"
    by auto
  let ?acc = "acc @ [(USER_PROPERTY, PPairs done)]"
  have d: "drop pos buf = b @ raw' @ rest" using Cons.prems(2) raw by simp
  have up: "user_pairs ?acc USER_PROPERTY = done"
    using map_of_snoc_new [OF assms(4)] by (simp add: user_pairs_def del: map_of_append)
  obtain x where x: "b = word_of_int (pid_value USER_PROPERTY) # x"
    and dp: "decode_prop buf (Suc pos) USER_PROPERTY ?acc
        = Inr (acc @ [(USER_PROPERTY, PPairs (done @ [kv]))], pos + length b)"
    using decode_user_pair_encode [of "fst kv" "snd kv" b pos buf "raw' @ rest" ?acc] b d
    by (auto simp: up AList_update_last [OF assms(4)])
  have "decode_props_loop buf pos fin ?acc
      = decode_props_loop buf (pos + length b) fin (acc @ [(USER_PROPERTY, PPairs (done @ [kv]))])"
    using decode_props_loop_step [OF _ _ dp] d x Cons.prems(3) raw by simp
  also have "\<dots> = decode_props_loop buf (pos + length b + length raw') fin
      (acc @ [(USER_PROPERTY, PPairs ((done @ [kv]) @ kvs))])"
    using Cons.IH [OF raw' drop_prefix_drop [OF d]] Cons.prems(3) raw by simp
  finally show ?case by (simp add: raw add.assoc)
qed simp

lemma decode_user_property_loop:
  assumes "rconcat (encode_user_pair USER_PROPERTY) kvs = Inr raw" and "kvs \<noteq> []"
    and "drop pos buf = raw @ rest" and "pos + length raw \<le> fin" and "USER_PROPERTY \<notin> fst ` set acc"
  shows "decode_props_loop buf pos fin acc
       = decode_props_loop buf (pos + length raw) fin (acc @ [(USER_PROPERTY, PPairs kvs)])"
proof -
  from assms(2) obtain kv kvs' where kvs: "kvs = kv # kvs'" by (cases kvs) auto
  with assms(1) obtain b1 b2 where b1: "encode_user_pair USER_PROPERTY kv = Inr b1"
    and b2: "rconcat (encode_user_pair USER_PROPERTY) kvs' = Inr b2" and raw: "raw = b1 @ b2" by auto
  have d1: "drop pos buf = b1 @ b2 @ rest" using assms(3) raw by simp
  have "user_pairs acc USER_PROPERTY = []"
    using assms(5) map_of_eq_None_iff [of acc USER_PROPERTY] by (simp add: user_pairs_def)
  then obtain x where x: "b1 = word_of_int (pid_value USER_PROPERTY) # x"
    and dp: "decode_prop buf (Suc pos) USER_PROPERTY acc
        = Inr (acc @ [(USER_PROPERTY, PPairs [kv])], pos + length b1)"
    using decode_user_pair_encode [of "fst kv" "snd kv" b1 pos buf _ acc] b1 d1
      AList_update_new [OF assms(5)] by auto
  have "decode_props_loop buf pos fin acc
      = decode_props_loop buf (pos + length b1) fin (acc @ [(USER_PROPERTY, PPairs [kv])])"
    using decode_props_loop_step [OF _ _ dp] d1 x assms(4) raw by simp
  then show ?thesis
    using decode_user_pairs_loop [OF b2 drop_prefix_drop [OF d1], of fin acc "[kv]"]
      assms(4,5) raw kvs by (simp add: add.assoc)
qed

lemma decode_props_loop_encode:
  assumes "encode_props d = Inr raw" and "drop pos buf = raw @ rest" and "pos + length raw \<le> fin"
    and "distinct (map fst (acc @ d))" and "(USER_PROPERTY, PPairs []) \<notin> set d"
  shows "decode_props_loop buf pos fin acc = decode_props_loop buf (pos + length raw) fin (acc @ d)"
  using assms
proof (induction d arbitrary: raw pos acc)
  case Nil
  then show ?case by (simp add: encode_props_def)
next
  case (Cons pv d)
  obtain pid v where pv: "pv = (pid, v)" by (cases pv)
  from Cons.prems(1) obtain b raw' where b: "encode_prop pid v = Inr b"
    and raw': "encode_props d = Inr raw'" and raw: "raw = b @ raw'"
    by (auto simp: encode_props_def pv)
  have d: "drop pos buf = b @ raw' @ rest" using Cons.prems(2) raw by simp
  have new: "pid \<notin> fst ` set acc" using Cons.prems(4) pv by auto
  have "decode_props_loop buf pos fin acc
      = decode_props_loop buf (pos + length b) fin (acc @ [(pid, v)])"
  proof (cases "pid = USER_PROPERTY")
    case False
    obtain x where "b = word_of_int (pid_value pid) # x"
      "decode_prop buf (Suc pos) pid acc = Inr (acc @ [(pid, v)], pos + length b)"
      using decode_prop_encode [OF b False d] AList_update_new [OF new] by metis
    then show ?thesis
      using decode_props_loop_step [of pos fin buf pid "x @ raw' @ rest"] d Cons.prems(3) raw by simp
  next
    case True
    then obtain kvs where "v = PPairs kvs" "rconcat (encode_user_pair USER_PROPERTY) kvs = Inr b"
      using b by (auto simp: encode_prop_def wire_type_defs split: prop_val.splits)
    then show ?thesis
      using decode_user_property_loop [of kvs b pos buf _ fin acc] True d new Cons.prems(3,5) raw pv
      by auto
  qed
  then show ?case
    using Cons.IH [OF raw' drop_prefix_drop [OF d], of "acc @ [(pid, v)]"] Cons.prems raw pv
    by (simp add: add.assoc)
qed

lemma decode_props_block_encode:
  assumes "encode_props_block (Some d) = Inr bs" and "drop off buf = bs @ rest"
    and "distinct (map fst d)" and "(USER_PROPERTY, PPairs []) \<notin> set d"
  shows "decode_props_block buf off = Inr (d, length bs)"
proof (cases "d = []")
  case True
  then show ?thesis
    using assms(1,2) varint.field_at [of 0 bs off buf rest]
    by (simp add: encode_props_block_def decode_props_block_def decode_props_loop.simps)
next
  case False
  then obtain raw h where raw: "encode_props d = Inr raw"
    and h: "encode_varint (int (length raw)) = Inr h" and bs: "bs = h @ raw"
    using assms(1) by (auto simp: encode_props_block_def)
  have d: "drop off buf = h @ raw @ rest" using assms(2) bs by simp
  note f = varint.field_at [OF h d]
  have "decode_props_loop buf (off + length h) (off + length h + length raw) [] = Inr d"
    using decode_props_loop_encode [OF raw f(2), of "off + length h + length raw" "[]"] assms(3,4)
    by (simp add: decode_props_loop.simps)
  then show ?thesis using f(1) bs by (simp add: decode_props_block_def Let_def)
qed

section \<open>Reading stays inside the buffer\<close>

lemma decode_prop_bound:
  "decode_prop buf pos pid d = Inr (d', pos') \<Longrightarrow> pos \<le> length buf \<Longrightarrow> pos' \<le> length buf"
  by (auto simp: decode_prop_def byte_at_def unpack_H_def unpack_I_def split: if_splits
      dest: varint.dec_bound str_field.dec_bound bytes_field.dec_bound)

lemma decode_props_loop_bound:
  "decode_props_loop buf pos fin d = Inr d' \<Longrightarrow> pos \<le> length buf \<Longrightarrow> fin \<le> max pos (length buf)"
proof (induction buf pos fin d rule: decode_props_loop.induct)
  case (1 buf pos fin d)
  show ?case
  proof (cases "pos < fin")
    case True
    with "1.prems"(1) obtain x pid dp where *: "byte_at buf pos = Inr x" "PropertyID_of x = Inr pid"
      "decode_prop buf (pos + 1) pid d = Inr dp"
      "decode_props_loop buf (snd dp) fin (fst dp) = Inr d'"
      by (subst (asm) decode_props_loop.simps) auto
    then have "pos < length buf" by (simp add: byte_at_def split: if_splits)
    then have "snd dp \<le> length buf"
      using decode_prop_bound [of buf "pos + 1" pid d "fst dp" "snd dp"] *(3) by simp
    then have "fin \<le> max (snd dp) (length buf)"
      using "1.IH" [OF True *(1-3) *(4)] by simp
    with \<open>snd dp \<le> length buf\<close> show ?thesis by simp
  qed simp
qed

lemma decode_props_block_bound:
  assumes "decode_props_block buf off = Inr (d, n)"
  shows "0 < n \<and> off + n \<le> length buf"
proof -
  from assms obtain len k where k: "decode_varint buf off = Inr (len, k)"
    and l: "decode_props_loop buf (off + k) (off + k + nat len) [] = Inr d" and n: "n = k + nat len"
    by (auto simp: decode_props_block_def Let_def)
  from decode_varint_bound [OF k] decode_props_loop_bound [OF l] n show ?thesis by auto
qed

section \<open>Properties\<close>

text \<open>
  a property block round-trips: decoding the encoding of a dict, at any offset and whatever
  follows, gives the dict with its properties in the same order and consumes exactly the
  encoded bytes.  A USER_PROPERTY entry without pairs writes nothing and so is excluded.
\<close>

theorem props_block_roundtrip:
  assumes "encode_props_block (Some d) = Inr bs"
    and "distinct (map fst d)" and "(USER_PROPERTY, PPairs []) \<notin> set d"
  shows "decode_props_block (pre @ bs @ rest) (length pre) = Inr (d, length bs)"
  using decode_props_block_encode [OF assms(1) _ assms(2,3), of "length pre" "pre @ bs @ rest" rest]
  by simp

theorem props_block_roundtrip_witness:
  "decode_props_block ([1] @ [10, 0x0B, 5, 0x26, 0, 1, 107, 0, 2, 118, 119] @ [9]) 1
     = Inr ([(SUBSCRIPTION_IDENTIFIER, PInt 5),
             (USER_PROPERTY, PPairs [(str_lit ''k'', str_lit ''vw'')])], 11)"
proof -
  let ?d = "[(SUBSCRIPTION_IDENTIFIER, PInt 5),
      (USER_PROPERTY, PPairs [(str_lit ''k'', str_lit ''vw'')])]"
  have e: "encode_props_block (Some ?d) = Inr [10, 0x0B, 5, 0x26, 0, 1, 107, 0, 2, 118, 119]"
    by code_simp
  show ?thesis using props_block_roundtrip [OF e, of "[1]" "[9]"] by simp
qed

text \<open>
  the decoder does not hold a property to the block it stands in: a string property may run
  past the declared end, and the bytes it read there are read again as the next field.
\<close>

theorem props_block_overrun:
  "decode_props_block [2, 0x1F, 0, 3, 97, 98, 99] 0
     = Inr ([(REASON_STRING, PStr (str_lit ''abc''))], 3)"
  by code_simp

end
