(* ===== verification/Properties.thy ===== *)
theory Properties
  imports Property_Block
begin

text \<open>
  The eleven typed property classes of \<open>packets/properties.py\<close>, each as a record with the fields
  of the dataclass (prefixed by the initials of the class, since Isabelle's field names are
  global), its encoder and its decoder.  The list of a class's items is the list its encoder
  iterates over.  Every class interprets \<open>wire_field\<close>: decoding an encoded block gives back the
  properties, except that properties with every field unset decode to None.
\<close>

section \<open>Building and reading the dict of a class\<close>

text \<open>The dict comprehension \<open>{pid: val for pid, val in [...] if val is not None}\<close>.\<close>

definition present :: "(PropertyID \<times> prop_val option) list \<Rightarrow> props_dict" where
  "present l = List.map_filter (\<lambda>(pid, v). map_option (Pair pid) v) l"

text \<open>\<open>_up(props)\<close> and \<open>d.update(d')\<close>.\<close>

definition up_dict :: "(pystr \<times> pystr) list \<Rightarrow> props_dict" where
  "up_dict kvs = (if kvs \<noteq> [] then [(USER_PROPERTY, PPairs kvs)] else [])"

definition dict_update :: "props_dict \<Rightarrow> props_dict \<Rightarrow> props_dict" where
  "dict_update d d' = fold (\<lambda>(k, v). AList.update k v) d' d"

text \<open>\<open>d.get(pid)\<close> at the type the identifier has on the wire, and \<open>_up_tuple(d)\<close>.\<close>

definition get_int :: "props_dict \<Rightarrow> PropertyID \<Rightarrow> int option" where
  "get_int d pid = (case map_of d pid of Some (PInt i) \<Rightarrow> Some i | _ \<Rightarrow> None)"

definition get_bool :: "props_dict \<Rightarrow> PropertyID \<Rightarrow> bool option" where
  "get_bool d pid = (case map_of d pid of Some (PInt i) \<Rightarrow> Some (i \<noteq> 0) | _ \<Rightarrow> None)"

definition get_str :: "props_dict \<Rightarrow> PropertyID \<Rightarrow> pystr option" where
  "get_str d pid = (case map_of d pid of Some (PStr s) \<Rightarrow> Some s | _ \<Rightarrow> None)"

definition get_bytes :: "props_dict \<Rightarrow> PropertyID \<Rightarrow> bytes option" where
  "get_bytes d pid = (case map_of d pid of Some (PBytes b) \<Rightarrow> Some b | _ \<Rightarrow> None)"

definition up_tuple :: "props_dict \<Rightarrow> (pystr \<times> pystr) list" where
  "up_tuple d = user_pairs d USER_PROPERTY"

abbreviation PBool :: "bool \<Rightarrow> prop_val" where
  "PBool b \<equiv> PInt (of_bool b)"

text \<open>The dict an encoder builds from the items and the user properties of a class.\<close>

definition block_dict :: "(PropertyID \<times> prop_val option) list \<Rightarrow> (pystr \<times> pystr) list \<Rightarrow> props_dict" where
  "block_dict l kvs = dict_update (present l) (up_dict kvs)"

definition item_ids_ok :: "(PropertyID \<times> prop_val option) list \<Rightarrow> bool" where
  "item_ids_ok l \<longleftrightarrow> distinct (map fst l) \<and> USER_PROPERTY \<notin> set (map fst l)"

lemma present_simps [simp]:
  "present [] = []"
  "present ((pid, None) # l) = present l"
  "present ((pid, Some v) # l) = (pid, v) # present l"
  by (simp_all add: present_def List.map_filter_def)

lemma present_keys: "fst ` set (present l) \<subseteq> fst ` set l"
  by (force simp: present_def map_filter_def)

lemma present_distinct: "distinct (map fst l) \<Longrightarrow> distinct (map fst (present l))"
proof (induction l)
  case (Cons x l)
  obtain pid v where x: "x = (pid, v)" by (cases x)
  with Cons present_keys [of l] show ?case by (cases v) auto
qed simp

lemma map_of_present:
  "distinct (map fst l) \<Longrightarrow>
     map_of (present l) k = (case map_of l k of Some v \<Rightarrow> v | None \<Rightarrow> None)"
proof (induction l)
  case (Cons x l)
  obtain pid v where x: "x = (pid, v)" by (cases x)
  have "map_of l pid = None" using Cons.prems x map_of_eq_None_iff [of l pid] by simp
  with Cons x show ?case by (cases v) auto
qed simp

lemma present_Nil_iff: "present l = [] \<longleftrightarrow> (\<forall>x \<in> set l. snd x = None)"
proof (induction l)
  case (Cons x l)
  then show ?case by (cases x; cases "snd x") auto
qed simp

lemma block_dict_eq: "item_ids_ok l \<Longrightarrow> block_dict l kvs = present l @ up_dict kvs"
proof -
  assume "item_ids_ok l"
  then have "USER_PROPERTY \<notin> fst ` set (present l)"
    using present_keys [of l] by (auto simp: item_ids_ok_def)
  then show ?thesis
    by (simp add: block_dict_def dict_update_def up_dict_def AList_update_new)
qed

lemma map_of_block_dict:
  "item_ids_ok l \<Longrightarrow> pid \<noteq> USER_PROPERTY \<Longrightarrow>
     map_of (block_dict l kvs) pid = (case map_of l pid of Some v \<Rightarrow> v | None \<Rightarrow> None)"
  by (auto simp: block_dict_eq up_dict_def item_ids_ok_def map_add_def map_of_present
      split: option.splits)

lemma up_tuple_block_dict: "item_ids_ok l \<Longrightarrow> up_tuple (block_dict l kvs) = kvs"
proof -
  assume ok: "item_ids_ok l"
  then have "map_of (present l) USER_PROPERTY = None"
    using present_keys [of l] by (auto simp: item_ids_ok_def map_of_eq_None_iff)
  then show ?thesis
    by (auto simp: up_tuple_def user_pairs_def block_dict_eq [OF ok] up_dict_def map_add_def)
qed

lemma block_dict_Nil_iff:
  "item_ids_ok l \<Longrightarrow> block_dict l kvs = [] \<longleftrightarrow> (\<forall>x \<in> set l. snd x = None) \<and> kvs = []"
  by (auto simp: block_dict_eq up_dict_def present_Nil_iff)

text \<open>The round trip every class shares.\<close>

lemma class_block_at:
  assumes "encode_props_block (Some (block_dict l kvs)) = Inr bs" and "item_ids_ok l"
    and "drop off buf = bs @ rest"
  shows "decode_props_block buf off = Inr (block_dict l kvs, length bs)"
proof (rule decode_props_block_encode [OF assms(1,3)])
  have "USER_PROPERTY \<notin> fst ` set (present l)"
    using assms(2) present_keys [of l] by (auto simp: item_ids_ok_def)
  then show "distinct (map fst (block_dict l kvs))" "(USER_PROPERTY, PPairs []) \<notin> set (block_dict l kvs)"
    using assms(2) present_distinct [of l]
    by (auto simp: block_dict_eq up_dict_def item_ids_ok_def rev_image_eqI)
qed

lemma empty_block_at:
  assumes "encode_varint 0 = Inr bs" and "drop off buf = bs @ rest"
  shows "decode_props_block buf off = Inr ([], length bs)"
  by (rule decode_props_block_encode [of "[]" bs off buf rest])
    (use assms in \<open>simp_all add: encode_props_block_def\<close>)

lemma props_block_nonempty: "encode_props_block d = Inr bs \<Longrightarrow> bs \<noteq> []"
  by (auto simp: encode_props_block_def dest: varint.enc_nonempty split: option.splits if_splits)

text \<open>What a getter reads back of an item of the list.\<close>

definition item_int :: "prop_val option option \<Rightarrow> int option" where
  "item_int x = (case x of Some (Some (PInt i)) \<Rightarrow> Some i | _ \<Rightarrow> None)"

definition item_bool :: "prop_val option option \<Rightarrow> bool option" where
  "item_bool x = map_option (\<lambda>i. i \<noteq> 0) (item_int x)"

definition item_str :: "prop_val option option \<Rightarrow> pystr option" where
  "item_str x = (case x of Some (Some (PStr s)) \<Rightarrow> Some s | _ \<Rightarrow> None)"

definition item_bytes :: "prop_val option option \<Rightarrow> bytes option" where
  "item_bytes x = (case x of Some (Some (PBytes b)) \<Rightarrow> Some b | _ \<Rightarrow> None)"

lemma item_map [simp]:
  "item_int (Some (map_option PInt i)) = i"
  "item_bool (Some (map_option (\<lambda>b. PBool b) t)) = t"
  "item_str (Some (map_option PStr s)) = s"
  "item_bytes (Some (map_option PBytes b)) = b"
  unfolding item_int_def item_bool_def item_str_def item_bytes_def
  by (auto simp: option.case_eq_if option.map_sel split: option.splits)

lemma get_block_dict:
  assumes "item_ids_ok l" and "pid \<noteq> USER_PROPERTY"
  shows "get_int (block_dict l kvs) pid = item_int (map_of l pid)"
    and "get_bool (block_dict l kvs) pid = item_bool (map_of l pid)"
    and "get_str (block_dict l kvs) pid = item_str (map_of l pid)"
    and "get_bytes (block_dict l kvs) pid = item_bytes (map_of l pid)"
  unfolding get_int_def get_bool_def get_str_def get_bytes_def map_of_block_dict [OF assms]
    item_int_def item_bool_def item_str_def item_bytes_def
  by (auto split: option.splits prop_val.splits)

lemmas class_read = get_block_dict up_tuple_block_dict block_dict_Nil_iff

section \<open>ConnectProperties\<close>

record ConnectProperties =
  cp_session_expiry_interval :: "int option"
  cp_receive_maximum :: "int option"
  cp_maximum_packet_size :: "int option"
  cp_topic_alias_maximum :: "int option"
  cp_request_response_information :: "bool option"
  cp_request_problem_information :: "bool option"
  cp_authentication_method :: "pystr option"
  cp_authentication_data :: "bytes option"
  cp_user_properties :: "(pystr \<times> pystr) list"

definition connect_items :: "ConnectProperties \<Rightarrow> (PropertyID \<times> prop_val option) list" where
  "connect_items p =
     [(SESSION_EXPIRY_INTERVAL, map_option PInt (cp_session_expiry_interval p)),
      (RECEIVE_MAXIMUM, map_option PInt (cp_receive_maximum p)),
      (MAXIMUM_PACKET_SIZE, map_option PInt (cp_maximum_packet_size p)),
      (TOPIC_ALIAS_MAXIMUM, map_option PInt (cp_topic_alias_maximum p)),
      (REQUEST_RESPONSE_INFORMATION, map_option PBool (cp_request_response_information p)),
      (REQUEST_PROBLEM_INFORMATION, map_option PBool (cp_request_problem_information p)),
      (AUTHENTICATION_METHOD, map_option PStr (cp_authentication_method p)),
      (AUTHENTICATION_DATA, map_option PBytes (cp_authentication_data p))]"

definition encode_connect_properties :: "ConnectProperties option \<Rightarrow> bytes res" where
  "encode_connect_properties props =
     (case props of
        None \<Rightarrow> encode_varint 0
      | Some p \<Rightarrow> encode_props_block (Some (block_dict (connect_items p) (cp_user_properties p))))"

definition decode_connect_properties :: "bytes \<Rightarrow> nat \<Rightarrow> (ConnectProperties option \<times> nat) res" where
  "decode_connect_properties buf offset =
     rmap (\<lambda>(d, n).
       if d = [] then (None, n)
       else (Some \<lparr>cp_session_expiry_interval = get_int d SESSION_EXPIRY_INTERVAL,
         cp_receive_maximum = get_int d RECEIVE_MAXIMUM,
         cp_maximum_packet_size = get_int d MAXIMUM_PACKET_SIZE,
         cp_topic_alias_maximum = get_int d TOPIC_ALIAS_MAXIMUM,
         cp_request_response_information = get_bool d REQUEST_RESPONSE_INFORMATION,
         cp_request_problem_information = get_bool d REQUEST_PROBLEM_INFORMATION,
         cp_authentication_method = get_str d AUTHENTICATION_METHOD,
         cp_authentication_data = get_bytes d AUTHENTICATION_DATA,
         cp_user_properties = up_tuple d\<rparr>, n))
       (decode_props_block buf offset)"

definition connect_props_seen :: "ConnectProperties option \<Rightarrow> ConnectProperties option" where
  "connect_props_seen props =
     (if props = Some \<lparr>cp_session_expiry_interval = None, cp_receive_maximum = None, cp_maximum_packet_size =
      None, cp_topic_alias_maximum = None, cp_request_response_information = None,
      cp_request_problem_information = None, cp_authentication_method = None,
      cp_authentication_data = None, cp_user_properties = []\<rparr>
      then None else props)"

lemma connect_items_ok [simp]: "item_ids_ok (connect_items p)"
  by (simp add: connect_items_def item_ids_ok_def)

lemma connect_dict_Nil:
  "block_dict (connect_items p) (cp_user_properties p) = [] \<longleftrightarrow>
     p = \<lparr>cp_session_expiry_interval = None, cp_receive_maximum = None, cp_maximum_packet_size =
      None, cp_topic_alias_maximum = None, cp_request_response_information = None,
      cp_request_problem_information = None, cp_authentication_method = None,
      cp_authentication_data = None, cp_user_properties = []\<rparr>"
  by (cases p) (simp add: block_dict_Nil_iff, simp add: connect_items_def)

lemma connect_dict_read:
  "(let d = block_dict (connect_items p) (cp_user_properties p) in
    \<lparr>cp_session_expiry_interval = get_int d SESSION_EXPIRY_INTERVAL,
      cp_receive_maximum = get_int d RECEIVE_MAXIMUM,
      cp_maximum_packet_size = get_int d MAXIMUM_PACKET_SIZE,
      cp_topic_alias_maximum = get_int d TOPIC_ALIAS_MAXIMUM,
      cp_request_response_information = get_bool d REQUEST_RESPONSE_INFORMATION,
      cp_request_problem_information = get_bool d REQUEST_PROBLEM_INFORMATION,
      cp_authentication_method = get_str d AUTHENTICATION_METHOD,
      cp_authentication_data = get_bytes d AUTHENTICATION_DATA,
      cp_user_properties = up_tuple d\<rparr>) = p"
  by (cases p) (simp add: class_read Let_def, simp add: connect_items_def)

interpretation connect_props: wire_field encode_connect_properties decode_connect_properties connect_props_seen
proof unfold_locales
  fix x bs assume "encode_connect_properties x = Inr bs"
  then show "bs \<noteq> []"
    by (auto simp: encode_connect_properties_def
        dest: varint.enc_nonempty props_block_nonempty split: option.splits)
next
  fix x bs off buf rest
  assume enc: "encode_connect_properties x = Inr bs" and at: "drop off buf = bs @ rest"
  show "decode_connect_properties buf off = Inr (connect_props_seen x, length bs)"
  proof (cases x)
    case None
    with enc at show ?thesis
      by (simp add: encode_connect_properties_def decode_connect_properties_def empty_block_at
          connect_props_seen_def)
  next
    case (Some p)
    then have "decode_props_block buf off
        = Inr (block_dict (connect_items p) (cp_user_properties p), length bs)"
      using enc at class_block_at [of "connect_items p"] by (simp add: encode_connect_properties_def)
    with Some show ?thesis
      by (simp add: decode_connect_properties_def connect_props_seen_def connect_dict_Nil
          connect_dict_read [unfolded Let_def])
  qed
qed (auto simp: decode_connect_properties_def dest: decode_props_block_bound split: if_splits)

section \<open>WillProperties\<close>

record WillProperties =
  wp_will_delay_interval :: "int option"
  wp_payload_format_indicator :: "int option"
  wp_message_expiry_interval :: "int option"
  wp_content_type :: "pystr option"
  wp_response_topic :: "pystr option"
  wp_correlation_data :: "bytes option"
  wp_user_properties :: "(pystr \<times> pystr) list"

definition will_items :: "WillProperties \<Rightarrow> (PropertyID \<times> prop_val option) list" where
  "will_items p =
     [(WILL_DELAY_INTERVAL, map_option PInt (wp_will_delay_interval p)),
      (PAYLOAD_FORMAT_INDICATOR, map_option PInt (wp_payload_format_indicator p)),
      (MESSAGE_EXPIRY_INTERVAL, map_option PInt (wp_message_expiry_interval p)),
      (CONTENT_TYPE, map_option PStr (wp_content_type p)),
      (RESPONSE_TOPIC, map_option PStr (wp_response_topic p)),
      (CORRELATION_DATA, map_option PBytes (wp_correlation_data p))]"

definition encode_will_properties :: "WillProperties option \<Rightarrow> bytes res" where
  "encode_will_properties props =
     (case props of
        None \<Rightarrow> encode_varint 0
      | Some p \<Rightarrow> encode_props_block (Some (block_dict (will_items p) (wp_user_properties p))))"

definition decode_will_properties :: "bytes \<Rightarrow> nat \<Rightarrow> (WillProperties option \<times> nat) res" where
  "decode_will_properties buf offset =
     rmap (\<lambda>(d, n).
       if d = [] then (None, n)
       else (Some \<lparr>wp_will_delay_interval = get_int d WILL_DELAY_INTERVAL,
         wp_payload_format_indicator = get_int d PAYLOAD_FORMAT_INDICATOR,
         wp_message_expiry_interval = get_int d MESSAGE_EXPIRY_INTERVAL,
         wp_content_type = get_str d CONTENT_TYPE,
         wp_response_topic = get_str d RESPONSE_TOPIC,
         wp_correlation_data = get_bytes d CORRELATION_DATA,
         wp_user_properties = up_tuple d\<rparr>, n))
       (decode_props_block buf offset)"

definition will_props_seen :: "WillProperties option \<Rightarrow> WillProperties option" where
  "will_props_seen props =
     (if props = Some \<lparr>wp_will_delay_interval = None, wp_payload_format_indicator = None,
      wp_message_expiry_interval = None, wp_content_type = None, wp_response_topic = None,
      wp_correlation_data = None, wp_user_properties = []\<rparr>
      then None else props)"

lemma will_items_ok [simp]: "item_ids_ok (will_items p)"
  by (simp add: will_items_def item_ids_ok_def)

lemma will_dict_Nil:
  "block_dict (will_items p) (wp_user_properties p) = [] \<longleftrightarrow>
     p = \<lparr>wp_will_delay_interval = None, wp_payload_format_indicator = None,
      wp_message_expiry_interval = None, wp_content_type = None, wp_response_topic = None,
      wp_correlation_data = None, wp_user_properties = []\<rparr>"
  by (cases p) (simp add: block_dict_Nil_iff, simp add: will_items_def)

lemma will_dict_read:
  "(let d = block_dict (will_items p) (wp_user_properties p) in
    \<lparr>wp_will_delay_interval = get_int d WILL_DELAY_INTERVAL,
      wp_payload_format_indicator = get_int d PAYLOAD_FORMAT_INDICATOR,
      wp_message_expiry_interval = get_int d MESSAGE_EXPIRY_INTERVAL,
      wp_content_type = get_str d CONTENT_TYPE,
      wp_response_topic = get_str d RESPONSE_TOPIC,
      wp_correlation_data = get_bytes d CORRELATION_DATA,
      wp_user_properties = up_tuple d\<rparr>) = p"
  by (cases p) (simp add: class_read Let_def, simp add: will_items_def)

interpretation will_props: wire_field encode_will_properties decode_will_properties will_props_seen
proof unfold_locales
  fix x bs assume "encode_will_properties x = Inr bs"
  then show "bs \<noteq> []"
    by (auto simp: encode_will_properties_def
        dest: varint.enc_nonempty props_block_nonempty split: option.splits)
next
  fix x bs off buf rest
  assume enc: "encode_will_properties x = Inr bs" and at: "drop off buf = bs @ rest"
  show "decode_will_properties buf off = Inr (will_props_seen x, length bs)"
  proof (cases x)
    case None
    with enc at show ?thesis
      by (simp add: encode_will_properties_def decode_will_properties_def empty_block_at
          will_props_seen_def)
  next
    case (Some p)
    then have "decode_props_block buf off
        = Inr (block_dict (will_items p) (wp_user_properties p), length bs)"
      using enc at class_block_at [of "will_items p"] by (simp add: encode_will_properties_def)
    with Some show ?thesis
      by (simp add: decode_will_properties_def will_props_seen_def will_dict_Nil
          will_dict_read [unfolded Let_def])
  qed
qed (auto simp: decode_will_properties_def dest: decode_props_block_bound split: if_splits)

section \<open>ConnAckProperties\<close>

record ConnAckProperties =
  ca_session_expiry_interval :: "int option"
  ca_receive_maximum :: "int option"
  ca_maximum_qos :: "int option"
  ca_retain_available :: "bool option"
  ca_maximum_packet_size :: "int option"
  ca_assigned_client_identifier :: "pystr option"
  ca_topic_alias_maximum :: "int option"
  ca_reason_string :: "pystr option"
  ca_wildcard_subscription_available :: "bool option"
  ca_subscription_identifier_available :: "bool option"
  ca_shared_subscription_available :: "bool option"
  ca_server_keep_alive :: "int option"
  ca_response_information :: "pystr option"
  ca_server_reference :: "pystr option"
  ca_authentication_method :: "pystr option"
  ca_authentication_data :: "bytes option"
  ca_user_properties :: "(pystr \<times> pystr) list"

definition connack_items :: "ConnAckProperties \<Rightarrow> (PropertyID \<times> prop_val option) list" where
  "connack_items p =
     [(SESSION_EXPIRY_INTERVAL, map_option PInt (ca_session_expiry_interval p)),
      (RECEIVE_MAXIMUM, map_option PInt (ca_receive_maximum p)),
      (MAXIMUM_QOS, map_option PInt (ca_maximum_qos p)),
      (RETAIN_AVAILABLE, map_option PBool (ca_retain_available p)),
      (MAXIMUM_PACKET_SIZE, map_option PInt (ca_maximum_packet_size p)),
      (ASSIGNED_CLIENT_IDENTIFIER, map_option PStr (ca_assigned_client_identifier p)),
      (TOPIC_ALIAS_MAXIMUM, map_option PInt (ca_topic_alias_maximum p)),
      (REASON_STRING, map_option PStr (ca_reason_string p)),
      (WILDCARD_SUBSCRIPTION_AVAILABLE, map_option PBool (ca_wildcard_subscription_available p)),
      (SUBSCRIPTION_IDENTIFIER_AVAILABLE, map_option PBool (ca_subscription_identifier_available p)),
      (SHARED_SUBSCRIPTION_AVAILABLE, map_option PBool (ca_shared_subscription_available p)),
      (SERVER_KEEP_ALIVE, map_option PInt (ca_server_keep_alive p)),
      (RESPONSE_INFORMATION, map_option PStr (ca_response_information p)),
      (SERVER_REFERENCE, map_option PStr (ca_server_reference p)),
      (AUTHENTICATION_METHOD, map_option PStr (ca_authentication_method p)),
      (AUTHENTICATION_DATA, map_option PBytes (ca_authentication_data p))]"

definition encode_connack_properties :: "ConnAckProperties option \<Rightarrow> bytes res" where
  "encode_connack_properties props =
     (case props of
        None \<Rightarrow> encode_varint 0
      | Some p \<Rightarrow> encode_props_block (Some (block_dict (connack_items p) (ca_user_properties p))))"

definition decode_connack_properties :: "bytes \<Rightarrow> nat \<Rightarrow> (ConnAckProperties option \<times> nat) res" where
  "decode_connack_properties buf offset =
     rmap (\<lambda>(d, n).
       if d = [] then (None, n)
       else (Some \<lparr>ca_session_expiry_interval = get_int d SESSION_EXPIRY_INTERVAL,
         ca_receive_maximum = get_int d RECEIVE_MAXIMUM,
         ca_maximum_qos = get_int d MAXIMUM_QOS,
         ca_retain_available = get_bool d RETAIN_AVAILABLE,
         ca_maximum_packet_size = get_int d MAXIMUM_PACKET_SIZE,
         ca_assigned_client_identifier = get_str d ASSIGNED_CLIENT_IDENTIFIER,
         ca_topic_alias_maximum = get_int d TOPIC_ALIAS_MAXIMUM,
         ca_reason_string = get_str d REASON_STRING,
         ca_wildcard_subscription_available = get_bool d WILDCARD_SUBSCRIPTION_AVAILABLE,
         ca_subscription_identifier_available = get_bool d SUBSCRIPTION_IDENTIFIER_AVAILABLE,
         ca_shared_subscription_available = get_bool d SHARED_SUBSCRIPTION_AVAILABLE,
         ca_server_keep_alive = get_int d SERVER_KEEP_ALIVE,
         ca_response_information = get_str d RESPONSE_INFORMATION,
         ca_server_reference = get_str d SERVER_REFERENCE,
         ca_authentication_method = get_str d AUTHENTICATION_METHOD,
         ca_authentication_data = get_bytes d AUTHENTICATION_DATA,
         ca_user_properties = up_tuple d\<rparr>, n))
       (decode_props_block buf offset)"

definition connack_props_seen :: "ConnAckProperties option \<Rightarrow> ConnAckProperties option" where
  "connack_props_seen props =
     (if props = Some \<lparr>ca_session_expiry_interval = None, ca_receive_maximum = None, ca_maximum_qos = None,
      ca_retain_available = None, ca_maximum_packet_size = None, ca_assigned_client_identifier
      = None, ca_topic_alias_maximum = None, ca_reason_string = None,
      ca_wildcard_subscription_available = None, ca_subscription_identifier_available = None,
      ca_shared_subscription_available = None, ca_server_keep_alive = None,
      ca_response_information = None, ca_server_reference = None, ca_authentication_method =
      None, ca_authentication_data = None, ca_user_properties = []\<rparr>
      then None else props)"

lemma connack_items_ok [simp]: "item_ids_ok (connack_items p)"
  by (simp add: connack_items_def item_ids_ok_def)

lemma connack_dict_Nil:
  "block_dict (connack_items p) (ca_user_properties p) = [] \<longleftrightarrow>
     p = \<lparr>ca_session_expiry_interval = None, ca_receive_maximum = None, ca_maximum_qos = None,
      ca_retain_available = None, ca_maximum_packet_size = None, ca_assigned_client_identifier
      = None, ca_topic_alias_maximum = None, ca_reason_string = None,
      ca_wildcard_subscription_available = None, ca_subscription_identifier_available = None,
      ca_shared_subscription_available = None, ca_server_keep_alive = None,
      ca_response_information = None, ca_server_reference = None, ca_authentication_method =
      None, ca_authentication_data = None, ca_user_properties = []\<rparr>"
  by (cases p) (simp add: block_dict_Nil_iff, simp add: connack_items_def)

lemma connack_dict_read:
  "(let d = block_dict (connack_items p) (ca_user_properties p) in
    \<lparr>ca_session_expiry_interval = get_int d SESSION_EXPIRY_INTERVAL,
      ca_receive_maximum = get_int d RECEIVE_MAXIMUM,
      ca_maximum_qos = get_int d MAXIMUM_QOS,
      ca_retain_available = get_bool d RETAIN_AVAILABLE,
      ca_maximum_packet_size = get_int d MAXIMUM_PACKET_SIZE,
      ca_assigned_client_identifier = get_str d ASSIGNED_CLIENT_IDENTIFIER,
      ca_topic_alias_maximum = get_int d TOPIC_ALIAS_MAXIMUM,
      ca_reason_string = get_str d REASON_STRING,
      ca_wildcard_subscription_available = get_bool d WILDCARD_SUBSCRIPTION_AVAILABLE,
      ca_subscription_identifier_available = get_bool d SUBSCRIPTION_IDENTIFIER_AVAILABLE,
      ca_shared_subscription_available = get_bool d SHARED_SUBSCRIPTION_AVAILABLE,
      ca_server_keep_alive = get_int d SERVER_KEEP_ALIVE,
      ca_response_information = get_str d RESPONSE_INFORMATION,
      ca_server_reference = get_str d SERVER_REFERENCE,
      ca_authentication_method = get_str d AUTHENTICATION_METHOD,
      ca_authentication_data = get_bytes d AUTHENTICATION_DATA,
      ca_user_properties = up_tuple d\<rparr>) = p"
  by (cases p) (simp add: class_read Let_def, simp add: connack_items_def)

interpretation connack_props: wire_field encode_connack_properties decode_connack_properties connack_props_seen
proof unfold_locales
  fix x bs assume "encode_connack_properties x = Inr bs"
  then show "bs \<noteq> []"
    by (auto simp: encode_connack_properties_def
        dest: varint.enc_nonempty props_block_nonempty split: option.splits)
next
  fix x bs off buf rest
  assume enc: "encode_connack_properties x = Inr bs" and at: "drop off buf = bs @ rest"
  show "decode_connack_properties buf off = Inr (connack_props_seen x, length bs)"
  proof (cases x)
    case None
    with enc at show ?thesis
      by (simp add: encode_connack_properties_def decode_connack_properties_def empty_block_at
          connack_props_seen_def)
  next
    case (Some p)
    then have "decode_props_block buf off
        = Inr (block_dict (connack_items p) (ca_user_properties p), length bs)"
      using enc at class_block_at [of "connack_items p"] by (simp add: encode_connack_properties_def)
    with Some show ?thesis
      by (simp add: decode_connack_properties_def connack_props_seen_def connack_dict_Nil
          connack_dict_read [unfolded Let_def])
  qed
qed (auto simp: decode_connack_properties_def dest: decode_props_block_bound split: if_splits)

section \<open>PublishProperties\<close>

record PublishProperties =
  pp_payload_format_indicator :: "int option"
  pp_message_expiry_interval :: "int option"
  pp_topic_alias :: "int option"
  pp_response_topic :: "pystr option"
  pp_correlation_data :: "bytes option"
  pp_subscription_identifier :: "int option"
  pp_content_type :: "pystr option"
  pp_user_properties :: "(pystr \<times> pystr) list"

definition publish_items :: "PublishProperties \<Rightarrow> (PropertyID \<times> prop_val option) list" where
  "publish_items p =
     [(PAYLOAD_FORMAT_INDICATOR, map_option PInt (pp_payload_format_indicator p)),
      (MESSAGE_EXPIRY_INTERVAL, map_option PInt (pp_message_expiry_interval p)),
      (TOPIC_ALIAS, map_option PInt (pp_topic_alias p)),
      (RESPONSE_TOPIC, map_option PStr (pp_response_topic p)),
      (CORRELATION_DATA, map_option PBytes (pp_correlation_data p)),
      (SUBSCRIPTION_IDENTIFIER, map_option PInt (pp_subscription_identifier p)),
      (CONTENT_TYPE, map_option PStr (pp_content_type p))]"

definition encode_publish_properties :: "PublishProperties option \<Rightarrow> bytes res" where
  "encode_publish_properties props =
     (case props of
        None \<Rightarrow> encode_varint 0
      | Some p \<Rightarrow> encode_props_block (Some (block_dict (publish_items p) (pp_user_properties p))))"

definition decode_publish_properties :: "bytes \<Rightarrow> nat \<Rightarrow> (PublishProperties option \<times> nat) res" where
  "decode_publish_properties buf offset =
     rmap (\<lambda>(d, n).
       if d = [] then (None, n)
       else (Some \<lparr>pp_payload_format_indicator = get_int d PAYLOAD_FORMAT_INDICATOR,
         pp_message_expiry_interval = get_int d MESSAGE_EXPIRY_INTERVAL,
         pp_topic_alias = get_int d TOPIC_ALIAS,
         pp_response_topic = get_str d RESPONSE_TOPIC,
         pp_correlation_data = get_bytes d CORRELATION_DATA,
         pp_subscription_identifier = get_int d SUBSCRIPTION_IDENTIFIER,
         pp_content_type = get_str d CONTENT_TYPE,
         pp_user_properties = up_tuple d\<rparr>, n))
       (decode_props_block buf offset)"

definition publish_props_seen :: "PublishProperties option \<Rightarrow> PublishProperties option" where
  "publish_props_seen props =
     (if props = Some \<lparr>pp_payload_format_indicator = None, pp_message_expiry_interval = None, pp_topic_alias =
      None, pp_response_topic = None, pp_correlation_data = None, pp_subscription_identifier =
      None, pp_content_type = None, pp_user_properties = []\<rparr>
      then None else props)"

lemma publish_items_ok [simp]: "item_ids_ok (publish_items p)"
  by (simp add: publish_items_def item_ids_ok_def)

lemma publish_dict_Nil:
  "block_dict (publish_items p) (pp_user_properties p) = [] \<longleftrightarrow>
     p = \<lparr>pp_payload_format_indicator = None, pp_message_expiry_interval = None, pp_topic_alias =
      None, pp_response_topic = None, pp_correlation_data = None, pp_subscription_identifier =
      None, pp_content_type = None, pp_user_properties = []\<rparr>"
  by (cases p) (simp add: block_dict_Nil_iff, simp add: publish_items_def)

lemma publish_dict_read:
  "(let d = block_dict (publish_items p) (pp_user_properties p) in
    \<lparr>pp_payload_format_indicator = get_int d PAYLOAD_FORMAT_INDICATOR,
      pp_message_expiry_interval = get_int d MESSAGE_EXPIRY_INTERVAL,
      pp_topic_alias = get_int d TOPIC_ALIAS,
      pp_response_topic = get_str d RESPONSE_TOPIC,
      pp_correlation_data = get_bytes d CORRELATION_DATA,
      pp_subscription_identifier = get_int d SUBSCRIPTION_IDENTIFIER,
      pp_content_type = get_str d CONTENT_TYPE,
      pp_user_properties = up_tuple d\<rparr>) = p"
  by (cases p) (simp add: class_read Let_def, simp add: publish_items_def)

interpretation publish_props: wire_field encode_publish_properties decode_publish_properties publish_props_seen
proof unfold_locales
  fix x bs assume "encode_publish_properties x = Inr bs"
  then show "bs \<noteq> []"
    by (auto simp: encode_publish_properties_def
        dest: varint.enc_nonempty props_block_nonempty split: option.splits)
next
  fix x bs off buf rest
  assume enc: "encode_publish_properties x = Inr bs" and at: "drop off buf = bs @ rest"
  show "decode_publish_properties buf off = Inr (publish_props_seen x, length bs)"
  proof (cases x)
    case None
    with enc at show ?thesis
      by (simp add: encode_publish_properties_def decode_publish_properties_def empty_block_at
          publish_props_seen_def)
  next
    case (Some p)
    then have "decode_props_block buf off
        = Inr (block_dict (publish_items p) (pp_user_properties p), length bs)"
      using enc at class_block_at [of "publish_items p"] by (simp add: encode_publish_properties_def)
    with Some show ?thesis
      by (simp add: decode_publish_properties_def publish_props_seen_def publish_dict_Nil
          publish_dict_read [unfolded Let_def])
  qed
qed (auto simp: decode_publish_properties_def dest: decode_props_block_bound split: if_splits)

section \<open>PubAckProperties\<close>

record PubAckProperties =
  pa_reason_string :: "pystr option"
  pa_user_properties :: "(pystr \<times> pystr) list"

definition puback_items :: "PubAckProperties \<Rightarrow> (PropertyID \<times> prop_val option) list" where
  "puback_items p =
     [(REASON_STRING, map_option PStr (pa_reason_string p))]"

definition encode_puback_properties :: "PubAckProperties option \<Rightarrow> bytes res" where
  "encode_puback_properties props =
     (case props of
        None \<Rightarrow> encode_varint 0
      | Some p \<Rightarrow> encode_props_block (Some (block_dict (puback_items p) (pa_user_properties p))))"

definition decode_puback_properties :: "bytes \<Rightarrow> nat \<Rightarrow> (PubAckProperties option \<times> nat) res" where
  "decode_puback_properties buf offset =
     rmap (\<lambda>(d, n).
       if d = [] then (None, n)
       else (Some \<lparr>pa_reason_string = get_str d REASON_STRING,
         pa_user_properties = up_tuple d\<rparr>, n))
       (decode_props_block buf offset)"

definition puback_props_seen :: "PubAckProperties option \<Rightarrow> PubAckProperties option" where
  "puback_props_seen props =
     (if props = Some \<lparr>pa_reason_string = None, pa_user_properties = []\<rparr>
      then None else props)"

lemma puback_items_ok [simp]: "item_ids_ok (puback_items p)"
  by (simp add: puback_items_def item_ids_ok_def)

lemma puback_dict_Nil:
  "block_dict (puback_items p) (pa_user_properties p) = [] \<longleftrightarrow>
     p = \<lparr>pa_reason_string = None, pa_user_properties = []\<rparr>"
  by (cases p) (simp add: block_dict_Nil_iff, simp add: puback_items_def)

lemma puback_dict_read:
  "(let d = block_dict (puback_items p) (pa_user_properties p) in
    \<lparr>pa_reason_string = get_str d REASON_STRING,
      pa_user_properties = up_tuple d\<rparr>) = p"
  by (cases p) (simp add: class_read Let_def, simp add: puback_items_def)

interpretation puback_props: wire_field encode_puback_properties decode_puback_properties puback_props_seen
proof unfold_locales
  fix x bs assume "encode_puback_properties x = Inr bs"
  then show "bs \<noteq> []"
    by (auto simp: encode_puback_properties_def
        dest: varint.enc_nonempty props_block_nonempty split: option.splits)
next
  fix x bs off buf rest
  assume enc: "encode_puback_properties x = Inr bs" and at: "drop off buf = bs @ rest"
  show "decode_puback_properties buf off = Inr (puback_props_seen x, length bs)"
  proof (cases x)
    case None
    with enc at show ?thesis
      by (simp add: encode_puback_properties_def decode_puback_properties_def empty_block_at
          puback_props_seen_def)
  next
    case (Some p)
    then have "decode_props_block buf off
        = Inr (block_dict (puback_items p) (pa_user_properties p), length bs)"
      using enc at class_block_at [of "puback_items p"] by (simp add: encode_puback_properties_def)
    with Some show ?thesis
      by (simp add: decode_puback_properties_def puback_props_seen_def puback_dict_Nil
          puback_dict_read [unfolded Let_def])
  qed
qed (auto simp: decode_puback_properties_def dest: decode_props_block_bound split: if_splits)

section \<open>SubscribeProperties\<close>

record SubscribeProperties =
  sp_subscription_identifier :: "int option"
  sp_user_properties :: "(pystr \<times> pystr) list"

definition subscribe_items :: "SubscribeProperties \<Rightarrow> (PropertyID \<times> prop_val option) list" where
  "subscribe_items p =
     [(SUBSCRIPTION_IDENTIFIER, map_option PInt (sp_subscription_identifier p))]"

definition encode_subscribe_properties :: "SubscribeProperties option \<Rightarrow> bytes res" where
  "encode_subscribe_properties props =
     (case props of
        None \<Rightarrow> encode_varint 0
      | Some p \<Rightarrow> encode_props_block (Some (block_dict (subscribe_items p) (sp_user_properties p))))"

definition decode_subscribe_properties :: "bytes \<Rightarrow> nat \<Rightarrow> (SubscribeProperties option \<times> nat) res" where
  "decode_subscribe_properties buf offset =
     rmap (\<lambda>(d, n).
       if d = [] then (None, n)
       else (Some \<lparr>sp_subscription_identifier = get_int d SUBSCRIPTION_IDENTIFIER,
         sp_user_properties = up_tuple d\<rparr>, n))
       (decode_props_block buf offset)"

definition subscribe_props_seen :: "SubscribeProperties option \<Rightarrow> SubscribeProperties option" where
  "subscribe_props_seen props =
     (if props = Some \<lparr>sp_subscription_identifier = None, sp_user_properties = []\<rparr>
      then None else props)"

lemma subscribe_items_ok [simp]: "item_ids_ok (subscribe_items p)"
  by (simp add: subscribe_items_def item_ids_ok_def)

lemma subscribe_dict_Nil:
  "block_dict (subscribe_items p) (sp_user_properties p) = [] \<longleftrightarrow>
     p = \<lparr>sp_subscription_identifier = None, sp_user_properties = []\<rparr>"
  by (cases p) (simp add: block_dict_Nil_iff, simp add: subscribe_items_def)

lemma subscribe_dict_read:
  "(let d = block_dict (subscribe_items p) (sp_user_properties p) in
    \<lparr>sp_subscription_identifier = get_int d SUBSCRIPTION_IDENTIFIER,
      sp_user_properties = up_tuple d\<rparr>) = p"
  by (cases p) (simp add: class_read Let_def, simp add: subscribe_items_def)

interpretation subscribe_props: wire_field encode_subscribe_properties decode_subscribe_properties subscribe_props_seen
proof unfold_locales
  fix x bs assume "encode_subscribe_properties x = Inr bs"
  then show "bs \<noteq> []"
    by (auto simp: encode_subscribe_properties_def
        dest: varint.enc_nonempty props_block_nonempty split: option.splits)
next
  fix x bs off buf rest
  assume enc: "encode_subscribe_properties x = Inr bs" and at: "drop off buf = bs @ rest"
  show "decode_subscribe_properties buf off = Inr (subscribe_props_seen x, length bs)"
  proof (cases x)
    case None
    with enc at show ?thesis
      by (simp add: encode_subscribe_properties_def decode_subscribe_properties_def empty_block_at
          subscribe_props_seen_def)
  next
    case (Some p)
    then have "decode_props_block buf off
        = Inr (block_dict (subscribe_items p) (sp_user_properties p), length bs)"
      using enc at class_block_at [of "subscribe_items p"] by (simp add: encode_subscribe_properties_def)
    with Some show ?thesis
      by (simp add: decode_subscribe_properties_def subscribe_props_seen_def subscribe_dict_Nil
          subscribe_dict_read [unfolded Let_def])
  qed
qed (auto simp: decode_subscribe_properties_def dest: decode_props_block_bound split: if_splits)

section \<open>SubAckProperties\<close>

record SubAckProperties =
  sa_reason_string :: "pystr option"
  sa_user_properties :: "(pystr \<times> pystr) list"

definition suback_items :: "SubAckProperties \<Rightarrow> (PropertyID \<times> prop_val option) list" where
  "suback_items p =
     [(REASON_STRING, map_option PStr (sa_reason_string p))]"

definition encode_suback_properties :: "SubAckProperties option \<Rightarrow> bytes res" where
  "encode_suback_properties props =
     (case props of
        None \<Rightarrow> encode_varint 0
      | Some p \<Rightarrow> encode_props_block (Some (block_dict (suback_items p) (sa_user_properties p))))"

definition decode_suback_properties :: "bytes \<Rightarrow> nat \<Rightarrow> (SubAckProperties option \<times> nat) res" where
  "decode_suback_properties buf offset =
     rmap (\<lambda>(d, n).
       if d = [] then (None, n)
       else (Some \<lparr>sa_reason_string = get_str d REASON_STRING,
         sa_user_properties = up_tuple d\<rparr>, n))
       (decode_props_block buf offset)"

definition suback_props_seen :: "SubAckProperties option \<Rightarrow> SubAckProperties option" where
  "suback_props_seen props =
     (if props = Some \<lparr>sa_reason_string = None, sa_user_properties = []\<rparr>
      then None else props)"

lemma suback_items_ok [simp]: "item_ids_ok (suback_items p)"
  by (simp add: suback_items_def item_ids_ok_def)

lemma suback_dict_Nil:
  "block_dict (suback_items p) (sa_user_properties p) = [] \<longleftrightarrow>
     p = \<lparr>sa_reason_string = None, sa_user_properties = []\<rparr>"
  by (cases p) (simp add: block_dict_Nil_iff, simp add: suback_items_def)

lemma suback_dict_read:
  "(let d = block_dict (suback_items p) (sa_user_properties p) in
    \<lparr>sa_reason_string = get_str d REASON_STRING,
      sa_user_properties = up_tuple d\<rparr>) = p"
  by (cases p) (simp add: class_read Let_def, simp add: suback_items_def)

interpretation suback_props: wire_field encode_suback_properties decode_suback_properties suback_props_seen
proof unfold_locales
  fix x bs assume "encode_suback_properties x = Inr bs"
  then show "bs \<noteq> []"
    by (auto simp: encode_suback_properties_def
        dest: varint.enc_nonempty props_block_nonempty split: option.splits)
next
  fix x bs off buf rest
  assume enc: "encode_suback_properties x = Inr bs" and at: "drop off buf = bs @ rest"
  show "decode_suback_properties buf off = Inr (suback_props_seen x, length bs)"
  proof (cases x)
    case None
    with enc at show ?thesis
      by (simp add: encode_suback_properties_def decode_suback_properties_def empty_block_at
          suback_props_seen_def)
  next
    case (Some p)
    then have "decode_props_block buf off
        = Inr (block_dict (suback_items p) (sa_user_properties p), length bs)"
      using enc at class_block_at [of "suback_items p"] by (simp add: encode_suback_properties_def)
    with Some show ?thesis
      by (simp add: decode_suback_properties_def suback_props_seen_def suback_dict_Nil
          suback_dict_read [unfolded Let_def])
  qed
qed (auto simp: decode_suback_properties_def dest: decode_props_block_bound split: if_splits)

section \<open>UnsubscribeProperties\<close>

record UnsubscribeProperties =
  up_user_properties :: "(pystr \<times> pystr) list"

definition unsubscribe_items :: "UnsubscribeProperties \<Rightarrow> (PropertyID \<times> prop_val option) list" where
  "unsubscribe_items p =
     []"

definition encode_unsubscribe_properties :: "UnsubscribeProperties option \<Rightarrow> bytes res" where
  "encode_unsubscribe_properties props =
     (case props of
        None \<Rightarrow> encode_varint 0
      | Some p \<Rightarrow> encode_props_block (Some (block_dict (unsubscribe_items p) (up_user_properties p))))"

definition decode_unsubscribe_properties :: "bytes \<Rightarrow> nat \<Rightarrow> (UnsubscribeProperties option \<times> nat) res" where
  "decode_unsubscribe_properties buf offset =
     rmap (\<lambda>(d, n).
       if d = [] then (None, n)
       else (Some \<lparr>up_user_properties = up_tuple d\<rparr>, n))
       (decode_props_block buf offset)"

definition unsubscribe_props_seen :: "UnsubscribeProperties option \<Rightarrow> UnsubscribeProperties option" where
  "unsubscribe_props_seen props =
     (if props = Some \<lparr>up_user_properties = []\<rparr>
      then None else props)"

lemma unsubscribe_items_ok [simp]: "item_ids_ok (unsubscribe_items p)"
  by (simp add: unsubscribe_items_def item_ids_ok_def)

lemma unsubscribe_dict_Nil:
  "block_dict (unsubscribe_items p) (up_user_properties p) = [] \<longleftrightarrow>
     p = \<lparr>up_user_properties = []\<rparr>"
  by (cases p) (simp add: block_dict_Nil_iff, simp add: unsubscribe_items_def)

lemma unsubscribe_dict_read:
  "(let d = block_dict (unsubscribe_items p) (up_user_properties p) in
    \<lparr>up_user_properties = up_tuple d\<rparr>) = p"
  by (cases p) (simp add: class_read Let_def)

interpretation unsubscribe_props: wire_field encode_unsubscribe_properties decode_unsubscribe_properties unsubscribe_props_seen
proof unfold_locales
  fix x bs assume "encode_unsubscribe_properties x = Inr bs"
  then show "bs \<noteq> []"
    by (auto simp: encode_unsubscribe_properties_def
        dest: varint.enc_nonempty props_block_nonempty split: option.splits)
next
  fix x bs off buf rest
  assume enc: "encode_unsubscribe_properties x = Inr bs" and at: "drop off buf = bs @ rest"
  show "decode_unsubscribe_properties buf off = Inr (unsubscribe_props_seen x, length bs)"
  proof (cases x)
    case None
    with enc at show ?thesis
      by (simp add: encode_unsubscribe_properties_def decode_unsubscribe_properties_def empty_block_at
          unsubscribe_props_seen_def)
  next
    case (Some p)
    then have "decode_props_block buf off
        = Inr (block_dict (unsubscribe_items p) (up_user_properties p), length bs)"
      using enc at class_block_at [of "unsubscribe_items p"] by (simp add: encode_unsubscribe_properties_def)
    with Some show ?thesis
      by (simp add: decode_unsubscribe_properties_def unsubscribe_props_seen_def unsubscribe_dict_Nil
          unsubscribe_dict_read [unfolded Let_def])
  qed
qed (auto simp: decode_unsubscribe_properties_def dest: decode_props_block_bound split: if_splits)

section \<open>UnsubAckProperties\<close>

record UnsubAckProperties =
  ua_reason_string :: "pystr option"
  ua_user_properties :: "(pystr \<times> pystr) list"

definition unsuback_items :: "UnsubAckProperties \<Rightarrow> (PropertyID \<times> prop_val option) list" where
  "unsuback_items p =
     [(REASON_STRING, map_option PStr (ua_reason_string p))]"

definition encode_unsuback_properties :: "UnsubAckProperties option \<Rightarrow> bytes res" where
  "encode_unsuback_properties props =
     (case props of
        None \<Rightarrow> encode_varint 0
      | Some p \<Rightarrow> encode_props_block (Some (block_dict (unsuback_items p) (ua_user_properties p))))"

definition decode_unsuback_properties :: "bytes \<Rightarrow> nat \<Rightarrow> (UnsubAckProperties option \<times> nat) res" where
  "decode_unsuback_properties buf offset =
     rmap (\<lambda>(d, n).
       if d = [] then (None, n)
       else (Some \<lparr>ua_reason_string = get_str d REASON_STRING,
         ua_user_properties = up_tuple d\<rparr>, n))
       (decode_props_block buf offset)"

definition unsuback_props_seen :: "UnsubAckProperties option \<Rightarrow> UnsubAckProperties option" where
  "unsuback_props_seen props =
     (if props = Some \<lparr>ua_reason_string = None, ua_user_properties = []\<rparr>
      then None else props)"

lemma unsuback_items_ok [simp]: "item_ids_ok (unsuback_items p)"
  by (simp add: unsuback_items_def item_ids_ok_def)

lemma unsuback_dict_Nil:
  "block_dict (unsuback_items p) (ua_user_properties p) = [] \<longleftrightarrow>
     p = \<lparr>ua_reason_string = None, ua_user_properties = []\<rparr>"
  by (cases p) (simp add: block_dict_Nil_iff, simp add: unsuback_items_def)

lemma unsuback_dict_read:
  "(let d = block_dict (unsuback_items p) (ua_user_properties p) in
    \<lparr>ua_reason_string = get_str d REASON_STRING,
      ua_user_properties = up_tuple d\<rparr>) = p"
  by (cases p) (simp add: class_read Let_def, simp add: unsuback_items_def)

interpretation unsuback_props: wire_field encode_unsuback_properties decode_unsuback_properties unsuback_props_seen
proof unfold_locales
  fix x bs assume "encode_unsuback_properties x = Inr bs"
  then show "bs \<noteq> []"
    by (auto simp: encode_unsuback_properties_def
        dest: varint.enc_nonempty props_block_nonempty split: option.splits)
next
  fix x bs off buf rest
  assume enc: "encode_unsuback_properties x = Inr bs" and at: "drop off buf = bs @ rest"
  show "decode_unsuback_properties buf off = Inr (unsuback_props_seen x, length bs)"
  proof (cases x)
    case None
    with enc at show ?thesis
      by (simp add: encode_unsuback_properties_def decode_unsuback_properties_def empty_block_at
          unsuback_props_seen_def)
  next
    case (Some p)
    then have "decode_props_block buf off
        = Inr (block_dict (unsuback_items p) (ua_user_properties p), length bs)"
      using enc at class_block_at [of "unsuback_items p"] by (simp add: encode_unsuback_properties_def)
    with Some show ?thesis
      by (simp add: decode_unsuback_properties_def unsuback_props_seen_def unsuback_dict_Nil
          unsuback_dict_read [unfolded Let_def])
  qed
qed (auto simp: decode_unsuback_properties_def dest: decode_props_block_bound split: if_splits)

section \<open>DisconnectProperties\<close>

record DisconnectProperties =
  dp_session_expiry_interval :: "int option"
  dp_reason_string :: "pystr option"
  dp_server_reference :: "pystr option"
  dp_user_properties :: "(pystr \<times> pystr) list"

definition disconnect_items :: "DisconnectProperties \<Rightarrow> (PropertyID \<times> prop_val option) list" where
  "disconnect_items p =
     [(SESSION_EXPIRY_INTERVAL, map_option PInt (dp_session_expiry_interval p)),
      (REASON_STRING, map_option PStr (dp_reason_string p)),
      (SERVER_REFERENCE, map_option PStr (dp_server_reference p))]"

definition encode_disconnect_properties :: "DisconnectProperties option \<Rightarrow> bytes res" where
  "encode_disconnect_properties props =
     (case props of
        None \<Rightarrow> encode_varint 0
      | Some p \<Rightarrow> encode_props_block (Some (block_dict (disconnect_items p) (dp_user_properties p))))"

definition decode_disconnect_properties :: "bytes \<Rightarrow> nat \<Rightarrow> (DisconnectProperties option \<times> nat) res" where
  "decode_disconnect_properties buf offset =
     rmap (\<lambda>(d, n).
       if d = [] then (None, n)
       else (Some \<lparr>dp_session_expiry_interval = get_int d SESSION_EXPIRY_INTERVAL,
         dp_reason_string = get_str d REASON_STRING,
         dp_server_reference = get_str d SERVER_REFERENCE,
         dp_user_properties = up_tuple d\<rparr>, n))
       (decode_props_block buf offset)"

definition disconnect_props_seen :: "DisconnectProperties option \<Rightarrow> DisconnectProperties option" where
  "disconnect_props_seen props =
     (if props = Some \<lparr>dp_session_expiry_interval = None, dp_reason_string = None, dp_server_reference = None,
      dp_user_properties = []\<rparr>
      then None else props)"

lemma disconnect_items_ok [simp]: "item_ids_ok (disconnect_items p)"
  by (simp add: disconnect_items_def item_ids_ok_def)

lemma disconnect_dict_Nil:
  "block_dict (disconnect_items p) (dp_user_properties p) = [] \<longleftrightarrow>
     p = \<lparr>dp_session_expiry_interval = None, dp_reason_string = None, dp_server_reference = None,
      dp_user_properties = []\<rparr>"
  by (cases p) (simp add: block_dict_Nil_iff, simp add: disconnect_items_def)

lemma disconnect_dict_read:
  "(let d = block_dict (disconnect_items p) (dp_user_properties p) in
    \<lparr>dp_session_expiry_interval = get_int d SESSION_EXPIRY_INTERVAL,
      dp_reason_string = get_str d REASON_STRING,
      dp_server_reference = get_str d SERVER_REFERENCE,
      dp_user_properties = up_tuple d\<rparr>) = p"
  by (cases p) (simp add: class_read Let_def, simp add: disconnect_items_def)

interpretation disconnect_props: wire_field encode_disconnect_properties decode_disconnect_properties disconnect_props_seen
proof unfold_locales
  fix x bs assume "encode_disconnect_properties x = Inr bs"
  then show "bs \<noteq> []"
    by (auto simp: encode_disconnect_properties_def
        dest: varint.enc_nonempty props_block_nonempty split: option.splits)
next
  fix x bs off buf rest
  assume enc: "encode_disconnect_properties x = Inr bs" and at: "drop off buf = bs @ rest"
  show "decode_disconnect_properties buf off = Inr (disconnect_props_seen x, length bs)"
  proof (cases x)
    case None
    with enc at show ?thesis
      by (simp add: encode_disconnect_properties_def decode_disconnect_properties_def empty_block_at
          disconnect_props_seen_def)
  next
    case (Some p)
    then have "decode_props_block buf off
        = Inr (block_dict (disconnect_items p) (dp_user_properties p), length bs)"
      using enc at class_block_at [of "disconnect_items p"] by (simp add: encode_disconnect_properties_def)
    with Some show ?thesis
      by (simp add: decode_disconnect_properties_def disconnect_props_seen_def disconnect_dict_Nil
          disconnect_dict_read [unfolded Let_def])
  qed
qed (auto simp: decode_disconnect_properties_def dest: decode_props_block_bound split: if_splits)

section \<open>AuthProperties\<close>

record AuthProperties =
  ap_authentication_method :: "pystr option"
  ap_authentication_data :: "bytes option"
  ap_reason_string :: "pystr option"
  ap_user_properties :: "(pystr \<times> pystr) list"

definition auth_items :: "AuthProperties \<Rightarrow> (PropertyID \<times> prop_val option) list" where
  "auth_items p =
     [(AUTHENTICATION_METHOD, map_option PStr (ap_authentication_method p)),
      (AUTHENTICATION_DATA, map_option PBytes (ap_authentication_data p)),
      (REASON_STRING, map_option PStr (ap_reason_string p))]"

definition encode_auth_properties :: "AuthProperties option \<Rightarrow> bytes res" where
  "encode_auth_properties props =
     (case props of
        None \<Rightarrow> encode_varint 0
      | Some p \<Rightarrow> encode_props_block (Some (block_dict (auth_items p) (ap_user_properties p))))"

definition decode_auth_properties :: "bytes \<Rightarrow> nat \<Rightarrow> (AuthProperties option \<times> nat) res" where
  "decode_auth_properties buf offset =
     rmap (\<lambda>(d, n).
       if d = [] then (None, n)
       else (Some \<lparr>ap_authentication_method = get_str d AUTHENTICATION_METHOD,
         ap_authentication_data = get_bytes d AUTHENTICATION_DATA,
         ap_reason_string = get_str d REASON_STRING,
         ap_user_properties = up_tuple d\<rparr>, n))
       (decode_props_block buf offset)"

definition auth_props_seen :: "AuthProperties option \<Rightarrow> AuthProperties option" where
  "auth_props_seen props =
     (if props = Some \<lparr>ap_authentication_method = None, ap_authentication_data = None, ap_reason_string = None,
      ap_user_properties = []\<rparr>
      then None else props)"

lemma auth_items_ok [simp]: "item_ids_ok (auth_items p)"
  by (simp add: auth_items_def item_ids_ok_def)

lemma auth_dict_Nil:
  "block_dict (auth_items p) (ap_user_properties p) = [] \<longleftrightarrow>
     p = \<lparr>ap_authentication_method = None, ap_authentication_data = None, ap_reason_string = None,
      ap_user_properties = []\<rparr>"
  by (cases p) (simp add: block_dict_Nil_iff, simp add: auth_items_def)

lemma auth_dict_read:
  "(let d = block_dict (auth_items p) (ap_user_properties p) in
    \<lparr>ap_authentication_method = get_str d AUTHENTICATION_METHOD,
      ap_authentication_data = get_bytes d AUTHENTICATION_DATA,
      ap_reason_string = get_str d REASON_STRING,
      ap_user_properties = up_tuple d\<rparr>) = p"
  by (cases p) (simp add: class_read Let_def, simp add: auth_items_def)

interpretation auth_props: wire_field encode_auth_properties decode_auth_properties auth_props_seen
proof unfold_locales
  fix x bs assume "encode_auth_properties x = Inr bs"
  then show "bs \<noteq> []"
    by (auto simp: encode_auth_properties_def
        dest: varint.enc_nonempty props_block_nonempty split: option.splits)
next
  fix x bs off buf rest
  assume enc: "encode_auth_properties x = Inr bs" and at: "drop off buf = bs @ rest"
  show "decode_auth_properties buf off = Inr (auth_props_seen x, length bs)"
  proof (cases x)
    case None
    with enc at show ?thesis
      by (simp add: encode_auth_properties_def decode_auth_properties_def empty_block_at
          auth_props_seen_def)
  next
    case (Some p)
    then have "decode_props_block buf off
        = Inr (block_dict (auth_items p) (ap_user_properties p), length bs)"
      using enc at class_block_at [of "auth_items p"] by (simp add: encode_auth_properties_def)
    with Some show ?thesis
      by (simp add: decode_auth_properties_def auth_props_seen_def auth_dict_Nil
          auth_dict_read [unfolded Let_def])
  qed
qed (auto simp: decode_auth_properties_def dest: decode_props_block_bound split: if_splits)

end
