(* ===== verification/Packets.thy ===== *)
theory Packets
  imports Properties
begin

text \<open>
  The packet dataclasses of \<open>packets/{connect,publish,subscribe,ping,disconnect,auth,types}.py\<close> and
  the enumerations \<open>QoS\<close>, \<open>RetainHandling\<close> and \<open>PacketType\<close> with their integer values.  Field names
  carry a short prefix per class.  PUBACK, PUBREC, PUBREL and PUBCOMP have the same three fields
  and share one record; the constructors of \<open>packet\<close> tell them apart.  \<open>QoS\<close> is ordered by its value,
  as the source's \<open>IntEnum\<close> is.
\<close>

section \<open>Enumerations\<close>

datatype version = V311 | V50

datatype QoS = AT_MOST_ONCE | AT_LEAST_ONCE | EXACTLY_ONCE

primrec qos_value :: "QoS \<Rightarrow> int" where
  "qos_value AT_MOST_ONCE = 0"
| "qos_value AT_LEAST_ONCE = 1"
| "qos_value EXACTLY_ONCE = 2"

definition QoS_of :: "int \<Rightarrow> QoS res" where
  "QoS_of v =
     (if v = 0 then Inr AT_MOST_ONCE else if v = 1 then Inr AT_LEAST_ONCE
      else if v = 2 then Inr EXACTLY_ONCE else Inl (ValueError ''not a valid QoS''))"

lemma QoS_of_value [simp]: "QoS_of (qos_value q) = Inr q"
  by (cases q) (simp_all add: QoS_of_def)

lemma qos_value_inj [simp]: "qos_value a = qos_value b \<longleftrightarrow> a = b"
  by (cases a; cases b) simp_all

instantiation QoS :: linorder
begin

definition less_eq_QoS :: "QoS \<Rightarrow> QoS \<Rightarrow> bool" where
  "less_eq_QoS a b \<longleftrightarrow> qos_value a \<le> qos_value b"

definition less_QoS :: "QoS \<Rightarrow> QoS \<Rightarrow> bool" where
  "less_QoS a b \<longleftrightarrow> qos_value a < qos_value b"

instance
  by intro_classes (auto simp: less_eq_QoS_def less_QoS_def dest: antisym)

end

datatype RetainHandling = SEND_ON_SUBSCRIBE | SEND_IF_NOT_EXISTS | DO_NOT_SEND

primrec retain_handling_value :: "RetainHandling \<Rightarrow> int" where
  "retain_handling_value SEND_ON_SUBSCRIBE = 0"
| "retain_handling_value SEND_IF_NOT_EXISTS = 1"
| "retain_handling_value DO_NOT_SEND = 2"

definition RetainHandling_of :: "int \<Rightarrow> RetainHandling res" where
  "RetainHandling_of v =
     (if v = 0 then Inr SEND_ON_SUBSCRIBE else if v = 1 then Inr SEND_IF_NOT_EXISTS
      else if v = 2 then Inr DO_NOT_SEND else Inl (ValueError ''not a valid RetainHandling''))"

datatype PacketType =
    CONNECT | CONNACK | PUBLISH | PUBACK | PUBREC | PUBREL | PUBCOMP | SUBSCRIBE | SUBACK
  | UNSUBSCRIBE | UNSUBACK | PINGREQ | PINGRESP | DISCONNECT | AUTH

primrec packet_type_value :: "PacketType \<Rightarrow> int" where
  "packet_type_value CONNECT = 1"
| "packet_type_value CONNACK = 2"
| "packet_type_value PUBLISH = 3"
| "packet_type_value PUBACK = 4"
| "packet_type_value PUBREC = 5"
| "packet_type_value PUBREL = 6"
| "packet_type_value PUBCOMP = 7"
| "packet_type_value SUBSCRIBE = 8"
| "packet_type_value SUBACK = 9"
| "packet_type_value UNSUBSCRIBE = 10"
| "packet_type_value UNSUBACK = 11"
| "packet_type_value PINGREQ = 12"
| "packet_type_value PINGRESP = 13"
| "packet_type_value DISCONNECT = 14"
| "packet_type_value AUTH = 15"

definition all_packet_types :: "PacketType list" where
  "all_packet_types =
     [CONNECT, CONNACK, PUBLISH, PUBACK, PUBREC, PUBREL, PUBCOMP, SUBSCRIBE, SUBACK,
      UNSUBSCRIBE, UNSUBACK, PINGREQ, PINGRESP, DISCONNECT, AUTH]"

definition PacketType_of :: "int \<Rightarrow> PacketType res" where
  "PacketType_of v =
     (case List.find (\<lambda>t. packet_type_value t = v) all_packet_types of
        Some t \<Rightarrow> Inr t
      | None \<Rightarrow> Inl (ValueError ''Unknown MQTT packet type''))"

lemma PacketType_of_value [simp]: "PacketType_of (packet_type_value t) = Inr t"
  by (cases t) (simp_all add: PacketType_of_def all_packet_types_def)

section \<open>Packets\<close>

record Will =
  will_topic :: pystr
  will_payload :: bytes
  will_qos :: QoS
  will_retain :: bool
  will_properties :: "WillProperties option"

record Connect =
  con_client_id :: pystr
  con_clean_session :: bool
  con_keepalive :: int
  con_username :: "pystr option"
  con_password :: "bytes option"
  con_will :: "Will option"
  con_properties :: "ConnectProperties option"

record ConnAck =
  cack_session_present :: bool
  cack_return_code :: int
  cack_properties :: "ConnAckProperties option"

record Publish =
  pub_topic :: pystr
  pub_payload :: bytes
  pub_qos :: QoS
  pub_retain :: bool
  pub_dup :: bool
  pub_packet_id :: "int option"
  pub_properties :: "PublishProperties option"

record PubAckVariant =
  pav_packet_id :: int
  pav_reason_code :: int
  pav_properties :: "PubAckProperties option"

record SubscriptionRequest =
  sr_topic_filter :: pystr
  sr_qos :: QoS
  sr_no_local :: bool
  sr_retain_as_published :: bool
  sr_retain_handling :: RetainHandling

record Subscribe =
  sub_packet_id :: int
  sub_subscriptions :: "SubscriptionRequest list"
  sub_properties :: "SubscribeProperties option"

record SubAck =
  sback_packet_id :: int
  sback_return_codes :: "int list"
  sback_properties :: "SubAckProperties option"

record Unsubscribe =
  uns_packet_id :: int
  uns_topic_filters :: "pystr list"
  uns_properties :: "UnsubscribeProperties option"

record UnsubAck =
  unsack_packet_id :: int
  unsack_reason_codes :: "int list"
  unsack_properties :: "UnsubAckProperties option"

record Disconnect =
  dis_reason_code :: int
  dis_properties :: "DisconnectProperties option"

record Auth =
  auth_reason_code :: int
  auth_properties :: "AuthProperties option"

datatype packet =
    Connect Connect
  | ConnAck ConnAck
  | Publish Publish
  | PubAck PubAckVariant
  | PubRec PubAckVariant
  | PubRel PubAckVariant
  | PubComp PubAckVariant
  | Subscribe Subscribe
  | SubAck SubAck
  | Unsubscribe Unsubscribe
  | UnsubAck UnsubAck
  | PingReq
  | PingResp
  | Disconnect Disconnect
  | Auth Auth

end
