(* ===== verification/Codec.thy ===== *)
theory Codec
  imports Packets
begin

text \<open>
  The packet codec of \<open>packets/codec.py\<close>: one encoder and one decoder per packet type, the
  dispatchers \<open>encode\<close> and \<open>decode\<close>, and the inlined decoding of the fixed header, which answers
  None while the packet is incomplete.  The names are the source's without the leading
  underscore.  Proofs are in \<open>Codec_Correct\<close>.
\<close>

unbundle bit_operations_syntax

section \<open>Encoding\<close>

definition build_packet :: "PacketType \<Rightarrow> int \<Rightarrow> bytes \<Rightarrow> bytes res" where
  "build_packet packet_type flags body =
     rbind (byte_of (push_bit 4 (packet_type_value packet_type) OR (flags AND 0x0F))) (\<lambda>first_byte.
       rmap (\<lambda>len. first_byte @ len @ body) (encode_varint (int (length body))))"

definition packet_id_only :: "PacketType \<Rightarrow> int \<Rightarrow> int \<Rightarrow> bytes res" where
  "packet_id_only packet_type flags packet_id =
     rbind (pack_H packet_id) (build_packet packet_type flags)"

text \<open>The flags byte \<open>_encode_connect\<close> accumulates.\<close>

definition connect_flags :: "bool \<Rightarrow> (QoS \<times> bool) option \<Rightarrow> bool \<Rightarrow> bool \<Rightarrow> int" where
  "connect_flags clean_session will has_username has_password =
     (let flags = 0;
          flags = (if clean_session then flags OR 0x02 else flags);
          flags = (case will of
                     None \<Rightarrow> flags
                   | Some (qos, retain) \<Rightarrow>
                       let flags = flags OR 0x04;
                           flags = flags OR push_bit 3 (qos_value qos)
                       in if retain then flags OR 0x20 else flags);
          flags = (if has_username then flags OR 0x80 else flags);
          flags = (if has_password then flags OR 0x40 else flags)
      in flags)"

definition encode_optional :: "('a \<Rightarrow> bytes res) \<Rightarrow> 'a option \<Rightarrow> bytes res" where
  "encode_optional enc x = (case x of None \<Rightarrow> Inr [] | Some v \<Rightarrow> enc v)"

definition encode_v5 :: "version \<Rightarrow> bytes res \<Rightarrow> bytes res" where
  "encode_v5 version props = (if version = V50 then props else Inr [])"

definition encode_will :: "version \<Rightarrow> Will \<Rightarrow> bytes res" where
  "encode_will version w =
     rbind (encode_v5 version (encode_will_properties (will_properties w))) (\<lambda>props.
     rbind (encode_str (will_topic w)) (\<lambda>topic.
     rmap (\<lambda>payload. props @ topic @ payload) (encode_bytes_field (will_payload w))))"

definition encode_connect :: "Connect \<Rightarrow> version \<Rightarrow> bytes res" where
  "encode_connect packet version =
     (let flags = connect_flags (con_clean_session packet)
                    (map_option (\<lambda>w. (will_qos w, will_retain w)) (con_will packet))
                    (con_username packet \<noteq> None) (con_password packet \<noteq> None);
          proto_level = (if version = V50 then 0x05 else 0x04)
      in
      rbind (encode_str (str_lit ''MQTT'')) (\<lambda>name.
      rbind (byte_of proto_level) (\<lambda>level.
      rbind (byte_of flags) (\<lambda>fl.
      rbind (pack_H (con_keepalive packet)) (\<lambda>keepalive.
      rbind (encode_v5 version (encode_connect_properties (con_properties packet))) (\<lambda>props.
      rbind (encode_str (con_client_id packet)) (\<lambda>client_id.
      rbind (encode_optional (encode_will version) (con_will packet)) (\<lambda>will.
      rbind (encode_optional encode_str (con_username packet)) (\<lambda>username.
      rbind (encode_optional encode_bytes_field (con_password packet)) (\<lambda>password.
      build_packet CONNECT 0
        (name @ level @ fl @ keepalive @ props @ client_id @ will @ username @ password)))))))))))"

definition encode_connack :: "ConnAck \<Rightarrow> version \<Rightarrow> bytes res" where
  "encode_connack packet version =
     rbind (byte_of (if cack_session_present packet then 0x01 else 0x00)) (\<lambda>sp.
     rbind (byte_of (cack_return_code packet)) (\<lambda>rc.
     rbind (encode_v5 version (encode_connack_properties (cack_properties packet))) (\<lambda>props.
     build_packet CONNACK 0 (sp @ rc @ props))))"

definition publish_flags :: "bool \<Rightarrow> QoS \<Rightarrow> bool \<Rightarrow> int" where
  "publish_flags dup qos retain =
     push_bit 3 (of_bool dup) OR push_bit 1 (qos_value qos) OR of_bool retain"

definition encode_publish :: "Publish \<Rightarrow> version \<Rightarrow> bytes res" where
  "encode_publish packet version =
     rbind (encode_str (pub_topic packet)) (\<lambda>topic.
     rbind (if pub_qos packet \<noteq> AT_MOST_ONCE
            then (case pub_packet_id packet of
                    None \<Rightarrow> Inl (ValueError ''Cannot publish without packet id'')
                  | Some pid \<Rightarrow> pack_H pid)
            else Inr []) (\<lambda>pid.
     rbind (encode_v5 version (encode_publish_properties (pub_properties packet))) (\<lambda>props.
     build_packet PUBLISH (publish_flags (pub_dup packet) (pub_qos packet) (pub_retain packet))
       (topic @ pid @ props @ pub_payload packet))))"

definition encode_pub_ack_variant :: "PacketType \<Rightarrow> int \<Rightarrow> PubAckVariant \<Rightarrow> version \<Rightarrow> bytes res" where
  "encode_pub_ack_variant packet_type flags packet version =
     (if version = V50 \<and> (pav_reason_code packet \<noteq> 0 \<or> pav_properties packet \<noteq> None)
      then
        rbind (pack_H (pav_packet_id packet)) (\<lambda>pid.
        rbind (pack_B (pav_reason_code packet)) (\<lambda>rc.
        rbind (encode_puback_properties (pav_properties packet)) (\<lambda>props.
        build_packet packet_type flags (pid @ rc @ props))))
      else packet_id_only packet_type flags (pav_packet_id packet))"

definition subscription_options :: "SubscriptionRequest \<Rightarrow> version \<Rightarrow> int" where
  "subscription_options sub version =
     (if version = V50
      then qos_value (sr_qos sub) OR push_bit 2 (of_bool (sr_no_local sub))
           OR push_bit 3 (of_bool (sr_retain_as_published sub))
           OR push_bit 4 (retain_handling_value (sr_retain_handling sub))
      else qos_value (sr_qos sub))"

definition encode_subscription :: "version \<Rightarrow> SubscriptionRequest \<Rightarrow> bytes res" where
  "encode_subscription version sub =
     rbind (encode_str (sr_topic_filter sub)) (\<lambda>f.
       rmap (\<lambda>opt. f @ opt) (byte_of (subscription_options sub version)))"

definition encode_subscribe :: "Subscribe \<Rightarrow> version \<Rightarrow> bytes res" where
  "encode_subscribe packet version =
     rbind (pack_H (sub_packet_id packet)) (\<lambda>pid.
     rbind (encode_v5 version (encode_subscribe_properties (sub_properties packet))) (\<lambda>props.
     rbind (rconcat (encode_subscription version) (sub_subscriptions packet)) (\<lambda>subs.
     build_packet SUBSCRIBE 0b0010 (pid @ props @ subs))))"

definition encode_suback :: "SubAck \<Rightarrow> version \<Rightarrow> bytes res" where
  "encode_suback packet version =
     rbind (pack_H (sback_packet_id packet)) (\<lambda>pid.
     rbind (encode_v5 version (encode_suback_properties (sback_properties packet))) (\<lambda>props.
     rbind (rconcat byte_of (sback_return_codes packet)) (\<lambda>codes.
     build_packet SUBACK 0 (pid @ props @ codes))))"

definition encode_unsubscribe :: "Unsubscribe \<Rightarrow> version \<Rightarrow> bytes res" where
  "encode_unsubscribe packet version =
     rbind (pack_H (uns_packet_id packet)) (\<lambda>pid.
     rbind (encode_v5 version (encode_unsubscribe_properties (uns_properties packet))) (\<lambda>props.
     rbind (rconcat encode_str (uns_topic_filters packet)) (\<lambda>topics.
     build_packet UNSUBSCRIBE 0b0010 (pid @ props @ topics))))"

definition encode_unsuback :: "UnsubAck \<Rightarrow> version \<Rightarrow> bytes res" where
  "encode_unsuback packet version =
     (if version = V50
      then
        rbind (pack_H (unsack_packet_id packet)) (\<lambda>pid.
        rbind (encode_unsuback_properties (unsack_properties packet)) (\<lambda>props.
        rbind (rconcat byte_of (unsack_reason_codes packet)) (\<lambda>codes.
        build_packet UNSUBACK 0 (pid @ props @ codes))))
      else packet_id_only UNSUBACK 0 (unsack_packet_id packet))"

definition encode_disconnect :: "Disconnect \<Rightarrow> version \<Rightarrow> bytes res" where
  "encode_disconnect packet version =
     (if version = V50 \<and> (dis_reason_code packet \<noteq> 0 \<or> dis_properties packet \<noteq> None)
      then
        rbind (byte_of (dis_reason_code packet)) (\<lambda>rc.
        rbind (encode_disconnect_properties (dis_properties packet)) (\<lambda>props.
        build_packet DISCONNECT 0 (rc @ props)))
      else build_packet DISCONNECT 0 [])"

definition encode_auth :: "Auth \<Rightarrow> bytes res" where
  "encode_auth packet =
     rbind (byte_of (auth_reason_code packet)) (\<lambda>rc.
     rbind (encode_auth_properties (auth_properties packet)) (\<lambda>props.
     build_packet AUTH 0 (rc @ props)))"

definition encode :: "packet \<Rightarrow> version \<Rightarrow> bytes res" where
  "encode packet version =
     (case packet of
        Connect p \<Rightarrow> encode_connect p version
      | ConnAck p \<Rightarrow> encode_connack p version
      | Publish p \<Rightarrow> encode_publish p version
      | PubAck p \<Rightarrow> encode_pub_ack_variant PUBACK 0 p version
      | PubRec p \<Rightarrow> encode_pub_ack_variant PUBREC 0 p version
      | PubRel p \<Rightarrow> encode_pub_ack_variant PUBREL 0b0010 p version
      | PubComp p \<Rightarrow> encode_pub_ack_variant PUBCOMP 0 p version
      | Subscribe p \<Rightarrow> encode_subscribe p version
      | SubAck p \<Rightarrow> encode_suback p version
      | Unsubscribe p \<Rightarrow> encode_unsubscribe p version
      | UnsubAck p \<Rightarrow> encode_unsuback p version
      | PingReq \<Rightarrow> build_packet PINGREQ 0 []
      | PingResp \<Rightarrow> build_packet PINGRESP 0 []
      | Disconnect p \<Rightarrow> encode_disconnect p version
      | Auth p \<Rightarrow> encode_auth p)"

section \<open>Decoding\<close>

text \<open>
  A part of a packet that is present only under a condition: the value and the position after it.
\<close>

definition decode_if ::
  "bool \<Rightarrow> (bytes \<Rightarrow> nat \<Rightarrow> ('a \<times> nat) res) \<Rightarrow> bytes \<Rightarrow> nat \<Rightarrow> ('a option \<times> nat) res" where
  "decode_if c dec buf pos =
     (if c then rmap (\<lambda>(v, n). (Some v, pos + n)) (dec buf pos) else Inr (None, pos))"

text \<open>An optional property block of an MQTT 5.0 packet, and the position after it.\<close>

definition decode_v5 ::
  "version \<Rightarrow> (bytes \<Rightarrow> nat \<Rightarrow> ('p option \<times> nat) res) \<Rightarrow> bytes \<Rightarrow> nat \<Rightarrow> ('p option \<times> nat) res" where
  "decode_v5 version dec buf pos =
     (if version = V50 then rmap (\<lambda>(p, n). (p, pos + n)) (dec buf pos) else Inr (None, pos))"

definition decode_will :: "version \<Rightarrow> QoS \<Rightarrow> bool \<Rightarrow> bytes \<Rightarrow> nat \<Rightarrow> (Will \<times> nat) res" where
  "decode_will ver qos retain buf start =
     rbind (decode_v5 ver decode_will_properties buf start) (\<lambda>(props, pos).
     rbind (decode_str buf pos) (\<lambda>(topic, n).
     let pos = pos + n in
     rmap (\<lambda>(payload, n).
       (\<lparr>will_topic = topic, will_payload = payload, will_qos = qos, will_retain = retain,
         will_properties = props\<rparr>, pos + n - start))
       (decode_bytes_field buf pos)))"

definition decode_connect :: "bytes \<Rightarrow> Connect res" where
  "decode_connect buf =
     rbind (decode_str buf 0) (\<lambda>(proto_name, pos).
     if proto_name \<noteq> str_lit ''MQTT'' then Inl (ValueError ''Invalid protocol name'')
     else
     rbind (byte_at buf pos) (\<lambda>proto_level.
     if proto_level \<notin> {0x04, 0x05} then Inl (ValueError ''Unsupported protocol level'')
     else
     let ver = (if proto_level = 0x05 then V50 else V311); pos = pos + 1 in
     rbind (byte_at buf pos) (\<lambda>flags.
     let pos = pos + 1;
         clean_session = (flags AND 0x02 \<noteq> 0);
         will_flag = (flags AND 0x04 \<noteq> 0)
     in
     rbind (QoS_of (drop_bit 3 flags AND 0x03)) (\<lambda>qos.
     let retain = (flags AND 0x20 \<noteq> 0);
         username_flag = (flags AND 0x80 \<noteq> 0);
         password_flag = (flags AND 0x40 \<noteq> 0)
     in
     rbind (unpack_H buf pos) (\<lambda>keepalive.
     let pos = pos + 2 in
     rbind (decode_v5 ver decode_connect_properties buf pos) (\<lambda>(connect_props, pos).
     rbind (decode_str buf pos) (\<lambda>(client_id, n).
     let pos = pos + n in
     rbind (decode_if will_flag (decode_will ver qos retain) buf pos) (\<lambda>(will, pos).
     rbind (decode_if username_flag decode_str buf pos) (\<lambda>(username, pos).
     rmap (\<lambda>(password, pos).
       \<lparr>con_client_id = client_id, con_clean_session = clean_session, con_keepalive = keepalive,
        con_username = username, con_password = password, con_will = will,
        con_properties = connect_props\<rparr>)
       (decode_if password_flag decode_bytes_field buf pos))))))))))"

definition decode_connack :: "bytes \<Rightarrow> version \<Rightarrow> ConnAck res" where
  "decode_connack buf version =
     (if length buf < 2 then Inl (ValueError ''CONNACK too short'')
      else
      rbind (byte_at buf 0) (\<lambda>b0.
      rbind (byte_at buf 1) (\<lambda>return_code.
      rmap (\<lambda>props.
        \<lparr>cack_session_present = (b0 AND 0x01 \<noteq> 0), cack_return_code = return_code,
         cack_properties = props\<rparr>)
        (if version = V50 \<and> length buf > 2 then rmap fst (decode_connack_properties buf 2)
         else Inr None))))"

definition decode_publish :: "bytes \<Rightarrow> int \<Rightarrow> version \<Rightarrow> Publish res" where
  "decode_publish buf flags version =
     (let dup = (flags AND 0x08 \<noteq> 0) in
      rbind (QoS_of (drop_bit 1 flags AND 0x03)) (\<lambda>qos.
      let retain = (flags AND 0x01 \<noteq> 0) in
      rbind (decode_str buf 0) (\<lambda>(topic, pos).
      rbind (if qos \<noteq> AT_MOST_ONCE
             then if pos + 2 > length buf then Inl (ValueError ''PUBLISH too short for packet ID'')
                  else rmap (\<lambda>pid. (Some pid, pos + 2)) (unpack_H buf pos)
             else Inr (None, pos)) (\<lambda>(packet_id, pos).
      rmap (\<lambda>(props, pos).
        \<lparr>pub_topic = topic, pub_payload = drop pos buf, pub_qos = qos, pub_retain = retain,
         pub_dup = dup, pub_packet_id = packet_id, pub_properties = props\<rparr>)
        (decode_v5 version decode_publish_properties buf pos)))))"

definition decode_pub_ack_variant :: "bytes \<Rightarrow> version \<Rightarrow> PubAckVariant res" where
  "decode_pub_ack_variant buf version =
     (if length buf < 2 then Inl (ValueError ''Packet too short for packet ID'')
      else
      rbind (unpack_H buf 0) (\<lambda>packet_id.
      if version = V50 \<and> length buf > 2 then
        rbind (byte_at buf 2) (\<lambda>reason_code.
        rmap (\<lambda>props.
          \<lparr>pav_packet_id = packet_id, pav_reason_code = reason_code, pav_properties = props\<rparr>)
          (if length buf > 3 then rmap fst (decode_puback_properties buf 3) else Inr None))
      else Inr \<lparr>pav_packet_id = packet_id, pav_reason_code = 0, pav_properties = None\<rparr>))"

text \<open>The body of the loop of \<open>_decode_subscribe\<close>: one request and the position after it.\<close>

definition decode_subscription ::
  "bytes \<Rightarrow> nat \<Rightarrow> version \<Rightarrow> (SubscriptionRequest \<times> nat) res" where
  "decode_subscription buf pos version =
     rbind (decode_str buf pos) (\<lambda>(topic_filter, n).
     let pos = pos + n in
     if pos \<ge> length buf then Inl (ValueError ''SUBSCRIBE missing options byte'')
     else
     rbind (byte_at buf pos) (\<lambda>options.
     let pos = pos + 1 in
     rbind (QoS_of (options AND 0x03)) (\<lambda>qos.
     if version = V50 then
       rmap (\<lambda>retain_handling.
         (\<lparr>sr_topic_filter = topic_filter, sr_qos = qos, sr_no_local = (options AND 0x04 \<noteq> 0),
           sr_retain_as_published = (options AND 0x08 \<noteq> 0),
           sr_retain_handling = retain_handling\<rparr>, pos))
         (RetainHandling_of (drop_bit 4 options AND 0x03))
     else
       Inr (\<lparr>sr_topic_filter = topic_filter, sr_qos = qos, sr_no_local = False,
             sr_retain_as_published = False, sr_retain_handling = SEND_ON_SUBSCRIBE\<rparr>, pos))))"

lemma decode_subscription_progress:
  "decode_subscription buf pos version = Inr (r, pos') \<Longrightarrow> pos < pos' \<and> pos' \<le> length buf"
  by (auto simp: decode_subscription_def Let_def dest: str_field.dec_bound split: if_splits)

function decode_subscriptions ::
  "bytes \<Rightarrow> nat \<Rightarrow> version \<Rightarrow> SubscriptionRequest list \<Rightarrow> SubscriptionRequest list res" where
  "decode_subscriptions buf pos version subscriptions =
     (if pos < length buf then
        rbind (decode_subscription buf pos version) (\<lambda>rp.
          decode_subscriptions buf (snd rp) version (subscriptions @ [fst rp]))
      else Inr subscriptions)"
  by pat_completeness auto
termination
  by (relation "measure (\<lambda>(buf, pos, version, subs). length buf - pos)")
    (auto dest!: decode_subscription_progress)

declare decode_subscriptions.simps [simp del]

definition decode_subscribe :: "bytes \<Rightarrow> version \<Rightarrow> Subscribe res" where
  "decode_subscribe buf version =
     (if length buf < 2 then Inl (ValueError ''SUBSCRIBE too short'')
      else
      rbind (unpack_H buf 0) (\<lambda>packet_id.
      rbind (decode_v5 version decode_subscribe_properties buf 2) (\<lambda>(props, pos).
      rmap (\<lambda>subscriptions.
        \<lparr>sub_packet_id = packet_id, sub_subscriptions = subscriptions, sub_properties = props\<rparr>)
        (decode_subscriptions buf pos version []))))"

definition decode_suback :: "bytes \<Rightarrow> version \<Rightarrow> SubAck res" where
  "decode_suback buf version =
     (if length buf < 2 then Inl (ValueError ''SUBACK too short'')
      else
      rbind (unpack_H buf 0) (\<lambda>packet_id.
      rmap (\<lambda>(props, pos).
        \<lparr>sback_packet_id = packet_id, sback_return_codes = map uint (drop pos buf),
         sback_properties = props\<rparr>)
        (decode_v5 version decode_suback_properties buf 2)))"

function decode_topic_filters :: "bytes \<Rightarrow> nat \<Rightarrow> pystr list \<Rightarrow> pystr list res" where
  "decode_topic_filters buf pos topic_filters =
     (if pos < length buf then
        rbind (decode_str buf pos) (\<lambda>tn.
          decode_topic_filters buf (pos + snd tn) (topic_filters @ [fst tn]))
      else Inr topic_filters)"
  by pat_completeness auto
termination
  by (relation "measure (\<lambda>(buf, pos, fs). length buf - pos)")
    (auto dest!: str_field.dec_bound)

declare decode_topic_filters.simps [simp del]

definition decode_unsubscribe :: "bytes \<Rightarrow> version \<Rightarrow> Unsubscribe res" where
  "decode_unsubscribe buf version =
     (if length buf < 2 then Inl (ValueError ''UNSUBSCRIBE too short'')
      else
      rbind (unpack_H buf 0) (\<lambda>packet_id.
      rbind (decode_v5 version decode_unsubscribe_properties buf 2) (\<lambda>(props, pos).
      rmap (\<lambda>topic_filters.
        \<lparr>uns_packet_id = packet_id, uns_topic_filters = topic_filters, uns_properties = props\<rparr>)
        (decode_topic_filters buf pos []))))"

definition decode_unsuback :: "bytes \<Rightarrow> version \<Rightarrow> UnsubAck res" where
  "decode_unsuback buf version =
     (if length buf < 2 then Inl (ValueError ''UNSUBACK too short'')
      else
      rbind (unpack_H buf 0) (\<lambda>packet_id.
      if version = V50 then
        rmap (\<lambda>(props, n).
          \<lparr>unsack_packet_id = packet_id, unsack_reason_codes = map uint (drop (2 + n) buf),
           unsack_properties = props\<rparr>)
          (decode_unsuback_properties buf 2)
      else
        Inr \<lparr>unsack_packet_id = packet_id, unsack_reason_codes = [], unsack_properties = None\<rparr>))"

definition decode_disconnect :: "bytes \<Rightarrow> version \<Rightarrow> Disconnect res" where
  "decode_disconnect buf version =
     (if version = V50 \<and> length buf \<ge> 1 then
        rbind (byte_at buf 0) (\<lambda>reason_code.
        rmap (\<lambda>props. \<lparr>dis_reason_code = reason_code, dis_properties = props\<rparr>)
          (if length buf > 1 then rmap fst (decode_disconnect_properties buf 1) else Inr None))
      else Inr \<lparr>dis_reason_code = 0, dis_properties = None\<rparr>)"

definition decode_auth :: "bytes \<Rightarrow> Auth res" where
  "decode_auth body =
     (if length body < 1 then Inl (ValueError ''AUTH too short'')
      else
      rbind (byte_at body 0) (\<lambda>auth_rc.
      rmap (\<lambda>props. \<lparr>auth_reason_code = auth_rc, auth_properties = props\<rparr>)
        (if length body > 1 then rmap fst (decode_auth_properties body 1) else Inr None)))"

text \<open>The \<open>match packet_type\<close> of \<open>decode\<close>.\<close>

definition decode_body :: "PacketType \<Rightarrow> int \<Rightarrow> bytes \<Rightarrow> version \<Rightarrow> packet res" where
  "decode_body packet_type flags body version =
     (case packet_type of
        CONNECT \<Rightarrow> rmap Connect (decode_connect body)
      | CONNACK \<Rightarrow> rmap ConnAck (decode_connack body version)
      | PUBLISH \<Rightarrow> rmap Publish (decode_publish body flags version)
      | PUBACK \<Rightarrow> rmap PubAck (decode_pub_ack_variant body version)
      | PUBREC \<Rightarrow> rmap PubRec (decode_pub_ack_variant body version)
      | PUBREL \<Rightarrow> rmap PubRel (decode_pub_ack_variant body version)
      | PUBCOMP \<Rightarrow> rmap PubComp (decode_pub_ack_variant body version)
      | SUBSCRIBE \<Rightarrow> rmap Subscribe (decode_subscribe body version)
      | SUBACK \<Rightarrow> rmap SubAck (decode_suback body version)
      | UNSUBSCRIBE \<Rightarrow> rmap Unsubscribe (decode_unsubscribe body version)
      | UNSUBACK \<Rightarrow> rmap UnsubAck (decode_unsuback body version)
      | PINGREQ \<Rightarrow> Inr PingReq
      | PINGRESP \<Rightarrow> Inr PingResp
      | DISCONNECT \<Rightarrow> rmap Disconnect (decode_disconnect body version)
      | AUTH \<Rightarrow> rmap Auth (decode_auth body))"

text \<open>The inlined loop over the Remaining Length: None while the fixed header is incomplete.\<close>

function remaining_length_loop ::
  "bytes \<Rightarrow> nat \<Rightarrow> int \<Rightarrow> int \<Rightarrow> (int \<times> nat) option res" where
  "remaining_length_loop buffer i multiplier remaining_length =
     (if i \<ge> 4 then Inl (ValueError ''Remaining-length varint exceeds 4 bytes'')
      else if 1 + i \<ge> length buffer then Inr None
      else
        let b = uint (buffer ! (1 + i));
            remaining_length' = remaining_length + (b AND 0x7F) * multiplier
        in
        if b AND 0x80 = 0 then Inr (Some (remaining_length', i + 1))
        else remaining_length_loop buffer (i + 1) (multiplier * 128) remaining_length')"
  by pat_completeness auto
termination
  by (relation "measure (\<lambda>(buffer, i, m, r). 4 - i)") auto

declare remaining_length_loop.simps [simp del]

definition decode :: "bytes \<Rightarrow> version \<Rightarrow> int option \<Rightarrow> (packet \<times> nat) option res" where
  "decode buffer version max_packet_size =
     (if length buffer < 2 then Inr None
      else
      let first_byte = uint (buffer ! 0);
          packet_type_val = drop_bit 4 first_byte AND 0x0F;
          flags = first_byte AND 0x0F
      in
      rbind (remaining_length_loop buffer 0 1 0) (\<lambda>header.
      case header of
        None \<Rightarrow> Inr None
      | Some (remaining_length, varint_bytes) \<Rightarrow>
          let total = 1 + varint_bytes + nat remaining_length in
          if (case max_packet_size of None \<Rightarrow> False | Some limit \<Rightarrow> int total > limit)
          then Inl (PacketTooLargeError total (the max_packet_size))
          else if length buffer < total then Inr None
          else
          rbind (PacketType_of packet_type_val) (\<lambda>packet_type.
            let body = take (total - (1 + varint_bytes)) (drop (1 + varint_bytes) buffer) in
            rmap (\<lambda>packet. Some (packet, total)) (decode_body packet_type flags body version))))"

end
