(* ===== verification/Codec_Correct.thy ===== *)
theory Codec_Correct
  imports Codec
begin

text \<open>
  Correctness of the packet codec: the inlined Remaining Length loop computes what
  \<open>decode_varint\<close> computes; decoding an encoded packet, whatever bytes follow, gives the packet
  as a receiver sees it (\<open>seen\<close>) and the number of bytes it occupies; and the outcome of \<open>decode\<close>,
  once it is not None, does not depend on bytes that arrive later.
\<close>

unbundle bit_operations_syntax

section \<open>The fixed header\<close>

lemma remaining_length_loop_eq:
  "remaining_length_loop buf i m a =
     (case decode_varint_loop buf 1 i m a of
        Inr r \<Rightarrow> Inr (Some r)
      | Inl e \<Rightarrow>
          if e = ValueError ''Buffer too short for varint'' then Inr None
          else Inl (ValueError ''Remaining-length varint exceeds 4 bytes''))"
proof (induction buf i m a rule: remaining_length_loop.induct)
  case (1 buf i m a)
  then show ?case
    by (subst remaining_length_loop.simps, subst decode_varint_loop.simps) (simp add: Let_def)
qed

lemma int_and_15: "(n :: int) AND 15 = n mod 16"
  using take_bit_eq_mask [of 4 n] by (simp add: take_bit_eq_mod mask_eq_exp_minus_1)

lemma first_byte_eq: "0 \<le> f \<Longrightarrow> f < 16 \<Longrightarrow> push_bit 4 t OR (f AND 15) = 16 * t + (f :: int)"
proof -
  assume f: "0 \<le> f" "f < 16"
  have "push_bit 4 t AND take_bit 4 f = 0"
    by (rule bit_eqI) (simp add: bit_simps)
  then have "push_bit 4 t OR take_bit 4 f = push_bit 4 t + take_bit 4 f"
    by (rule disjunctive_add_eq_or [symmetric])
  moreover have "take_bit 4 f = f" "f AND 15 = f"
    using f by (simp_all add: take_bit_eq_mod int_and_15)
  ultimately show ?thesis by (simp add: push_bit_eq_mult)
qed

lemma packet_type_value_bound: "0 < packet_type_value t" "packet_type_value t < 16"
  by (cases t; simp)+

lemma first_byte_parts:
  assumes "0 \<le> f" "f < 16"
  shows "drop_bit 4 (16 * packet_type_value t + f) AND 15 = packet_type_value t"
    and "(16 * packet_type_value t + f) AND 15 = f"
  using assms packet_type_value_bound [of t]
  by (simp_all add: int_and_15 drop_bit_eq_div)

text \<open>What \<open>decode\<close> does with a packet framed by \<open>_build_packet\<close>.\<close>

definition fits :: "int option \<Rightarrow> nat \<Rightarrow> bool" where
  "fits max_packet_size n \<longleftrightarrow> (case max_packet_size of None \<Rightarrow> True | Some limit \<Rightarrow> int n \<le> limit)"

lemma build_packet_Inr:
  assumes "build_packet t flags body = Inr bs" and "0 \<le> flags" "flags < 16"
  obtains len where "encode_varint (int (length body)) = Inr len"
    and "bs = word_of_int (16 * packet_type_value t + flags) # len @ body"
  using assms by (auto simp: build_packet_def first_byte_eq byte_of_Inr)

lemma decode_build_packet:
  assumes bp: "build_packet t flags body = Inr bs" and f: "0 \<le> flags" "flags < 16"
    and fits: "fits limit (length bs)"
  shows "decode (bs @ rest) version limit
           = rmap (\<lambda>p. Some (p, length bs)) (decode_body t flags body version)"
proof -
  obtain len where len: "encode_varint (int (length body)) = Inr len"
    and bs: "bs = word_of_int (16 * packet_type_value t + flags) # len @ body"
    using build_packet_Inr [OF bp f] by blast
  have fb: "uint ((bs @ rest) ! 0) = 16 * packet_type_value t + flags"
    using f packet_type_value_bound [of t] uint_byte_of_int [of "16 * packet_type_value t + flags"]
    by (simp only: bs append_Cons nth_Cons_0)
  have "drop 1 (bs @ rest) = len @ body @ rest" by (simp add: bs)
  from varint.field_at(1) [OF len this]
  have hdr: "remaining_length_loop (bs @ rest) 0 1 0 = Inr (Some (int (length body), length len))"
    by (simp add: remaining_length_loop_eq decode_varint_def)
  have total: "1 + length len + length body = length bs" by (simp add: bs)
  have len2: "\<not> length (bs @ rest) < 2"
    using varint.enc_nonempty [OF len] by (cases len) (auto simp: bs)
  have ok: "\<not> (case limit of None \<Rightarrow> False | Some l \<Rightarrow> int (length bs) > l)"
    using fits by (auto simp: fits_def split: option.splits)
  have body: "take (length bs - (1 + length len)) (drop (1 + length len) (bs @ rest)) = body"
    by (simp add: bs)
  show ?thesis
    using ok unfolding decode_def fb hdr
    by (simp only: Let_def rbind_simps option.case prod.case nat_int total body first_byte_parts [OF f]
        PacketType_of_value len2 if_False) simp
qed

section \<open>Optional parts\<close>

context wire_field
begin

lemma optional_at:
  assumes "encode_optional enc x = Inr bs" and "drop pos buf = bs @ rest"
  shows "decode_if (x \<noteq> None) dec buf pos = Inr (map_option norm x, pos + length bs)"
    and "drop (pos + length bs) buf = rest"
  using assms field_at [of _ bs pos buf rest]
  by (auto simp: encode_optional_def decode_if_def split: option.splits)

end

text \<open>A property block that is on the wire only in MQTT 5.0.\<close>

definition seen_v5 :: "version \<Rightarrow> 'p option \<Rightarrow> 'p option" where
  "seen_v5 version props = (if version = V50 then props else None)"

locale props_codec = wire_field enc dec norm
  for enc :: "'p option \<Rightarrow> bytes res"
    and dec :: "bytes \<Rightarrow> nat \<Rightarrow> ('p option \<times> nat) res"
    and norm :: "'p option \<Rightarrow> 'p option"
begin

lemma v5_at:
  assumes "encode_v5 v (enc x) = Inr bs" and "drop pos buf = bs @ rest"
  shows "decode_v5 v dec buf pos = Inr (seen_v5 v (norm x), pos + length bs)"
    and "drop (pos + length bs) buf = rest"
  using assms field_at [of x bs pos buf rest]
  by (auto simp: encode_v5_def decode_v5_def seen_v5_def split: if_splits)

end

interpretation connect_v5: props_codec encode_connect_properties decode_connect_properties connect_props_seen ..
interpretation will_v5: props_codec encode_will_properties decode_will_properties will_props_seen ..
interpretation connack_v5: props_codec encode_connack_properties decode_connack_properties connack_props_seen ..
interpretation publish_v5: props_codec encode_publish_properties decode_publish_properties publish_props_seen ..
interpretation subscribe_v5: props_codec encode_subscribe_properties decode_subscribe_properties subscribe_props_seen ..
interpretation suback_v5: props_codec encode_suback_properties decode_suback_properties suback_props_seen ..
interpretation unsubscribe_v5: props_codec encode_unsubscribe_properties decode_unsubscribe_properties unsubscribe_props_seen ..

section \<open>What the receiver sees of a packet\<close>

definition seen_will :: "version \<Rightarrow> Will \<Rightarrow> Will" where
  "seen_will v w = w\<lparr>will_properties := seen_v5 v (will_props_seen (will_properties w))\<rparr>"

definition seen_connect :: "version \<Rightarrow> Connect \<Rightarrow> Connect" where
  "seen_connect v p =
     p\<lparr>con_will := map_option (seen_will v) (con_will p),
       con_properties := seen_v5 v (connect_props_seen (con_properties p))\<rparr>"

definition seen_publish :: "version \<Rightarrow> Publish \<Rightarrow> Publish" where
  "seen_publish v p =
     p\<lparr>pub_packet_id := (if pub_qos p = AT_MOST_ONCE then None else pub_packet_id p),
       pub_properties := seen_v5 v (publish_props_seen (pub_properties p))\<rparr>"

definition seen_pub_ack :: "version \<Rightarrow> PubAckVariant \<Rightarrow> PubAckVariant" where
  "seen_pub_ack v p =
     p\<lparr>pav_reason_code := (if v = V50 then pav_reason_code p else 0),
       pav_properties := seen_v5 v (puback_props_seen (pav_properties p))\<rparr>"

definition seen_subscription :: "version \<Rightarrow> SubscriptionRequest \<Rightarrow> SubscriptionRequest" where
  "seen_subscription v r =
     (if v = V50 then r
      else r\<lparr>sr_no_local := False, sr_retain_as_published := False,
             sr_retain_handling := SEND_ON_SUBSCRIBE\<rparr>)"

definition seen :: "version \<Rightarrow> packet \<Rightarrow> packet" where
  "seen v packet =
     (case packet of
        Connect p \<Rightarrow> Connect (seen_connect v p)
      | ConnAck p \<Rightarrow> ConnAck (p\<lparr>cack_properties := seen_v5 v (connack_props_seen (cack_properties p))\<rparr>)
      | Publish p \<Rightarrow> Publish (seen_publish v p)
      | PubAck p \<Rightarrow> PubAck (seen_pub_ack v p)
      | PubRec p \<Rightarrow> PubRec (seen_pub_ack v p)
      | PubRel p \<Rightarrow> PubRel (seen_pub_ack v p)
      | PubComp p \<Rightarrow> PubComp (seen_pub_ack v p)
      | Subscribe p \<Rightarrow>
          Subscribe (p\<lparr>sub_subscriptions := map (seen_subscription v) (sub_subscriptions p),
            sub_properties := seen_v5 v (subscribe_props_seen (sub_properties p))\<rparr>)
      | SubAck p \<Rightarrow> SubAck (p\<lparr>sback_properties := seen_v5 v (suback_props_seen (sback_properties p))\<rparr>)
      | Unsubscribe p \<Rightarrow>
          Unsubscribe (p\<lparr>uns_properties := seen_v5 v (unsubscribe_props_seen (uns_properties p))\<rparr>)
      | UnsubAck p \<Rightarrow>
          UnsubAck (p\<lparr>unsack_reason_codes := (if v = V50 then unsack_reason_codes p else []),
            unsack_properties := seen_v5 v (unsuback_props_seen (unsack_properties p))\<rparr>)
      | PingReq \<Rightarrow> PingReq
      | PingResp \<Rightarrow> PingResp
      | Disconnect p \<Rightarrow>
          Disconnect (p\<lparr>dis_reason_code := (if v = V50 then dis_reason_code p else 0),
            dis_properties := seen_v5 v (disconnect_props_seen (dis_properties p))\<rparr>)
      | Auth p \<Rightarrow> Auth (p\<lparr>auth_properties := auth_props_seen (auth_properties p)\<rparr>))"

section \<open>Bit fields\<close>

lemma publish_flags_parts [simp]:
  "0 \<le> publish_flags dup qos retain" "publish_flags dup qos retain < 16"
  "publish_flags dup qos retain AND 8 = 0 \<longleftrightarrow> \<not> dup"
  "QoS_of (drop_bit (Suc 0) (publish_flags dup qos retain) AND 3) = Inr qos"
  "publish_flags dup qos retain AND 1 = 0 \<longleftrightarrow> \<not> retain"
  by (cases dup; cases qos; cases retain; simp add: publish_flags_def QoS_of_def)+

lemma connect_flags_parts [simp]:
  "0 \<le> connect_flags c w u p" "connect_flags c w u p < 256"
  "connect_flags c w u p AND 2 = 0 \<longleftrightarrow> \<not> c"
  "connect_flags c w u p AND 4 = 0 \<longleftrightarrow> w = None"
  "QoS_of (drop_bit 3 (connect_flags c w u p) AND 3)
     = Inr (case w of None \<Rightarrow> AT_MOST_ONCE | Some (q, r) \<Rightarrow> q)"
  "connect_flags c w u p AND 32 = 0 \<longleftrightarrow> \<not> (case w of None \<Rightarrow> False | Some (q, r) \<Rightarrow> r)"
  "connect_flags c w u p AND 128 = 0 \<longleftrightarrow> \<not> u"
  "connect_flags c w u p AND 64 = 0 \<longleftrightarrow> \<not> p"
proof -
  consider "w = None" | q r where "w = Some (q, r)" by (cases w) auto
  note w = this
  show "0 \<le> connect_flags c w u p" "connect_flags c w u p < 256"
    "connect_flags c w u p AND 2 = 0 \<longleftrightarrow> \<not> c"
    "connect_flags c w u p AND 4 = 0 \<longleftrightarrow> w = None"
    "QoS_of (drop_bit 3 (connect_flags c w u p) AND 3)
       = Inr (case w of None \<Rightarrow> AT_MOST_ONCE | Some (q, r) \<Rightarrow> q)"
    "connect_flags c w u p AND 32 = 0 \<longleftrightarrow> \<not> (case w of None \<Rightarrow> False | Some (q, r) \<Rightarrow> r)"
    "connect_flags c w u p AND 128 = 0 \<longleftrightarrow> \<not> u"
    "connect_flags c w u p AND 64 = 0 \<longleftrightarrow> \<not> p"
    by (rule w; cases c; cases u; cases p; simp add: connect_flags_def QoS_of_def;
        rename_tac q r, case_tac q; case_tac r; simp)+
qed

lemma subscription_options_parts [simp]:
  "0 \<le> subscription_options r v" "subscription_options r v < 256"
  "QoS_of (subscription_options r v AND 3) = Inr (sr_qos r)"
  "subscription_options r V50 AND 4 = 0 \<longleftrightarrow> \<not> sr_no_local r"
  "subscription_options r V50 AND 8 = 0 \<longleftrightarrow> \<not> sr_retain_as_published r"
  "RetainHandling_of (drop_bit 4 (subscription_options r V50) AND 3) = Inr (sr_retain_handling r)"
  by (cases v; cases "sr_qos r"; cases "sr_no_local r"; cases "sr_retain_as_published r";
      cases "sr_retain_handling r"; simp add: subscription_options_def QoS_of_def RetainHandling_of_def)+

section \<open>Bodies\<close>

text \<open>Reading a packed identifier or a single byte at a known place of the buffer.\<close>

lemma pack_H_at:
  assumes "pack_H v = Inr bs" and "drop pos buf = bs @ rest"
  shows "unpack_H buf pos = Inr v" and "drop (pos + 2) buf = rest" and "pos + 2 \<le> length buf"
proof -
  have l: "length bs = 2" using assms(1) by (rule pack_length)
  then have "bs \<noteq> []" by auto
  with l show "unpack_H buf pos = Inr v" "drop (pos + 2) buf = rest" "pos + 2 \<le> length buf"
    using unpack_H_drop [OF assms(2,1)] drop_prefix_drop [OF assms(2)] drop_prefix_len [OF assms(2)]
    by simp_all
qed

lemma byte_of_at:
  assumes "byte_of v = Inr bs" and "drop pos buf = bs @ rest"
  shows "byte_at buf pos = Inr v" and "drop (Suc pos) buf = rest" and "pos < length buf"
  using assms byte_at_drop [of pos buf _ rest] drop_prefix_drop [OF assms(2)]
    drop_prefix_len [OF assms(2)] by (auto simp: byte_of_Inr)

lemma pack_B_at:
  assumes "pack_B v = Inr bs" and "drop pos buf = bs @ rest"
  shows "byte_at buf pos = Inr v" and "drop (Suc pos) buf = rest" and "pos < length buf"
  using assms byte_of_at [of v bs pos buf rest] by (auto simp: pack_B_Inr byte_of_Inr)

lemma rconcat_byte_of: "rconcat byte_of codes = Inr bs \<Longrightarrow> map uint bs = codes"
  by (induction codes arbitrary: bs) (auto simp: byte_of_Inr)

text \<open>The bytes are a frame around a body that decodes to the given packet.\<close>

definition frames :: "bytes \<Rightarrow> version \<Rightarrow> packet \<Rightarrow> bool" where
  "frames bs v q \<longleftrightarrow>
     (\<exists>t flags body. build_packet t flags body = Inr bs \<and> 0 \<le> flags \<and> flags < 16
        \<and> decode_body t flags body v = Inr q)"

lemma framesI:
  "build_packet t flags body = Inr bs \<Longrightarrow> 0 \<le> flags \<Longrightarrow> flags < 16 \<Longrightarrow>
     decode_body t flags body v = Inr q \<Longrightarrow> frames bs v q"
  by (auto simp: frames_def)

lemma decode_publish_encode:
  assumes "encode_publish p v = Inr bs"
  shows "frames bs v (Publish (seen_publish v p))"
proof -
  from assms obtain topic pid props where
    t: "encode_str (pub_topic p) = Inr topic" and
    pid: "(if pub_qos p \<noteq> AT_MOST_ONCE
            then (case pub_packet_id p of
                    None \<Rightarrow> Inl (ValueError ''Cannot publish without packet id'')
                  | Some pid \<Rightarrow> pack_H pid)
            else Inr []) = Inr pid" and
    props: "encode_v5 v (encode_publish_properties (pub_properties p)) = Inr props" and
    bp: "build_packet PUBLISH (publish_flags (pub_dup p) (pub_qos p) (pub_retain p))
           (topic @ pid @ props @ pub_payload p) = Inr bs"
    by (auto simp: encode_publish_def)
  let ?body = "topic @ pid @ props @ pub_payload p"
  have d0: "drop 0 ?body = topic @ pid @ props @ pub_payload p" by simp
  note f1 = str_field.field_at [OF t d0]
  have "(if pub_qos p \<noteq> AT_MOST_ONCE
        then if length topic + 2 > length ?body then Inl (ValueError ''PUBLISH too short for packet ID'')
             else rmap (\<lambda>pid. (Some pid, length topic + 2)) (unpack_H ?body (length topic))
        else Inr (None, length topic))
      = Inr (if pub_qos p = AT_MOST_ONCE then None else pub_packet_id p, length topic + length pid)"
    using pid pack_H_at [of _ pid "length topic" ?body "props @ pub_payload p"] pack_length(2)
    by (auto split: if_splits option.splits)
  moreover have "drop (length topic + length pid) ?body = props @ pub_payload p" by simp
  note f3 = publish_v5.v5_at [OF props this]
  ultimately have "decode_publish ?body (publish_flags (pub_dup p) (pub_qos p) (pub_retain p)) v
      = Inr (seen_publish v p)"
    using f1(1) f3 by (simp add: decode_publish_def seen_publish_def)
  then show ?thesis by (intro framesI [OF bp]) (simp_all add: decode_body_def)
qed

lemma decode_connack_encode:
  assumes "encode_connack p v = Inr bs"
  shows "frames bs v (ConnAck (p\<lparr>cack_properties := seen_v5 v (connack_props_seen (cack_properties p))\<rparr>))"
proof -
  from assms obtain sp rc props where
    sp: "byte_of (if cack_session_present p then 0x01 else 0x00) = Inr sp" and
    rc: "byte_of (cack_return_code p) = Inr rc" and
    props: "encode_v5 v (encode_connack_properties (cack_properties p)) = Inr props" and
    bp: "build_packet CONNACK 0 (sp @ rc @ props) = Inr bs"
    by (auto simp: encode_connack_def)
  define body where "body = sp @ rc @ props"
  have d0: "drop 0 body = sp @ rc @ props" by (simp add: body_def)
  note f0 = byte_of_at [OF sp d0]
  note f1 = byte_of_at [OF rc f0(2)]
  have d2: "drop 2 body = props @ []" using f1(2) by (simp only: numeral_2_eq_2 append_Nil2)
  have len: "length body = 2 + length props" using pack_length(4) sp rc by (simp add: body_def)
  have "decode_connack body v
      = Inr (p\<lparr>cack_properties := seen_v5 v (connack_props_seen (cack_properties p))\<rparr>)"
  proof (cases v)
    case V50
    then have enc: "encode_connack_properties (cack_properties p) = Inr props"
      using props by (simp add: encode_v5_def)
    note f2 = connack_props.field_at [OF enc d2] connack_props.enc_nonempty [OF enc]
    then show ?thesis using f0 f1 len V50 by (simp add: decode_connack_def seen_v5_def)
  next
    case V311
    then show ?thesis using f0 f1 len by (simp add: decode_connack_def seen_v5_def)
  qed
  then show ?thesis
    by (intro framesI [OF bp]) (simp_all add: decode_body_def body_def [symmetric])
qed

lemma decode_pub_ack_encode:
  assumes "encode_pub_ack_variant t flags p v = Inr bs"
  shows "\<exists>body. build_packet t flags body = Inr bs
           \<and> decode_pub_ack_variant body v = Inr (seen_pub_ack v p)"
proof (cases "v = V50 \<and> (pav_reason_code p \<noteq> 0 \<or> pav_properties p \<noteq> None)")
  case True
  with assms obtain pid rc props where
    pid: "pack_H (pav_packet_id p) = Inr pid" and rc: "pack_B (pav_reason_code p) = Inr rc" and
    props: "encode_puback_properties (pav_properties p) = Inr props" and
    bp: "build_packet t flags (pid @ rc @ props) = Inr bs"
    by (auto simp: encode_pub_ack_variant_def)
  define body where "body = pid @ rc @ props"
  have d0: "drop 0 body = pid @ rc @ props" by (simp add: body_def)
  note f0 = pack_H_at [OF pid d0]
  have d2: "drop 2 body = rc @ props" using f0(2) by (simp only: add_0)
  note f1 = pack_B_at [OF rc d2]
  have d3: "drop 3 body = props @ []" using f1(2) by (simp add: numeral_3_eq_3 numeral_2_eq_2)
  note f2 = puback_props.field_at [OF props d3]
  have "decode_pub_ack_variant body v = Inr (seen_pub_ack v p)"
    using f0 f1 f2 True by (simp add: decode_pub_ack_variant_def seen_pub_ack_def seen_v5_def)
  with bp show ?thesis by (auto simp: body_def)
next
  case False
  with assms obtain pid where
    pid: "pack_H (pav_packet_id p) = Inr pid" and bp: "build_packet t flags pid = Inr bs"
    by (auto simp: encode_pub_ack_variant_def packet_id_only_def)
  have "length pid = 2" using pid by (rule pack_length)
  then have "decode_pub_ack_variant pid v = Inr (seen_pub_ack v p)"
    using pack_H_at [OF pid, of 0 pid "[]"] False
    by (cases v) (auto simp: decode_pub_ack_variant_def seen_pub_ack_def seen_v5_def
        puback_props_seen_def)
  with bp show ?thesis by blast
qed

text \<open>A loop over encoded items up to the end of the buffer.\<close>

lemma decode_subscription_encode:
  assumes "encode_subscription v r = Inr b" and "drop pos buf = b @ rest"
  shows "decode_subscription buf pos v = Inr (seen_subscription v r, pos + length b)"
proof -
  from assms(1) obtain f opt where f: "encode_str (sr_topic_filter r) = Inr f"
    and opt: "byte_of (subscription_options r v) = Inr opt" and b: "b = f @ opt"
    by (auto simp: encode_subscription_def)
  have d: "drop pos buf = f @ opt @ rest" using assms(2) b by simp
  note f1 = str_field.field_at [OF f d]
  note f2 = byte_of_at [OF opt f1(2)]
  have "length opt = 1" using opt by (rule pack_length)
  then show ?thesis
    using f1(1) f2 b by (cases v) (simp_all add: decode_subscription_def seen_subscription_def Let_def)
qed

lemma decode_subscriptions_encode:
  "rconcat (encode_subscription v) subs = Inr raw \<Longrightarrow> drop pos buf = raw \<Longrightarrow>
     decode_subscriptions buf pos v acc = Inr (acc @ map (seen_subscription v) subs)"
proof (induction subs arbitrary: raw pos acc)
  case Nil
  then show ?case by (subst decode_subscriptions.simps) simp
next
  case (Cons r subs)
  from Cons.prems(1) obtain b raw' where b: "encode_subscription v r = Inr b"
    and raw': "rconcat (encode_subscription v) subs = Inr raw'" and raw: "raw = b @ raw'" by auto
  have d: "drop pos buf = b @ raw'" using Cons.prems(2) raw by simp
  note s = decode_subscription_encode [OF b d]
  have "pos < length buf" using decode_subscription_progress [OF s] by linarith
  then show ?case
    using s Cons.IH [OF raw' drop_prefix_drop [OF d]] by (subst decode_subscriptions.simps) simp
qed

lemma decode_topic_filters_encode:
  "rconcat encode_str fs = Inr raw \<Longrightarrow> drop pos buf = raw \<Longrightarrow>
     decode_topic_filters buf pos acc = Inr (acc @ fs)"
proof (induction fs arbitrary: raw pos acc)
  case Nil
  then show ?case by (subst decode_topic_filters.simps) simp
next
  case (Cons f fs)
  from Cons.prems(1) obtain b raw' where b: "encode_str f = Inr b"
    and raw': "rconcat encode_str fs = Inr raw'" and raw: "raw = b @ raw'" by auto
  have d: "drop pos buf = b @ raw'" using Cons.prems(2) raw by simp
  note s = str_field.field_at [OF b d]
  then show ?case
    using Cons.IH [OF raw' s(2)] by (subst decode_topic_filters.simps) simp
qed

text \<open>The common prefix of SUBSCRIBE, SUBACK and UNSUBSCRIBE: identifier and property block.\<close>

context props_codec
begin

lemma id_props_at:
  assumes "pack_H k = Inr pid" and "encode_v5 v (enc x) = Inr props" and "body = pid @ props @ rest"
  shows "unpack_H body 0 = Inr k" and "\<not> length body < 2"
    and "decode_v5 v dec body 2 = Inr (seen_v5 v (norm x), 2 + length props)"
    and "drop (2 + length props) body = rest"
proof -
  have d0: "drop 0 body = pid @ props @ rest" using assms(3) by simp
  note f0 = pack_H_at [OF assms(1) d0]
  have d2: "drop 2 body = props @ rest" using f0(2) by (simp only: add_0)
  show "unpack_H body 0 = Inr k" "\<not> length body < 2" using f0 by simp_all
  show "decode_v5 v dec body 2 = Inr (seen_v5 v (norm x), 2 + length props)"
    "drop (2 + length props) body = rest"
    using v5_at [OF assms(2) d2] by simp_all
qed

end

lemma decode_subscribe_encode:
  assumes "encode_subscribe p v = Inr bs"
  shows "frames bs v (seen v (Subscribe p))"
proof -
  from assms obtain pid props subs where
    "pack_H (sub_packet_id p) = Inr pid"
    and "encode_v5 v (encode_subscribe_properties (sub_properties p)) = Inr props"
    and subs: "rconcat (encode_subscription v) (sub_subscriptions p) = Inr subs"
    and bp: "build_packet SUBSCRIBE 0b0010 (pid @ props @ subs) = Inr bs"
    by (auto simp: encode_subscribe_def)
  note f = subscribe_v5.id_props_at [OF this(1,2) refl, of subs]
  note g = decode_subscriptions_encode [OF subs f(4), of "[]"]
  show ?thesis
    using f(1-3) g by (intro framesI [OF bp]) (simp_all add: decode_body_def decode_subscribe_def seen_def)
qed

lemma decode_suback_encode:
  assumes "encode_suback p v = Inr bs"
  shows "frames bs v (seen v (SubAck p))"
proof -
  from assms obtain pid props codes where
    "pack_H (sback_packet_id p) = Inr pid"
    and "encode_v5 v (encode_suback_properties (sback_properties p)) = Inr props"
    and codes: "rconcat byte_of (sback_return_codes p) = Inr codes"
    and bp: "build_packet SUBACK 0 (pid @ props @ codes) = Inr bs"
    by (auto simp: encode_suback_def)
  note f = suback_v5.id_props_at [OF this(1,2) refl, of codes]
  show ?thesis
    using f(1-3) f(4) rconcat_byte_of [OF codes]
    by (intro framesI [OF bp]) (simp_all only: decode_body_def decode_suback_def seen_def
        rbind_simps rmap_simps prod.case PacketType.case packet.case if_False, simp_all)
qed

lemma decode_unsubscribe_encode:
  assumes "encode_unsubscribe p v = Inr bs"
  shows "frames bs v (seen v (Unsubscribe p))"
proof -
  from assms obtain pid props topics where
    "pack_H (uns_packet_id p) = Inr pid"
    and "encode_v5 v (encode_unsubscribe_properties (uns_properties p)) = Inr props"
    and topics: "rconcat encode_str (uns_topic_filters p) = Inr topics"
    and bp: "build_packet UNSUBSCRIBE 0b0010 (pid @ props @ topics) = Inr bs"
    by (auto simp: encode_unsubscribe_def)
  note f = unsubscribe_v5.id_props_at [OF this(1,2) refl, of topics]
  note g = decode_topic_filters_encode [OF topics f(4), of "[]"]
  show ?thesis
    using f(1-3) g
    by (intro framesI [OF bp]) (simp_all add: decode_body_def decode_unsubscribe_def seen_def)
qed

lemma decode_unsuback_encode:
  assumes "encode_unsuback p v = Inr bs"
  shows "frames bs v (seen v (UnsubAck p))"
proof (cases "v = V50")
  case True
  with assms obtain pid props codes where
    pid: "pack_H (unsack_packet_id p) = Inr pid"
    and props: "encode_unsuback_properties (unsack_properties p) = Inr props"
    and codes: "rconcat byte_of (unsack_reason_codes p) = Inr codes"
    and bp: "build_packet UNSUBACK 0 (pid @ props @ codes) = Inr bs"
    by (auto simp: encode_unsuback_def)
  define body where "body = pid @ props @ codes"
  have d0: "drop 0 body = pid @ props @ codes" by (simp add: body_def)
  note f0 = pack_H_at [OF pid d0]
  have d2: "drop 2 body = props @ codes" using f0(2) by (simp only: add_0)
  note f1 = unsuback_props.field_at [OF props d2]
  have "decode_body UNSUBACK 0 body v = Inr (seen v (UnsubAck p))"
    using f0 f1 True rconcat_byte_of [OF codes]
    by (simp add: decode_body_def decode_unsuback_def seen_def seen_v5_def)
  with bp show ?thesis by (intro framesI) (simp_all add: body_def)
next
  case False
  with assms obtain pid where pid: "pack_H (unsack_packet_id p) = Inr pid"
    and bp: "build_packet UNSUBACK 0 pid = Inr bs"
    by (auto simp: encode_unsuback_def packet_id_only_def)
  show ?thesis
    using pack_H_at [OF pid, of 0 pid "[]"] False
    by (intro framesI [OF bp]) (simp_all add: decode_body_def decode_unsuback_def seen_def seen_v5_def)
qed

text \<open>A reason code followed by a property block: DISCONNECT and AUTH.\<close>

context wire_field
begin

lemma code_props_at:
  assumes "byte_of k = Inr rc" and "enc x = Inr props" and "body = rc @ props"
  shows "byte_at body 0 = Inr k" and "1 < length body" and "dec body 1 = Inr (norm x, length props)"
proof -
  have d0: "drop 0 body = rc @ props" using assms(3) by simp
  note f0 = byte_of_at [OF assms(1) d0]
  have d1: "drop 1 body = props @ []" using f0(2) by simp
  show "byte_at body 0 = Inr k" "1 < length body" "dec body 1 = Inr (norm x, length props)"
    using f0(1) field_at [OF assms(2) d1] by simp_all
qed

end

lemma decode_disconnect_encode:
  assumes "encode_disconnect p v = Inr bs"
  shows "frames bs v (seen v (Disconnect p))"
proof (cases "v = V50 \<and> (dis_reason_code p \<noteq> 0 \<or> dis_properties p \<noteq> None)")
  case True
  with assms obtain rc props where "byte_of (dis_reason_code p) = Inr rc"
    and "encode_disconnect_properties (dis_properties p) = Inr props"
    and bp: "build_packet DISCONNECT 0 (rc @ props) = Inr bs"
    by (auto simp: encode_disconnect_def)
  note f = disconnect_props.code_props_at [OF this(1,2) refl]
  show ?thesis
    using f True
    by (intro framesI [OF bp]) (simp_all add: decode_body_def decode_disconnect_def seen_def seen_v5_def)
next
  case False
  with assms have bp: "build_packet DISCONNECT 0 [] = Inr bs" by (auto simp: encode_disconnect_def)
  show ?thesis
    using False
    by (intro framesI [OF bp]) (auto simp: decode_body_def decode_disconnect_def seen_def seen_v5_def
        disconnect_props_seen_def)
qed

lemma decode_auth_encode:
  assumes "encode_auth p = Inr bs"
  shows "frames bs v (seen v (Auth p))"
proof -
  from assms obtain rc props where "byte_of (auth_reason_code p) = Inr rc"
    and "encode_auth_properties (auth_properties p) = Inr props"
    and bp: "build_packet AUTH 0 (rc @ props) = Inr bs"
    by (auto simp: encode_auth_def)
  note f = auth_props.code_props_at [OF this(1,2) refl]
  show ?thesis
    using f by (intro framesI [OF bp]) (auto simp: decode_body_def decode_auth_def seen_def)
qed

lemma decode_will_encode:
  assumes "encode_will v w = Inr bs" and "drop pos buf = bs @ rest"
  shows "decode_will v (will_qos w) (will_retain w) buf pos = Inr (seen_will v w, length bs)"
proof -
  from assms(1) obtain props topic payload where
    props: "encode_v5 v (encode_will_properties (will_properties w)) = Inr props" and
    topic: "encode_str (will_topic w) = Inr topic" and
    payload: "encode_bytes_field (will_payload w) = Inr payload" and
    bs: "bs = props @ topic @ payload"
    by (auto simp: encode_will_def)
  have d: "drop pos buf = props @ topic @ payload @ rest" using assms(2) bs by simp
  note f1 = will_v5.v5_at [OF props d]
  note f2 = str_field.field_at [OF topic f1(2)]
  note f3 = bytes_field.field_at [OF payload f2(2)]
  show ?thesis
    using f1(1) f2(1) f3(1) bs by (simp add: decode_will_def seen_will_def Let_def)
qed

lemma optional_will_at:
  assumes "encode_optional (encode_will v) x = Inr bs" and "drop pos buf = bs @ rest"
    and "x \<noteq> None \<Longrightarrow> q = will_qos (the x)" and "x \<noteq> None \<Longrightarrow> r = will_retain (the x)"
  shows "decode_if (x \<noteq> None) (decode_will v q r) buf pos = Inr (map_option (seen_will v) x, pos + length bs)"
    and "drop (pos + length bs) buf = rest"
  using assms decode_will_encode [of v _ bs pos buf rest] drop_prefix_drop [OF assms(2)]
  by (auto simp: encode_optional_def decode_if_def split: option.splits)

lemma decode_connect_encode:
  assumes "encode_connect p v = Inr bs"
  shows "frames bs v (Connect (seen_connect v p))"
proof -
  define flags where "flags = connect_flags (con_clean_session p)
      (map_option (\<lambda>w. (will_qos w, will_retain w)) (con_will p))
      (con_username p \<noteq> None) (con_password p \<noteq> None)"
  define q where "q = (case con_will p of None \<Rightarrow> AT_MOST_ONCE | Some w \<Rightarrow> will_qos w)"
  define r where "r = (case con_will p of None \<Rightarrow> False | Some w \<Rightarrow> will_retain w)"
  from assms obtain name level fl ka props cid will user pass where
    name: "encode_str (str_lit ''MQTT'') = Inr name" and
    level: "byte_of (if v = V50 then 5 else 4) = Inr level" and
    fl: "byte_of flags = Inr fl" and ka: "pack_H (con_keepalive p) = Inr ka" and
    props: "encode_v5 v (encode_connect_properties (con_properties p)) = Inr props" and
    cid: "encode_str (con_client_id p) = Inr cid" and
    will: "encode_optional (encode_will v) (con_will p) = Inr will" and
    user: "encode_optional encode_str (con_username p) = Inr user" and
    pass: "encode_optional encode_bytes_field (con_password p) = Inr pass" and
    bp: "build_packet CONNECT 0 (name @ level @ fl @ ka @ props @ cid @ will @ user @ pass) = Inr bs"
    unfolding encode_connect_def Let_def flags_def by auto
  define body where "body = name @ level @ fl @ ka @ props @ cid @ will @ user @ pass"
  have d0: "drop 0 body = name @ level @ fl @ ka @ props @ cid @ will @ user @ pass @ []"
    by (simp add: body_def)
  note f1 = str_field.field_at [OF name d0]
  note f2 = byte_of_at [OF level f1(2)]
  note f3 = byte_of_at [OF fl f2(2)]
  note f4 = pack_H_at [OF ka f3(2)]
  note f5 = connect_v5.v5_at [OF props f4(2)]
  note f6 = str_field.field_at [OF cid f5(2)]
  have qr: "con_will p \<noteq> None \<Longrightarrow> q = will_qos (the (con_will p))"
    "con_will p \<noteq> None \<Longrightarrow> r = will_retain (the (con_will p))"
    by (auto simp: q_def r_def)
  note f7 = optional_will_at [OF will f6(2) qr]
  note f8 = str_field.optional_at [OF user f7(2)]
  note f9 = bytes_field.optional_at [OF pass f8(2)]
  have qos: "QoS_of (drop_bit 3 flags AND 3) = Inr q" "flags AND 32 = 0 \<longleftrightarrow> \<not> r"
    by (auto simp: flags_def q_def r_def split: option.splits)
  have bits: "flags AND 2 = 0 \<longleftrightarrow> \<not> con_clean_session p" "flags AND 4 = 0 \<longleftrightarrow> con_will p = None"
    "flags AND 128 = 0 \<longleftrightarrow> con_username p = None" "flags AND 64 = 0 \<longleftrightarrow> con_password p = None"
    by (simp_all add: flags_def)
  have "decode_connect body = Inr (seen_connect v p)"
    using f1(1) f2(1) f3(1) f4(1) f5(1) f6(1) f7(1) f8(1) f9(1)
    by (cases v) (simp_all add: decode_connect_def Let_def qos bits seen_connect_def option.map_ident)
  then have "decode_body CONNECT 0 body v = Inr (Connect (seen_connect v p))"
    by (simp add: decode_body_def)
  with bp [folded body_def] show ?thesis by (auto intro!: framesI)
qed

section \<open>The dispatchers\<close>

lemma encode_frames: "encode p v = Inr bs \<Longrightarrow> frames bs v (seen v p)"
proof (cases p)
  case (PubAck a)
  assume "encode p v = Inr bs"
  with PubAck show ?thesis
    by (auto simp: encode_def seen_def decode_body_def dest!: decode_pub_ack_encode intro: framesI)
next
  case (PubRec a)
  assume "encode p v = Inr bs"
  with PubRec show ?thesis
    by (auto simp: encode_def seen_def decode_body_def dest!: decode_pub_ack_encode intro: framesI)
next
  case (PubRel a)
  assume "encode p v = Inr bs"
  with PubRel show ?thesis
    by (auto simp: encode_def seen_def decode_body_def dest!: decode_pub_ack_encode intro: framesI)
next
  case (PubComp a)
  assume "encode p v = Inr bs"
  with PubComp show ?thesis
    by (auto simp: encode_def seen_def decode_body_def dest!: decode_pub_ack_encode intro: framesI)
next
  case PingReq
  assume "encode p v = Inr bs"
  with PingReq show ?thesis
    by (intro framesI [of PINGREQ 0 "[]"]) (simp_all add: encode_def seen_def decode_body_def)
next
  case PingResp
  assume "encode p v = Inr bs"
  with PingResp show ?thesis
    by (intro framesI [of PINGRESP 0 "[]"]) (simp_all add: encode_def seen_def decode_body_def)
qed (auto simp: encode_def seen_def [of v "Connect _"] seen_def [of v "ConnAck _"]
    seen_def [of v "Publish _"]
    dest: decode_connect_encode decode_connack_encode decode_publish_encode decode_subscribe_encode
      decode_suback_encode decode_unsubscribe_encode decode_unsuback_encode decode_disconnect_encode
      decode_auth_encode)

lemma decode_encoded:
  assumes "encode p v = Inr bs" and "fits limit (length bs)"
  shows "decode (bs @ rest) v limit = Inr (Some (seen v p, length bs))"
proof -
  from encode_frames [OF assms(1)] obtain t flags body where
    bp: "build_packet t flags body = Inr bs" "0 \<le> flags" "flags < 16"
    and body: "decode_body t flags body v = Inr (seen v p)"
    by (auto simp: frames_def)
  from decode_build_packet [OF bp assms(2)] body show ?thesis by simp
qed

section \<open>Bytes that arrive later\<close>

lemma remaining_length_loop_append:
  "remaining_length_loop buf i m a \<noteq> Inr None \<Longrightarrow>
     remaining_length_loop (buf @ late) i m a = remaining_length_loop buf i m a"
proof (induction buf i m a rule: remaining_length_loop.induct)
  case (1 buf i m a)
  show ?case
  proof (cases "i \<ge> 4")
    case True
    then show ?thesis by (simp add: remaining_length_loop.simps)
  next
    case i: False
    show ?thesis
    proof (cases "1 + i < length buf")
      case True
      then have n: "(buf @ late) ! (1 + i) = buf ! (1 + i)" by (simp add: nth_append)
      show ?thesis
      proof (cases "uint (buf ! (1 + i)) AND 128 = 0")
        case False
        let ?a = "a + (uint (buf ! (1 + i)) AND 127) * m"
        have s: "remaining_length_loop (buf @ late) i m a
            = remaining_length_loop (buf @ late) (i + 1) (m * 128) ?a"
          "remaining_length_loop buf i m a = remaining_length_loop buf (i + 1) (m * 128) ?a"
          using i True n False by (subst remaining_length_loop.simps, simp add: Let_def)+
        then show ?thesis using "1.IH" [OF _ _ refl refl] i True False "1.prems" by simp
      qed (use i True n in \<open>subst remaining_length_loop.simps, simp add: remaining_length_loop.simps [of buf i] Let_def\<close>)
    next
      case False
      then show ?thesis using i "1.prems" by (simp add: remaining_length_loop.simps [of buf i])
    qed
  qed
qed

lemma remaining_length_loop_bound:
  assumes "remaining_length_loop buf 0 1 0 = Inr (Some (r, n))"
  shows "0 < n \<and> n \<le> 4 \<and> 1 + n \<le> length buf \<and> 0 \<le> r"
proof -
  have "decode_varint buf 1 = Inr (r, n)"
    using assms by (auto simp: remaining_length_loop_eq decode_varint_def split: sum.splits if_splits)
  from decode_varint_bound [OF this] show ?thesis by simp
qed

text \<open>
  What \<^term>\<open>decode\<close> does once the fixed header is complete, and while it is not.
\<close>

lemma decode_header:
  assumes "remaining_length_loop buf 0 1 0 = Inr (Some (r, n))"
  shows "decode buf v limit =
    (if \<not> fits limit (1 + n + nat r) then Inl (PacketTooLargeError (1 + n + nat r) (the limit))
     else if length buf < 1 + n + nat r then Inr None
     else rbind (PacketType_of (drop_bit 4 (uint (buf ! 0)) AND 15)) (\<lambda>t.
       rmap (\<lambda>p. Some (p, 1 + n + nat r))
         (decode_body t (uint (buf ! 0) AND 15) (take (nat r) (drop (1 + n) buf)) v)))"
  using assms remaining_length_loop_bound [OF assms]
  unfolding decode_def by (simp add: Let_def fits_def split: option.split)

lemma decode_incomplete_header:
  "remaining_length_loop buf 0 1 0 = Inr None \<Longrightarrow> decode buf v limit = Inr None"
  by (simp add: decode_def)

lemma decode_bad_header:
  "remaining_length_loop buf 0 1 0 = Inl e \<Longrightarrow> 2 \<le> length buf \<Longrightarrow> decode buf v limit = Inl e"
  by (simp add: decode_def)

lemma decode_short [simp]: "length buf < 2 \<Longrightarrow> decode buf v limit = Inr None"
  by (simp add: decode_def)

lemma decode_append:
  assumes "decode buf v limit \<noteq> Inr None"
  shows "decode (buf @ late) v limit = decode buf v limit"
proof -
  have l2: "2 \<le> length buf" using assms decode_short by (meson not_less)
  have "remaining_length_loop buf 0 1 0 \<noteq> Inr None" using assms decode_incomplete_header by metis
  note h = remaining_length_loop_append [OF this, of late]
  from l2 have fb: "(buf @ late) ! 0 = buf ! 0" by (cases buf) simp_all
  show ?thesis
  proof (cases "remaining_length_loop buf 0 1 0")
    case (Inl e)
    with h l2 show ?thesis by (simp add: decode_bad_header)
  next
    case (Inr header)
    with assms obtain r n where hd: "remaining_length_loop buf 0 1 0 = Inr (Some (r, n))"
      by (cases header) (auto simp: decode_incomplete_header)
    from assms have "fits limit (1 + n + nat r) \<Longrightarrow> 1 + n + nat r \<le> length buf"
      by (simp add: decode_header [OF hd] split: if_splits)
    moreover from h hd have "remaining_length_loop (buf @ late) 0 1 0 = Inr (Some (r, n))" by simp
    ultimately show ?thesis by (auto simp: decode_header [OF hd] decode_header fb)
  qed
qed

lemma decode_Some_bound:
  assumes "decode buf v limit = Inr (Some (p, n))"
  shows "2 \<le> n" and "n \<le> length buf"
proof -
  have l2: "2 \<le> length buf" using assms by (cases "length buf < 2") auto
  with assms obtain r k where hd: "remaining_length_loop buf 0 1 0 = Inr (Some (r, k))"
    by (cases "remaining_length_loop buf 0 1 0") (auto simp: decode_bad_header decode_incomplete_header,
        metis decode_incomplete_header option.exhaust prod.exhaust sum.inject(2) option.distinct(1))
  note b = remaining_length_loop_bound [OF hd]
  from assms have "n = 1 + k + nat r" "1 + k + nat r \<le> length buf"
    by (auto simp: decode_header [OF hd] split: if_splits)
  with b show "2 \<le> n" and "n \<le> length buf" by auto
qed

text \<open>
  A packet cut short is not decoded and raises nothing: the reader waits for the rest.
\<close>

lemma decode_cut_short:
  assumes "encode p v = Inr bs" and "fits limit (length bs)" and "k < length bs"
  shows "decode (take k bs) v limit = Inr None"
proof (rule ccontr)
  assume ne: "decode (take k bs) v limit \<noteq> Inr None"
  have "decode bs v limit = decode (take k bs) v limit"
    using decode_append [OF ne, of "drop k bs"] by simp
  with decode_encoded [OF assms(1,2), of "[]"]
  have "decode (take k bs) v limit = Inr (Some (seen v p, length bs))" by simp
  from decode_Some_bound(2) [OF this] assms(3) show False by simp
qed

text \<open>
  An oversized packet is refused from its fixed header, at most five bytes, alone.
\<close>

lemma decode_too_large:
  assumes "encode p v = Inr bs" and "l < int (length bs)" and "5 \<le> k"
  shows "decode (take k bs) v (Some l) = Inl (PacketTooLargeError (length bs) l)"
proof -
  from encode_frames [OF assms(1)] obtain t flags body where
    bp: "build_packet t flags body = Inr bs" "0 \<le> flags" "flags < 16"
    by (auto simp: frames_def)
  then obtain len where len: "encode_varint (int (length body)) = Inr len"
    and bs: "bs = word_of_int (16 * packet_type_value t + flags) # len @ body"
    using build_packet_Inr by blast
  have "length len \<le> 4"
    using decode_varint_bound [OF decode_varint_encode [OF len, of 0 len "[]"]] by simp
  with assms(3) have "drop 1 (take k bs) = len @ take (k - 1 - length len) body"
    by (simp add: bs drop_take)
  from varint.field_at(1) [OF len this]
  have "remaining_length_loop (take k bs) 0 1 0 = Inr (Some (int (length body), length len))"
    by (simp add: remaining_length_loop_eq decode_varint_def)
  from decode_header [OF this, of v "Some l"] assms(2) show ?thesis
    by (simp add: fits_def bs)
qed

lemma props_seen_idem [simp]:
  "connect_props_seen (connect_props_seen a) = connect_props_seen a"
  "will_props_seen (will_props_seen b) = will_props_seen b"
  "connack_props_seen (connack_props_seen c) = connack_props_seen c"
  "publish_props_seen (publish_props_seen d) = publish_props_seen d"
  "puback_props_seen (puback_props_seen e) = puback_props_seen e"
  "subscribe_props_seen (subscribe_props_seen f) = subscribe_props_seen f"
  "suback_props_seen (suback_props_seen g) = suback_props_seen g"
  "unsubscribe_props_seen (unsubscribe_props_seen h) = unsubscribe_props_seen h"
  "unsuback_props_seen (unsuback_props_seen i) = unsuback_props_seen i"
  "disconnect_props_seen (disconnect_props_seen j) = disconnect_props_seen j"
  "auth_props_seen (auth_props_seen k) = auth_props_seen k"
  by (simp_all add: connect_props_seen_def will_props_seen_def connack_props_seen_def
      publish_props_seen_def puback_props_seen_def subscribe_props_seen_def suback_props_seen_def
      unsubscribe_props_seen_def unsuback_props_seen_def disconnect_props_seen_def auth_props_seen_def)

lemma seen_v5_idem [simp]: "seen_v5 v (seen_v5 v x) = seen_v5 v x"
  by (simp add: seen_v5_def)

lemma seen_parts_idem:
  "seen_will v (seen_will v w) = seen_will v w"
  "seen_subscription v (seen_subscription v r) = seen_subscription v r"
  by (simp_all add: seen_will_def seen_subscription_def seen_v5_def)

lemma seen_idem: "seen v (seen v p) = seen v p"
  by (cases p)
     (simp_all add: seen_def seen_connect_def seen_publish_def seen_pub_ack_def seen_parts_idem
       seen_v5_def option.map_comp comp_def)

section \<open>Properties\<close>

text \<open>
  C1: the packet codec round-trips for every packet type and both protocol versions: decoding
  an encoded packet, whatever bytes follow it, gives the packet as a receiver of that version
  sees it and the exact number of bytes it occupies.
\<close>

theorem codec_roundtrip:
  assumes "encode p v = Inr bs" and "fits limit (length bs)"
  shows "decode (bs @ rest) v limit = Inr (Some (seen v p, length bs))"
  using assms by (rule decode_encoded)

definition sample_publish :: packet where
  "sample_publish = Publish
     \<lparr>pub_topic = str_lit ''a/b'', pub_payload = [1, 2], pub_qos = AT_LEAST_ONCE, pub_retain = False,
      pub_dup = False, pub_packet_id = Some 7,
      pub_properties = Some
        \<lparr>pp_payload_format_indicator = None, pp_message_expiry_interval = Some 60,
         pp_topic_alias = None, pp_response_topic = Some (str_lit ''r''),
         pp_correlation_data = Some [9], pp_subscription_identifier = None,
         pp_content_type = None, pp_user_properties = [(str_lit ''k'', str_lit ''v'')]\<rparr>\<rparr>"

definition sample_bytes :: bytes where
  "sample_bytes =
     [50, 30, 0, 3, 97, 47, 98, 0, 7, 20, 2, 0, 0, 0, 60, 8, 0, 1, 114, 9, 0, 1, 9, 38, 0, 1, 107,
      0, 1, 118, 1, 2]"

lemma sample_encode: "encode sample_publish V50 = Inr sample_bytes"
  by code_simp

lemma sample_seen: "seen V50 sample_publish = sample_publish"
  by code_simp

lemma sample_length: "length sample_bytes = 32"
  by (simp add: sample_bytes_def)

theorem codec_roundtrip_witness:
  "encode sample_publish V50 = Inr sample_bytes
   \<and> decode (sample_bytes @ [0xC0, 0]) V50 (Some 100) = Inr (Some (sample_publish, 32))"
  using codec_roundtrip [OF sample_encode, of "Some 100" "[0xC0, 0]"]
  by (simp add: sample_encode sample_seen sample_length fits_def)

text \<open>
  what a receiver sees of a packet is a fixed point: encoding and decoding a packet that was
  received changes nothing further.  So the only information the codec loses is what \<open>seen\<close>
  drops: version 5 fields under 3.1.1, the packet id of a QoS 0 publish, and the difference
  between empty and absent properties.
\<close>

theorem codec_second_trip:
  assumes "encode (seen v p) v = Inr bs" and "fits limit (length bs)"
  shows "decode (bs @ rest) v limit = Inr (Some (seen v p, length bs))"
  using decode_encoded [OF assms] by (simp add: seen_idem)

theorem codec_second_trip_witness:
  "decode sample_bytes V50 None = Inr (Some (seen V50 sample_publish, 32))"
  using codec_second_trip [of V50 sample_publish sample_bytes None "[]"]
  by (simp add: sample_encode sample_seen sample_length fits_def)

text \<open>
  every proper prefix of an encoded packet is reported as incomplete, never as an error and
  never as another packet.
\<close>

theorem decode_incomplete:
  assumes "encode p v = Inr bs" and "fits limit (length bs)" and "k < length bs"
  shows "decode (take k bs) v limit = Inr None"
  using assms by (rule decode_cut_short)

theorem decode_incomplete_witness: "decode (take 31 sample_bytes) V50 None = Inr None"
  using decode_incomplete [OF sample_encode, of None 31] by (simp add: sample_length fits_def)

text \<open>
  C38: a packet over the configured maximum size is refused as soon as its fixed header is in the
  buffer (five bytes suffice), with the size it announces and the limit.
\<close>

theorem decode_oversized:
  assumes "encode p v = Inr bs" and "l < int (length bs)" and "5 \<le> k"
  shows "decode (take k bs) v (Some l) = Inl (PacketTooLargeError (length bs) l)"
  using assms by (rule decode_too_large)

theorem decode_oversized_witness:
  "decode (take 5 sample_bytes) V50 (Some 31) = Inl (PacketTooLargeError 32 31)"
  using decode_oversized [OF sample_encode, of 31 5] by (simp add: sample_length)

text \<open>
  once \<open>decode\<close> has an answer, a packet or an error, bytes that arrive later do not change
  it, and the bytes it consumes are at least two and are in the buffer.
\<close>

theorem decode_stable:
  assumes "decode buf v limit \<noteq> Inr None"
  shows "decode (buf @ late) v limit = decode buf v limit
    \<and> (\<forall>p n. decode buf v limit = Inr (Some (p, n)) \<longrightarrow> 2 \<le> n \<and> n \<le> length buf)"
  using decode_append [OF assms] decode_Some_bound by blast

theorem decode_stable_witness:
  "decode ([0xC0, 0] @ [7]) V311 None = decode [0xC0, 0] V311 None"
proof -
  have "decode [0xC0, 0] V311 None \<noteq> Inr None" by code_simp
  from decode_stable [OF this, of "[7]"] show ?thesis by blast
qed

end
