(* ===== verification/Reader.thy ===== *)
theory Reader
  imports Codec_Correct
begin

text \<open>
  The incremental reader of \<open>packets/reader.py\<close>.  \<open>PacketBuffer\<close> is the record of the class's fields
  and, in \<open>pb_views\<close>, the number of memoryviews exported on the bytearray, on which \<open>feed\<close> depends.
  \<open>__iter__\<close> is a generator: its state is a \<open>generator\<close> value, \<open>iter_next\<close> runs it to its next yield,
  return or raise, \<open>iter_close\<close> is what leaving the loop early does, and \<open>iterate\<close> is a \<open>for\<close> loop
  over it that runs to the end.  \<open>read_loop\<close> is \<open>_read_loop\<close> of \<open>protocol.py\<close> on the reads of a
  connection, with the packets it dispatches as its result: drain the buffer, feed the next
  read, repeat, stop at the first exception.

  The reference is \<open>parse_stream\<close>, which parses the whole byte stream at once.  The main fact is
  that the packets and the error \<open>read_loop\<close> produces are those of \<open>parse_stream\<close> on the
  concatenation, so they do not depend on how the stream was cut into reads.
\<close>

section \<open>The buffer and its iterator\<close>

record PacketBuffer =
  pb_buf :: bytes
  pb_offset :: nat
  pb_version :: version
  pb_max_packet_size :: "int option"
  pb_views :: nat

definition PacketBuffer_init :: "version \<Rightarrow> int option \<Rightarrow> PacketBuffer" where
  "PacketBuffer_init version max_packet_size =
     \<lparr>pb_buf = [], pb_offset = 0, pb_version = version, pb_max_packet_size = max_packet_size,
      pb_views = 0\<rparr>"

text \<open>
  \<open>feed\<close>.  Resizing a bytearray while a view on it is exported raises \<open>BufferError\<close>, which is None
  here: deleting a non-empty prefix resizes, and so does appending a non-empty chunk.
\<close>

definition feed :: "bytes \<Rightarrow> PacketBuffer \<Rightarrow> PacketBuffer option" where
  "feed data b =
     (let cut = (if pb_offset b \<noteq> 0
                 then (if pb_views b \<noteq> 0 then None
                       else Some (b\<lparr>pb_buf := drop (pb_offset b) (pb_buf b), pb_offset := 0\<rparr>))
                 else Some b)
      in case cut of
           None \<Rightarrow> None
         | Some b \<Rightarrow>
             if pb_views b \<noteq> 0 \<and> data \<noteq> [] then None
             else Some (b\<lparr>pb_buf := pb_buf b @ data\<rparr>))"

datatype generator = Fresh | Running | Finished

datatype outcome = Yield packet | StopIteration | Raise py_error

text \<open>One call of \<open>__next__\<close>: the view is taken on the first, and released when the body ends.\<close>

definition iter_next :: "generator \<Rightarrow> PacketBuffer \<Rightarrow> outcome \<times> generator \<times> PacketBuffer" where
  "iter_next g b =
     (if g = Finished then (StopIteration, Finished, b)
      else
      let b = (if g = Fresh then b\<lparr>pb_views := pb_views b + 1\<rparr> else b);
          released = b\<lparr>pb_views := pb_views b - 1\<rparr>
      in
      case decode (drop (pb_offset b) (pb_buf b)) (pb_version b) (pb_max_packet_size b) of
        Inl e \<Rightarrow> (Raise e, Finished, released)
      | Inr None \<Rightarrow> (StopIteration, Finished, released)
      | Inr (Some (packet, consumed)) \<Rightarrow>
          (Yield packet, Running, b\<lparr>pb_offset := pb_offset b + consumed\<rparr>))"

definition iter_close :: "generator \<Rightarrow> PacketBuffer \<Rightarrow> generator \<times> PacketBuffer" where
  "iter_close g b = (Finished, if g = Running then b\<lparr>pb_views := pb_views b - 1\<rparr> else b)"

text \<open>A \<open>for\<close> loop over the iterator: the packets, the exception that ended it, the buffer after.\<close>

lemma iter_next_progress:
  assumes "iter_next g b = (Yield p, g', b')"
  shows "length (pb_buf b') - pb_offset b' < length (pb_buf b) - pb_offset b"
proof -
  from assms obtain n where
    d: "decode (drop (pb_offset b) (pb_buf b)) (pb_version b) (pb_max_packet_size b) = Inr (Some (p, n))"
    and b': "pb_buf b' = pb_buf b" "pb_offset b' = pb_offset b + n"
    by (auto simp: iter_next_def Let_def split: if_splits sum.splits option.splits)
  from decode_Some_bound [OF d] show ?thesis unfolding b' by simp
qed

function iterate :: "generator \<Rightarrow> PacketBuffer \<Rightarrow> packet list \<times> py_error option \<times> PacketBuffer" where
  "iterate g b =
     (case iter_next g b of
        (Yield p, g', b') \<Rightarrow> (let (ps, e, b'') = iterate g' b' in (p # ps, e, b''))
      | (StopIteration, g', b') \<Rightarrow> ([], None, b')
      | (Raise e, g', b') \<Rightarrow> ([], Some e, b'))"
  by pat_completeness auto
termination
  by (relation "measure (\<lambda>(g, b). length (pb_buf b) - pb_offset b)")
     (auto dest: iter_next_progress [OF sym])

declare iterate.simps [simp del]

fun read_loop :: "bytes list \<Rightarrow> PacketBuffer \<Rightarrow> (packet list \<times> py_error option \<times> PacketBuffer) option" where
  "read_loop [] b = Some (iterate Fresh b)"
| "read_loop (data # reads) b =
     (case iterate Fresh b of
        (ps, Some e, b1) \<Rightarrow> Some (ps, Some e, b1)
      | (ps, None, b1) \<Rightarrow>
          (case feed data b1 of
             None \<Rightarrow> None
           | Some b2 \<Rightarrow> map_option (\<lambda>(qs, e, b3). (ps @ qs, e, b3)) (read_loop reads b2)))"

section \<open>Parsing the whole stream\<close>

lemma decode_progress:
  "decode bs v limit = Inr (Some (p, n)) \<Longrightarrow> length bs - n < length bs"
  using decode_Some_bound [of bs v limit p n] by linarith

function parse_stream :: "version \<Rightarrow> int option \<Rightarrow> bytes \<Rightarrow> packet list \<times> py_error option \<times> bytes" where
  "parse_stream v limit bs =
     (case decode bs v limit of
        Inl e \<Rightarrow> ([], Some e, bs)
      | Inr None \<Rightarrow> ([], None, bs)
      | Inr (Some (p, n)) \<Rightarrow>
          (let (ps, e, left) = parse_stream v limit (drop n bs) in (p # ps, e, left)))"
  by pat_completeness auto
termination
  by (relation "measure (\<lambda>(v, limit, bs). length bs)")
     (auto dest: decode_progress)

declare parse_stream.simps [simp del]

lemma parse_stream_simps:
  "decode bs v limit = Inl e \<Longrightarrow> parse_stream v limit bs = ([], Some e, bs)"
  "decode bs v limit = Inr None \<Longrightarrow> parse_stream v limit bs = ([], None, bs)"
  "decode bs v limit = Inr (Some (p, n)) \<Longrightarrow> parse_stream v limit bs =
     (case parse_stream v limit (drop n bs) of (ps, e, left) \<Rightarrow> (p # ps, e, left))"
  by (simp_all add: parse_stream.simps [of v limit bs] Let_def)

text \<open>What was parsed stays parsed when more bytes follow; the unparsed rest is parsed with them.\<close>

lemma parse_stream_append:
  assumes "parse_stream v limit bs = (ps, e, left)"
  shows "parse_stream v limit (bs @ late) =
    (case e of
       Some x \<Rightarrow> (ps, Some x, left @ late)
     | None \<Rightarrow> (case parse_stream v limit (left @ late) of (qs, e', left') \<Rightarrow> (ps @ qs, e', left')))"
  using assms
proof (induction v limit bs arbitrary: ps rule: parse_stream.induct)
  case (1 v limit bs)
  consider x where "decode bs v limit = Inl x" | "decode bs v limit = Inr None"
    | p n where "decode bs v limit = Inr (Some (p, n))"
    by (cases "decode bs v limit") (auto, metis option.exhaust prod.exhaust)
  then show ?case
  proof cases
    case 1
    then have "decode (bs @ late) v limit = Inl x" by (simp add: decode_append)
    with 1 "1.prems" show ?thesis by (auto simp: parse_stream_simps)
  next
    case 2
    with "1.prems" show ?thesis by (auto simp: parse_stream_simps)
  next
    case (3 p n)
    then have d: "decode (bs @ late) v limit = Inr (Some (p, n))" by (simp add: decode_append)
    have n: "n - length bs = 0" using decode_Some_bound(2) [OF 3] by simp
    from "1.prems" 3 obtain ps' where ps: "ps = p # ps'" "parse_stream v limit (drop n bs) = (ps', e, left)"
      by (auto simp: parse_stream_simps split: prod.splits)
    from "1.IH" [OF 3 refl refl ps(2)] show ?thesis
      by (auto simp: parse_stream_simps(3) [OF d] n ps(1) split: option.splits prod.splits)
  qed
qed

text \<open>The bytes a buffer has not parsed, and the loop over the buffer as the loop over them.\<close>

definition pending :: "PacketBuffer \<Rightarrow> bytes" where
  "pending b = drop (pb_offset b) (pb_buf b)"

definition settled :: "version \<Rightarrow> int option \<Rightarrow> PacketBuffer \<Rightarrow> bool" where
  "settled v limit b \<longleftrightarrow> pb_version b = v \<and> pb_max_packet_size b = limit \<and> pb_views b = 0"

lemma iterate_running:
  assumes "pb_views b = 1"
    and "parse_stream (pb_version b) (pb_max_packet_size b) (pending b) = (ps, e, left)"
  shows "\<exists>b'. iterate Running b = (ps, e, b') \<and> pending b' = left
           \<and> settled (pb_version b) (pb_max_packet_size b) b'"
  using assms
proof (induction "length (pb_buf b) - pb_offset b" arbitrary: b ps rule: less_induct)
  case less
  let ?v = "pb_version b" let ?l = "pb_max_packet_size b"
  consider x where "decode (pending b) ?v ?l = Inl x" | "decode (pending b) ?v ?l = Inr None"
    | p n where "decode (pending b) ?v ?l = Inr (Some (p, n))"
    by (cases "decode (pending b) ?v ?l") (auto, metis option.exhaust prod.exhaust)
  then show ?case
  proof cases
    case 1
    then show ?thesis using less.prems
      by (auto simp: iterate.simps [of Running b] iter_next_def parse_stream_simps pending_def settled_def)
  next
    case 2
    then show ?thesis using less.prems
      by (auto simp: iterate.simps [of Running b] iter_next_def parse_stream_simps pending_def settled_def)
  next
    case (3 p n)
    define b1 where "b1 = b\<lparr>pb_offset := pb_offset b + n\<rparr>"
    from 3 have nx: "iter_next Running b = (Yield p, Running, b1)"
      by (simp add: iter_next_def b1_def pending_def)
    have b1: "pb_views b1 = 1" "pb_version b1 = ?v" "pb_max_packet_size b1 = ?l"
      "pending b1 = drop n (pending b)"
      using less.prems by (simp_all add: b1_def pending_def add.commute)
    from 3 less.prems(2) obtain qs where qs: "ps = p # qs" "parse_stream ?v ?l (pending b1) = (qs, e, left)"
      by (auto simp: parse_stream_simps b1 split: prod.splits)
    from less.hyps [OF iter_next_progress [OF nx] b1(1)] qs show ?thesis
      by (auto simp: iterate.simps [of Running b] nx b1(2-))
  qed
qed

text \<open>The first \<open>__next__\<close> only takes the view.\<close>

lemma iterate_fresh: "iterate Fresh b = iterate Running (b\<lparr>pb_views := pb_views b + 1\<rparr>)"
proof -
  have "iter_next Fresh b = iter_next Running (b\<lparr>pb_views := pb_views b + 1\<rparr>)"
    by (simp add: iter_next_def Let_def)
  then show ?thesis by (subst (1 2) iterate.simps) simp
qed

lemma iterate_parse:
  assumes "settled v limit b" and "parse_stream v limit (pending b) = (ps, e, left)"
  shows "\<exists>b'. iterate Fresh b = (ps, e, b') \<and> pending b' = left \<and> settled v limit b'"
  using iterate_running [of "b\<lparr>pb_views := pb_views b + 1\<rparr>" ps e left] assms
  by (simp add: iterate_fresh settled_def pending_def)

lemma feed_settled:
  assumes "settled v limit b"
  shows "\<exists>b'. feed data b = Some b' \<and> pending b' = pending b @ data \<and> settled v limit b'
           \<and> pb_offset b' = 0"
  using assms by (auto simp: feed_def pending_def settled_def Let_def)

lemma read_loop_parse:
  assumes "settled v limit b" and "parse_stream v limit (pending b @ concat cs) = (ps, e, left)"
  shows "\<exists>b'. read_loop cs b = Some (ps, e, b') \<and> settled v limit b' \<and> (e = None \<longrightarrow> pending b' = left)"
  using assms
proof (induction cs arbitrary: b ps)
  case Nil
  then show ?case using iterate_parse [of v limit b ps e left] by auto
next
  case (Cons c cs)
  obtain qs e1 left1 where q: "parse_stream v limit (pending b) = (qs, e1, left1)"
    by (metis prod.exhaust)
  from iterate_parse [OF Cons.prems(1) q] obtain b1 where
    b1: "iterate Fresh b = (qs, e1, b1)" "pending b1 = left1" "settled v limit b1" by blast
  note app = parse_stream_append [OF q, of "c @ concat cs"]
  show ?case
  proof (cases e1)
    case (Some x)
    with app Cons.prems(2) b1 show ?thesis by auto
  next
    case None
    from feed_settled [OF b1(3)] obtain b2 where
      b2: "feed c b1 = Some b2" "pending b2 = pending b1 @ c" "settled v limit b2" by blast
    from None app Cons.prems(2) obtain ps' where ps: "ps = qs @ ps'"
      and r: "parse_stream v limit (pending b2 @ concat cs) = (ps', e, left)"
      by (auto simp: b1 b2 split: prod.splits)
    from Cons.IH [OF b2(3) r] show ?thesis using b1 b2 None ps by auto
  qed
qed

lemma init_settled: "settled v limit (PacketBuffer_init v limit)"
  by (simp add: settled_def PacketBuffer_init_def)

lemma init_pending [simp]: "pending (PacketBuffer_init v limit) = []"
  by (simp add: pending_def PacketBuffer_init_def)

section \<open>Streams of encoded packets\<close>

lemma parse_stream_encoded:
  assumes "list_all2 (\<lambda>p bs. encode p v = Inr bs \<and> fits limit (length bs)) packets wires"
    and "decode rest v limit = Inr None"
  shows "parse_stream v limit (concat wires @ rest) = (map (seen v) packets, None, rest)"
  using assms
proof (induction rule: list_all2_induct)
  case (Cons p packets bs wires)
  then have "decode (bs @ concat wires @ rest) v limit = Inr (Some (seen v p, length bs))"
    by (intro decode_encoded) simp_all
  with Cons show ?case by (simp add: parse_stream_simps)
qed (simp add: parse_stream_simps)

section \<open>Properties\<close>

text \<open>
  the packets and the error the reader produces do not depend on how the byte stream was cut
  into reads: they are those of a single read of the whole stream, and feeding never fails.
\<close>

theorem reader_chunking:
  "map_option (\<lambda>(ps, e, b). (ps, e)) (read_loop cs (PacketBuffer_init v limit))
     = Some (case parse_stream v limit (concat cs) of (ps, e, left) \<Rightarrow> (ps, e))
   \<and> map_option (\<lambda>(ps, e, b). (ps, e)) (read_loop [concat cs] (PacketBuffer_init v limit))
     = map_option (\<lambda>(ps, e, b). (ps, e)) (read_loop cs (PacketBuffer_init v limit))"
proof -
  obtain ps e left where p: "parse_stream v limit (concat cs) = (ps, e, left)" by (metis prod.exhaust)
  have "\<exists>b'. read_loop ds (PacketBuffer_init v limit) = Some (ps, e, b')"
    if "concat ds = concat cs" for ds
    using read_loop_parse [OF init_settled, of v limit ds ps e left] p that by auto
  from this [of cs] this [of "[concat cs]"] p show ?thesis by auto
qed

text \<open>
  C2: a stream of encoded packets, cut in any way and possibly ending in the middle of a packet,
  yields exactly those packets in order, raises nothing, and keeps the unfinished rest.
\<close>

theorem reader_delivers:
  assumes "list_all2 (\<lambda>p bs. encode p v = Inr bs \<and> fits limit (length bs)) packets wires"
    and "decode rest v limit = Inr None" and "concat cs = concat wires @ rest"
  shows "\<exists>b. read_loop cs (PacketBuffer_init v limit) = Some (map (seen v) packets, None, b)
           \<and> drop (pb_offset b) (pb_buf b) = rest"
  using read_loop_parse [OF init_settled, of v limit cs "map (seen v) packets" None rest]
    parse_stream_encoded [OF assms(1,2)] assms(3) by (auto simp: pending_def [symmetric])

theorem reader_delivers_witness:
  "\<exists>b. read_loop [take 3 sample_bytes, drop 3 sample_bytes @ [0xC0], [0, 0xC0]] (PacketBuffer_init V50 None)
       = Some ([sample_publish, PingReq], None, b) \<and> drop (pb_offset b) (pb_buf b) = [0xC0]"
proof -
  have ping: "encode PingReq V50 = Inr [0xC0, 0]" by code_simp
  have "decode [0xC0] V50 None = Inr None" by simp
  moreover have "list_all2 (\<lambda>p bs. encode p V50 = Inr bs \<and> fits None (length bs))
      [sample_publish, PingReq] [sample_bytes, [0xC0, 0]]"
    by (simp add: sample_encode ping fits_def)
  ultimately show ?thesis
    using reader_delivers [of V50 None "[sample_publish, PingReq]" "[sample_bytes, [0xC0, 0]]" "[0xC0]"
        "[take 3 sample_bytes, drop 3 sample_bytes @ [0xC0], [0, 0xC0]]"]
    by (simp add: sample_seen seen_def [of V50 PingReq])
qed

text \<open>
  while an iteration is suspended after a packet, \<open>feed\<close> raises \<open>BufferError\<close>, whatever it is
  given; once the iterator is closed it succeeds and keeps every unparsed byte.
\<close>

theorem feed_mid_iteration:
  assumes "pb_views b = 0" and "iter_next Fresh b = (Yield p, g, b')"
  shows "feed data b' = None
    \<and> (\<exists>c. feed data (snd (iter_close g b')) = Some c
           \<and> drop (pb_offset c) (pb_buf c) = drop (pb_offset b') (pb_buf b') @ data)"
proof -
  from assms obtain n where
    d: "decode (drop (pb_offset b) (pb_buf b)) (pb_version b) (pb_max_packet_size b) = Inr (Some (p, n))"
    and b': "b' = b\<lparr>pb_views := 1, pb_offset := pb_offset b + n\<rparr>" and g: "g = Running"
    by (auto simp: iter_next_def Let_def split: sum.splits option.splits)
  from decode_Some_bound(1) [OF d] have "n \<noteq> 0" by simp
  then have "feed data b' = None" by (simp add: b' feed_def)
  moreover have "\<exists>c. feed data (snd (iter_close g b')) = Some c
           \<and> drop (pb_offset c) (pb_buf c) = drop (pb_offset b') (pb_buf b') @ data"
    using assms(1) by (simp add: g b' iter_close_def feed_def)
  ultimately show ?thesis ..
qed

theorem feed_mid_iteration_witness:
  "feed [1] (snd (snd (iter_next Fresh
     \<lparr>pb_buf = [0xC0, 0], pb_offset = 0, pb_version = V311, pb_max_packet_size = None, pb_views = 0\<rparr>)))
   = None"
proof -
  let ?b = "\<lparr>pb_buf = [0xC0, 0], pb_offset = 0, pb_version = V311, pb_max_packet_size = None,
    pb_views = 0\<rparr>"
  have "iter_next Fresh ?b = (Yield PingReq, Running, ?b\<lparr>pb_views := 1, pb_offset := 2\<rparr>)"
    by code_simp
  from feed_mid_iteration [OF _ this, of "[1]"] this show ?thesis by simp
qed

end
