(* ===== verification/Packet_Ids.thy ===== *)
theory Packet_Ids
  imports Mqtt_Prelude
begin

text \<open>
  The packet id pool of \<open>state.py\<close>.  \<open>acquire\<close> searches from \<open>_next\<close> for an id that is not in use,
  with a \<open>while\<close> loop that would not end on a full pool; \<open>acquire_loop\<close> is a partial function, so
  that not returning is None.  The locale \<open>id_allocator\<close> is what the protocol relies on; the pool
  interprets it, and any sequence of acquisitions and releases keeps the ids that are held apart.
  The pool does more than the interface asks: it always hands out the smallest free id.
\<close>

section \<open>Definitions\<close>

record PacketIdPool =
  pool_next :: int
  pool_in_use :: "int set"

definition PacketIdPool_init :: PacketIdPool where
  "PacketIdPool_init = \<lparr>pool_next = 1, pool_in_use = {}\<rparr>"

datatype pool_error = RuntimeError string

partial_function (option) acquire_loop :: "int set \<Rightarrow> int \<Rightarrow> int option" where
  "acquire_loop in_use n =
     (if n \<in> in_use then acquire_loop in_use (n mod 65535 + 1) else Some n)"

definition acquire :: "PacketIdPool \<Rightarrow> (pool_error + int \<times> PacketIdPool) option" where
  "acquire pool =
     (if card (pool_in_use pool) \<ge> 65535
      then Some (Inl (RuntimeError ''All 65535 packet IDs are in use''))
      else map_option
        (\<lambda>pid. Inr (pid, \<lparr>pool_next = pid mod 65535 + 1, pool_in_use = insert pid (pool_in_use pool)\<rparr>))
        (acquire_loop (pool_in_use pool) (pool_next pool)))"

definition release :: "int \<Rightarrow> PacketIdPool \<Rightarrow> PacketIdPool" where
  "release pid pool =
     \<lparr>pool_next = min (pool_next pool) pid, pool_in_use = pool_in_use pool - {pid}\<rparr>"

section \<open>The interface\<close>

text \<open>
  A client's history, from a pool \<open>p\<close> and the ids \<open>hs\<close> it holds: it acquires, and releases the id at
  any position of its list, newest first.
\<close>

inductive history ::
  "('p \<Rightarrow> ('e + 'i \<times> 'p) option) \<Rightarrow> ('i \<Rightarrow> 'p \<Rightarrow> 'p) \<Rightarrow> 'p \<Rightarrow> 'i list \<Rightarrow> 'p \<Rightarrow> 'i list \<Rightarrow> bool"
  for acq :: "'p \<Rightarrow> ('e + 'i \<times> 'p) option" and rel :: "'i \<Rightarrow> 'p \<Rightarrow> 'p" and p :: 'p and hs :: "'i list" where
  start: "history acq rel p hs p hs"
| got: "history acq rel p hs q is \<Longrightarrow> acq q = Some (Inr (i, q')) \<Longrightarrow> history acq rel p hs q' (i # is)"
| gave: "history acq rel p hs q (is @ i # js) \<Longrightarrow> history acq rel p hs (rel i q) (is @ js)"

text \<open>
  An allocator of ids from a set \<open>ids\<close>: acquiring gives an id that is free, as long as there is
  one, and releasing frees exactly the id it is given.
\<close>

locale id_allocator =
  fixes ids :: "'i set"
    and inv :: "'p \<Rightarrow> bool"
    and used :: "'p \<Rightarrow> 'i set"
    and acq :: "'p \<Rightarrow> ('e + 'i \<times> 'p) option"
    and rel :: "'i \<Rightarrow> 'p \<Rightarrow> 'p"
  assumes finite_ids: "finite ids"
    and used_ids: "inv p \<Longrightarrow> used p \<subseteq> ids"
    and acq_free: "inv p \<Longrightarrow> used p \<noteq> ids \<Longrightarrow>
      \<exists>i p'. acq p = Some (Inr (i, p')) \<and> i \<in> ids - used p \<and> used p' = insert i (used p) \<and> inv p'"
    and acq_full: "inv p \<Longrightarrow> used p = ids \<Longrightarrow> \<exists>e. acq p = Some (Inl e)"
    and rel_used: "inv p \<Longrightarrow> i \<in> ids \<Longrightarrow> used (rel i p) = used p - {i} \<and> inv (rel i p)"
begin

lemma acq_cases:
  assumes "inv p" and "acq p = Some (Inr (i, p'))"
  shows "i \<in> ids - used p \<and> used p' = insert i (used p) \<and> inv p'"
  using acq_free [OF assms(1)] acq_full [OF assms(1)] assms(2) by (cases "used p = ids") auto

lemma held_distinct:
  "history acq rel p hs q is \<Longrightarrow> inv p \<Longrightarrow> distinct hs \<Longrightarrow> set hs = used p \<Longrightarrow>
     inv q \<and> distinct is \<and> set is = used q"
proof (induction rule: history.induct)
  case (got q "is" i q')
  then show ?case using acq_cases by fastforce
next
  case (gave q "is" i js)
  then have "i \<in> ids" using used_ids by fastforce
  with gave rel_used [of q i] show ?case by auto
qed auto

lemma held_bound:
  assumes "history acq rel p [] q is" and "inv p" and "used p = {}"
  shows "length is \<le> card ids"
proof -
  from held_distinct [OF assms(1)] assms have "distinct is" "set is \<subseteq> ids" using used_ids by auto
  then show ?thesis using distinct_card card_mono [OF finite_ids] by metis
qed

end

section \<open>The pool implements it\<close>

definition pool_inv :: "PacketIdPool \<Rightarrow> bool" where
  "pool_inv pool \<longleftrightarrow>
     pool_in_use pool \<subseteq> {1..65535} \<and> 1 \<le> pool_next pool \<and> pool_next pool \<le> 65535
     \<and> (\<forall>i. 1 \<le> i \<longrightarrow> i < pool_next pool \<longrightarrow> i \<in> pool_in_use pool)"

lemma acquire_loop_scan:
  assumes "1 \<le> n" "n \<le> m" "m \<le> 65535" "m \<notin> used" "\<And>i. n \<le> i \<Longrightarrow> i < m \<Longrightarrow> i \<in> used"
  shows "acquire_loop used n = Some m"
  using assms
proof (induction "nat (m - n)" arbitrary: n)
  case 0
  then have "n = m" by simp
  with 0 show ?case by (simp add: acquire_loop.simps)
next
  case (Suc k)
  then have n: "n < m" by simp
  then have "n \<in> used" "n mod 65535 + 1 = n + 1" using Suc.prems by auto
  then have "acquire_loop used n = acquire_loop used (n + 1)"
    by (subst acquire_loop.simps) simp
  also have "\<dots> = Some m" using Suc n by (intro Suc.hyps) auto
  finally show ?case .
qed

lemma pool_card: "pool_inv p \<Longrightarrow> card (pool_in_use p) \<ge> 65535 \<longleftrightarrow> pool_in_use p = {1..65535}"
proof
  assume "pool_inv p" and c: "card (pool_in_use p) \<ge> 65535"
  then have "pool_in_use p \<subseteq> {1..65535}" by (simp add: pool_inv_def)
  with c show "pool_in_use p = {1..65535}" by (intro card_seteq) auto
qed simp

lemma acquire_least:
  assumes "pool_inv p" and "pool_in_use p \<noteq> {1..65535}"
  shows "\<exists>i. i \<in> {1..65535} - pool_in_use p \<and> (\<forall>j. 1 \<le> j \<longrightarrow> j < i \<longrightarrow> j \<in> pool_in_use p)
    \<and> acquire p = Some (Inr (i, \<lparr>pool_next = i mod 65535 + 1, pool_in_use = insert i (pool_in_use p)\<rparr>))"
proof -
  let ?free = "{1..65535} - pool_in_use p"
  define m where "m = Min ?free"
  have ne: "?free \<noteq> {}" using assms by (auto simp: pool_inv_def)
  then have m: "m \<in> ?free" unfolding m_def by (intro Min_in) auto
  have low: "j \<in> pool_in_use p" if "1 \<le> j" "j < m" for j
  proof (rule ccontr)
    assume "j \<notin> pool_in_use p"
    then have "j \<in> ?free" using that m by auto
    then have "m \<le> j" unfolding m_def by (intro Min_le) auto
    with that show False by simp
  qed
  have "pool_next p \<le> m"
    using assms(1) m by (meson DiffD1 DiffD2 atLeastAtMost_iff not_less pool_inv_def)
  then have "acquire_loop (pool_in_use p) (pool_next p) = Some m"
    using assms(1) m low by (intro acquire_loop_scan) (auto simp: pool_inv_def)
  then show ?thesis
    using pool_card [OF assms(1)] assms(2) m low by (auto simp: acquire_def)
qed

lemma acquire_full:
  "pool_inv p \<Longrightarrow> pool_in_use p = {1..65535} \<Longrightarrow>
     acquire p = Some (Inl (RuntimeError ''All 65535 packet IDs are in use''))"
  by (simp add: acquire_def)

lemma pool_inv_acquired:
  assumes "pool_inv p" and "i \<in> {1..65535} - pool_in_use p" and "\<forall>j. 1 \<le> j \<longrightarrow> j < i \<longrightarrow> j \<in> pool_in_use p"
  shows "pool_inv \<lparr>pool_next = i mod 65535 + 1, pool_in_use = insert i (pool_in_use p)\<rparr>"
proof (cases "i = 65535")
  case False
  with assms(2) have "i mod 65535 + 1 = i + 1" by auto
  then show ?thesis using assms False by (auto simp: pool_inv_def zless_add1_eq)
qed (use assms in \<open>auto simp: pool_inv_def\<close>)

lemma pool_inv_release: "pool_inv p \<Longrightarrow> i \<in> {1..65535} \<Longrightarrow> pool_inv (release i p)"
  by (auto simp: pool_inv_def release_def)

interpretation pool: id_allocator "{1..65535}" pool_inv pool_in_use acquire release
proof unfold_locales
  fix p assume inv: "pool_inv p"
  show "pool_in_use p \<subseteq> {1..65535}" using inv by (simp add: pool_inv_def)
  show "\<exists>i p'. acquire p = Some (Inr (i, p')) \<and> i \<in> {1..65535} - pool_in_use p
      \<and> pool_in_use p' = insert i (pool_in_use p) \<and> pool_inv p'" if "pool_in_use p \<noteq> {1..65535}"
    using acquire_least [OF inv that] pool_inv_acquired [OF inv] by fastforce
  show "\<exists>e. acquire p = Some (Inl e)" if "pool_in_use p = {1..65535}"
    using acquire_full [OF inv that] by blast
  show "pool_in_use (release i p) = pool_in_use p - {i} \<and> pool_inv (release i p)"
    if "i \<in> {1..65535}" for i
    using pool_inv_release [OF inv that] by (simp add: release_def)
qed simp

lemma pool_inv_init [simp]: "pool_inv PacketIdPool_init" "pool_in_use PacketIdPool_init = {}"
  by (simp_all add: pool_inv_def PacketIdPool_init_def)

section \<open>Properties\<close>

text \<open>
  C33: \<open>acquire\<close> always returns.  From a pool reached by acquiring and releasing it gives the smallest
  id of 1..65535 that is not in use and marks it as used, or raises RuntimeError when all are.
\<close>

theorem acquire_smallest_free:
  assumes "pool_inv pool"
  shows "if pool_in_use pool = {1..65535}
    then acquire pool = Some (Inl (RuntimeError ''All 65535 packet IDs are in use''))
    else \<exists>pid pool'. acquire pool = Some (Inr (pid, pool')) \<and> pid = Min ({1..65535} - pool_in_use pool)
           \<and> pid \<notin> pool_in_use pool \<and> pool_in_use pool' = insert pid (pool_in_use pool) \<and> pool_inv pool'"
proof (cases "pool_in_use pool = {1..65535}")
  case False
  from acquire_least [OF assms False] obtain i where
    i: "i \<in> {1..65535} - pool_in_use pool" "\<forall>j. 1 \<le> j \<longrightarrow> j < i \<longrightarrow> j \<in> pool_in_use pool"
    and acq: "acquire pool
      = Some (Inr (i, \<lparr>pool_next = i mod 65535 + 1, pool_in_use = insert i (pool_in_use pool)\<rparr>))"
    by blast
  have "Min ({1..65535} - pool_in_use pool) = i" using i by (intro Min_eqI) (auto simp: not_less [symmetric])
  with acq i pool_inv_acquired [OF assms i] False show ?thesis by simp
qed (simp add: acquire_full [OF assms])

theorem acquire_smallest_free_witness:
  "\<exists>pid pool'. acquire \<lparr>pool_next = 2, pool_in_use = {1, 3}\<rparr> = Some (Inr (pid, pool'))
     \<and> pool_in_use pool' = insert pid {1, 3}"
proof -
  let ?p = "\<lparr>pool_next = 2, pool_in_use = {1, 3 :: int}\<rparr>"
  have inv: "pool_inv ?p" by (auto simp: pool_inv_def)
  have "(2 :: int) \<in> {1..65535}" "(2 :: int) \<notin> {1, 3}" by simp_all
  then have "{1, 3 :: int} \<noteq> {1..65535}" by blast
  with acquire_smallest_free [OF inv] show ?thesis by auto
qed

text \<open>
  whatever the order of acquisitions and releases, the ids held at one time are pairwise
  different, lie between 1 and 65535, and are exactly the ids the pool has marked as used.
\<close>

theorem held_ids_distinct:
  assumes "history acquire release PacketIdPool_init [] pool held"
  shows "distinct held \<and> set held = pool_in_use pool \<and> set held \<subseteq> {1..65535}
    \<and> length held \<le> 65535 \<and> pool_inv pool"
  using pool.held_distinct [OF assms] pool.held_bound [OF assms] pool.used_ids by simp

theorem held_ids_distinct_witness:
  "\<exists>pool. history acquire release PacketIdPool_init [] pool [1]
     \<and> distinct [1 :: int] \<and> pool_in_use pool = {1}"
proof -
  have "acquire PacketIdPool_init = Some (Inr (1, \<lparr>pool_next = 2, pool_in_use = {1}\<rparr>))"
    by (simp add: acquire_def PacketIdPool_init_def acquire_loop.simps)
  then have "history acquire release PacketIdPool_init [] \<lparr>pool_next = 2, pool_in_use = {1}\<rparr> [1]"
    using history.got [OF history.start] by metis
  from held_ids_distinct [OF this] this show ?thesis by auto
qed

text \<open>
  an id that is released while it is the smallest free one is the next one handed out.
\<close>

theorem release_then_acquire:
  assumes "pool_inv pool" and "pid \<in> {1..65535}" and "\<forall>j. 1 \<le> j \<longrightarrow> j < pid \<longrightarrow> j \<in> pool_in_use pool"
  shows "\<exists>pool'. acquire (release pid pool) = Some (Inr (pid, pool'))"
proof -
  let ?p = "release pid pool"
  have inv: "pool_inv ?p" using pool_inv_release [OF assms(1,2)] .
  have f: "pid \<in> {1..65535} - pool_in_use ?p" using assms(2) by (simp add: release_def)
  then obtain i p' where i: "i \<in> {1..65535} - pool_in_use ?p" "\<forall>j. 1 \<le> j \<longrightarrow> j < i \<longrightarrow> j \<in> pool_in_use ?p"
    "acquire ?p = Some (Inr (i, p'))"
    using acquire_least [OF inv] by blast
  have "j \<in> pool_in_use ?p" if "1 \<le> j" "j < pid" for j using assms(3) that by (simp add: release_def)
  with i(1,2) f have "i = pid" by (meson DiffD1 DiffD2 atLeastAtMost_iff not_less_iff_gr_or_eq)
  with i(3) show ?thesis by blast
qed

theorem release_then_acquire_witness:
  "\<exists>pool'. acquire (release 2 \<lparr>pool_next = 4, pool_in_use = {1, 2, 3}\<rparr>) = Some (Inr (2, pool'))"
proof (rule release_then_acquire)
  show "pool_inv \<lparr>pool_next = 4, pool_in_use = {1, 2, 3}\<rparr>" by (auto simp: pool_inv_def)
qed auto

end
