(* ===== verification/Topic.thy ===== *)
theory Topic
  imports Mqtt_Prelude
begin

text \<open>
  Topics and topic filters: the validators of \<open>types/topic.py\<close> and the matching of
  \<open>topic_matching.py\<close>.  Topics are Python strings, lists of code points; \<open>split_levels\<close> is
  \<open>str.split("/")\<close>.  The validators work on characters, matching works on levels; the results here
  connect the two (what a validated filter looks like level by level), give matching a
  description without recursion, and show what the broker's decorator prefixes come to.
\<close>

section \<open>Python strings\<close>

abbreviation SLASH :: nat where "SLASH \<equiv> 47"
abbreviation HASH :: nat where "HASH \<equiv> 35"
abbreviation PLUS :: nat where "PLUS \<equiv> 43"
abbreviation DOLLAR :: nat where "DOLLAR \<equiv> 36"

fun split_levels :: "pystr \<Rightarrow> pystr list" where
  "split_levels [] = [[]]"
| "split_levels (c # s) =
     (if c = SLASH then [] # split_levels s
      else (c # hd (split_levels s)) # tl (split_levels s))"

definition startswith :: "pystr \<Rightarrow> pystr \<Rightarrow> bool" where
  "startswith s p \<longleftrightarrow> take (length p) s = p"

definition removeprefix :: "pystr \<Rightarrow> pystr \<Rightarrow> pystr" where
  "removeprefix s p = (if startswith s p then drop (length p) s else s)"

text \<open>\<open>s.partition("/")\<close>: what stands before the first slash, whether there is one, what follows.\<close>

definition partition_slash :: "pystr \<Rightarrow> pystr \<times> bool \<times> pystr" where
  "partition_slash s =
     (takeWhile (\<lambda>c. c \<noteq> SLASH) s, SLASH \<in> set s, tl (dropWhile (\<lambda>c. c \<noteq> SLASH) s))"

section \<open>Validation\<close>

datatype topic_error = MQTTInvalidTopicError string

definition validate_publish :: "pystr \<Rightarrow> topic_error + unit" where
  "validate_publish topic =
     (if topic = [] then Inl (MQTTInvalidTopicError ''Topic must not be empty'')
      else if HASH \<in> set topic \<or> PLUS \<in> set topic
      then Inl (MQTTInvalidTopicError ''Wildcards not allowed in publish topic'')
      else if DOLLAR \<in> set (drop 1 topic)
      then Inl (MQTTInvalidTopicError ''dollar is only valid as the first character of a topic'')
      else Inr ())"

fun index_of :: "nat \<Rightarrow> pystr \<Rightarrow> nat" where
  "index_of c [] = 0"
| "index_of c (x # xs) = (if x = c then 0 else Suc (index_of c xs))"

definition validate_levels :: "pystr list \<Rightarrow> topic_error + unit" where
  "validate_levels levels =
     (if \<exists>level \<in> set levels. PLUS \<in> set level \<and> level \<noteq> [PLUS]
      then Inl (MQTTInvalidTopicError ''plus must occupy an entire topic level in filter'')
      else Inr ())"

definition validate_subscribe_topic :: "pystr \<Rightarrow> topic_error + unit" where
  "validate_subscribe_topic topic =
     (if topic = [] then Inl (MQTTInvalidTopicError ''Topic filter must not be empty'')
      else if DOLLAR \<in> set (drop 1 topic)
      then Inl (MQTTInvalidTopicError ''dollar is only valid as the first character of a topic filter'')
      else if HASH \<in> set topic \<and> index_of HASH topic \<noteq> length topic - 1
      then Inl (MQTTInvalidTopicError ''hash must be the last character in a topic filter'')
      else if HASH \<in> set topic \<and> index_of HASH topic > 0
              \<and> topic ! (index_of HASH topic - 1) \<noteq> SLASH
      then Inl (MQTTInvalidTopicError ''hash must be preceded by slash in a topic filter'')
      else validate_levels (split_levels topic))"

definition validate_response_topic :: "pystr \<Rightarrow> topic_error + unit" where
  "validate_response_topic topic = validate_publish topic"

section \<open>Matching\<close>

definition DEFAULT_STRIPPED_PREFIXES :: "pystr list" where
  "DEFAULT_STRIPPED_PREFIXES = [str_lit ''$queue'', str_lit ''$exclusive'']"

fun strip_decorator :: "pystr \<Rightarrow> pystr list \<Rightarrow> pystr" where
  "strip_decorator flt [] = flt"
| "strip_decorator flt (pre # prefixes) =
     (if startswith flt (pre @ [SLASH]) then snd (snd (partition_slash flt))
      else strip_decorator flt prefixes)"

definition shared_filter_to_actual :: "pystr \<Rightarrow> pystr list \<Rightarrow> pystr" where
  "shared_filter_to_actual flt stripped_prefixes =
     (let shared = partition_slash (removeprefix flt (str_lit ''$share/'')) in
      if startswith flt (str_lit ''$share/'') \<and> fst (snd shared) then snd (snd shared)
      else strip_decorator flt stripped_prefixes)"

fun match_parts :: "pystr list \<Rightarrow> pystr list \<Rightarrow> bool" where
  "match_parts [] tparts = (tparts = [])"
| "match_parts (f # fparts) tparts =
     (if f = [HASH] then True
      else case tparts of
             [] \<Rightarrow> False
           | t # ts \<Rightarrow> if f \<noteq> [PLUS] \<and> f \<noteq> t then False else match_parts fparts ts)"

definition matches_actual :: "pystr \<Rightarrow> pystr \<Rightarrow> bool" where
  "matches_actual actual_filter topic =
     (if startswith topic [DOLLAR] \<noteq> startswith actual_filter [DOLLAR] then False
      else match_parts (split_levels actual_filter) (split_levels topic))"

definition topic_matches :: "pystr \<Rightarrow> pystr \<Rightarrow> pystr list \<Rightarrow> bool" where
  "topic_matches topic_filter topic stripped_prefixes =
     matches_actual (shared_filter_to_actual topic_filter stripped_prefixes) topic"

definition segment_rank :: "pystr \<Rightarrow> nat" where
  "segment_rank seg = (if seg = [HASH] then 2 else if seg = [PLUS] then 1 else 0)"

definition filter_specificity :: "pystr \<Rightarrow> nat list" where
  "filter_specificity actual_filter = map segment_rank (split_levels actual_filter)"

section \<open>Splitting and joining\<close>

fun join_levels :: "pystr list \<Rightarrow> pystr" where
  "join_levels [] = []"
| "join_levels [p] = p"
| "join_levels (p # q # ps) = p @ SLASH # join_levels (q # ps)"

lemma split_levels_nonempty [simp]: "split_levels s \<noteq> []"
  by (cases s) auto

lemma split_levels_cases: obtains l ls where "split_levels s = l # ls"
  using split_levels_nonempty by (cases "split_levels s") blast+

lemma split_levels_append:
  "split_levels (u @ SLASH # w) = split_levels u @ split_levels w"
  by (induction u) (auto simp: hd_append)

lemma split_levels_single: "SLASH \<notin> set p \<Longrightarrow> split_levels p = [p]"
  by (induction p) auto

lemma split_levels_no_slash: "p \<in> set (split_levels s) \<Longrightarrow> SLASH \<notin> set p"
proof (induction s arbitrary: p)
  case (Cons c s)
  obtain l ls where l: "split_levels s = l # ls" using split_levels_cases .
  from Cons.prems l Cons.IH [of l] Cons.IH [of p] show ?case by (auto split: if_splits)
qed simp

lemma join_split [simp]: "join_levels (split_levels s) = s"
proof (induction s)
  case (Cons c s)
  obtain l ls where l: "split_levels s = l # ls" using split_levels_cases .
  with Cons show ?case by (cases ls) auto
qed simp

lemma split_join: "ps \<noteq> [] \<Longrightarrow> \<forall>p \<in> set ps. SLASH \<notin> set p \<Longrightarrow> split_levels (join_levels ps) = ps"
  by (induction ps rule: join_levels.induct) (simp_all add: split_levels_append split_levels_single)

lemma split_levels_inj: "split_levels s = split_levels t \<Longrightarrow> s = t"
  by (metis join_split)

lemma split_levels_chars: "c \<noteq> SLASH \<Longrightarrow> c \<in> set s \<longleftrightarrow> (\<exists>p \<in> set (split_levels s). c \<in> set p)"
proof (induction s)
  case (Cons d s)
  obtain l ls where l: "split_levels s = l # ls" using split_levels_cases .
  with Cons show ?case by auto
qed simp

section \<open>Matching, level by level\<close>

definition level_matches :: "pystr \<Rightarrow> pystr \<Rightarrow> bool" where
  "level_matches f t \<longleftrightarrow> f = [PLUS] \<or> f = t"

text \<open>
  The meaning of a filter: the levels before the first \<open>#\<close> match the topic's levels one by one, and
  without a \<open>#\<close> there are no further levels.
\<close>

definition filter_means :: "pystr list \<Rightarrow> pystr list \<Rightarrow> bool" where
  "filter_means fparts tparts \<longleftrightarrow>
     (let fixed = takeWhile (\<lambda>f. f \<noteq> [HASH]) fparts in
      length fixed \<le> length tparts \<and> list_all2 level_matches fixed (take (length fixed) tparts)
      \<and> ([HASH] \<notin> set fparts \<longrightarrow> length fparts = length tparts))"

lemma match_parts_means: "match_parts fparts tparts \<longleftrightarrow> filter_means fparts tparts"
proof (induction fparts tparts rule: match_parts.induct)
  case (2 f fparts tparts)
  then show ?case
    by (cases tparts) (auto simp: filter_means_def level_matches_def Let_def)
qed (auto simp: filter_means_def)

lemma match_parts_exact:
  "\<forall>f \<in> set fparts. f \<noteq> [HASH] \<and> f \<noteq> [PLUS] \<Longrightarrow> match_parts fparts tparts \<longleftrightarrow> fparts = tparts"
  by (induction fparts tparts rule: match_parts.induct) (auto split: list.split)

section \<open>What validation guarantees\<close>

text \<open>
  A well-formed filter, by levels: \<open>+\<close> and \<open>#\<close> stand alone in their level, and \<open>#\<close> only in the last.
\<close>

definition hash_wf :: "pystr list \<Rightarrow> bool" where
  "hash_wf levels \<longleftrightarrow>
     (\<forall>l \<in> set (butlast levels). HASH \<notin> set l) \<and> (HASH \<in> set (last levels) \<longrightarrow> last levels = [HASH])"

definition filter_wf :: "pystr \<Rightarrow> bool" where
  "filter_wf topic \<longleftrightarrow>
     topic \<noteq> [] \<and> DOLLAR \<notin> set (drop 1 topic) \<and> hash_wf (split_levels topic)
     \<and> (\<forall>l \<in> set (split_levels topic). PLUS \<in> set l \<longrightarrow> l = [PLUS])"

lemma index_of_split:
  "c \<in> set s \<Longrightarrow> s = take (index_of c s) s @ c # drop (Suc (index_of c s)) s \<and> c \<notin> set (take (index_of c s) s)"
  by (induction s) auto

lemma index_of_last: "c \<notin> set u \<Longrightarrow> index_of c (u @ [c]) = length u"
  by (induction u) auto

lemma join_levels_snoc: "ps \<noteq> [] \<Longrightarrow> join_levels (ps @ [q]) = join_levels ps @ SLASH # q"
  by (induction ps rule: join_levels.induct) auto

lemma join_levels_chars: "c \<in> set (join_levels ps) \<Longrightarrow> c = SLASH \<or> (\<exists>p \<in> set ps. c \<in> set p)"
  by (induction ps rule: join_levels.induct) auto

lemma no_hash_wf: "HASH \<notin> set t \<Longrightarrow> hash_wf (split_levels t)"
  using split_levels_chars [of HASH t]
  by (auto simp: hash_wf_def dest: in_set_butlastD intro: last_in_set)

lemma hash_last_wf:
  assumes "HASH \<notin> set u" and "u = [] \<or> last u = SLASH"
  shows "hash_wf (split_levels (u @ [HASH]))"
proof (cases "u = []")
  case False
  with assms obtain w where w: "u = w @ [SLASH]" by (metis append_butlast_last_id)
  have "split_levels (u @ [HASH]) = split_levels w @ [[HASH]]"
    using split_levels_append [of w "[HASH]"] by (simp add: w)
  moreover have "HASH \<notin> set w" using assms(1) w by simp
  ultimately show ?thesis using split_levels_chars [of HASH w] by (auto simp: hash_wf_def)
qed (simp add: hash_wf_def)

lemma wf_hash_last:
  assumes "hash_wf (split_levels t)" and "HASH \<in> set t"
  obtains u where "t = u @ [HASH]" and "HASH \<notin> set u" and "u = [] \<or> last u = SLASH"
proof -
  let ?l = "split_levels t"
  have sp: "?l = butlast ?l @ [last ?l]" by simp
  from assms obtain p where "p \<in> set ?l" "HASH \<in> set p" using split_levels_chars [of HASH t] by auto
  with assms(1) sp have last: "last ?l = [HASH]"
    unfolding hash_wf_def by (metis Un_iff list.set(1,2) set_append insert_iff empty_iff)
  show ?thesis
  proof (cases "butlast ?l = []")
    case True
    with sp last have "?l = [[HASH]]" by simp
    then have "t = [HASH]" by (metis join_split join_levels.simps(2))
    then show ?thesis using that [of "[]"] by simp
  next
    case False
    have "t = join_levels (butlast ?l @ [[HASH]])" using sp last by (metis join_split)
    also have "\<dots> = join_levels (butlast ?l) @ SLASH # [HASH]" using False by (rule join_levels_snoc)
    finally have "t = (join_levels (butlast ?l) @ [SLASH]) @ [HASH]" by simp
    moreover have "HASH \<notin> set (join_levels (butlast ?l))"
      using assms(1) join_levels_chars [of HASH "butlast ?l"] by (auto simp: hash_wf_def)
    ultimately show ?thesis using that [of "join_levels (butlast ?l) @ [SLASH]"] by simp
  qed
qed

lemma hash_checks:
  "(HASH \<in> set t \<longrightarrow> index_of HASH t = length t - 1
      \<and> (index_of HASH t > 0 \<longrightarrow> t ! (index_of HASH t - 1) = SLASH)) \<longleftrightarrow> hash_wf (split_levels t)"
proof (cases "HASH \<in> set t")
  case True
  let ?u = "take (index_of HASH t) t"
  show ?thesis
  proof
    assume "HASH \<in> set t \<longrightarrow> index_of HASH t = length t - 1
      \<and> (index_of HASH t > 0 \<longrightarrow> t ! (index_of HASH t - 1) = SLASH)"
    with True have i: "index_of HASH t = length t - 1"
      and sl: "index_of HASH t > 0 \<longrightarrow> t ! (index_of HASH t - 1) = SLASH" by auto
    from index_of_split [OF True] i have t: "t = ?u @ [HASH]" "HASH \<notin> set ?u" by auto
    have "?u = [] \<or> last ?u = SLASH"
    proof (cases "index_of HASH t")
      case (Suc n)
      then have "n < length t" using i by linarith
      with Suc sl show ?thesis by (simp add: take_Suc_conv_app_nth)
    qed simp
    with t show "hash_wf (split_levels t)" using hash_last_wf [of ?u] by simp
  next
    assume "hash_wf (split_levels t)"
    from wf_hash_last [OF this True] obtain u where
      u: "t = u @ [HASH]" "HASH \<notin> set u" "u = [] \<or> last u = SLASH" by blast
    then show "HASH \<in> set t \<longrightarrow> index_of HASH t = length t - 1
      \<and> (index_of HASH t > 0 \<longrightarrow> t ! (index_of HASH t - 1) = SLASH)"
      by (auto simp: index_of_last nth_append last_conv_nth)
  qed
qed (simp add: no_hash_wf)

lemma validate_subscribe_wf: "validate_subscribe_topic t = Inr () \<longleftrightarrow> filter_wf t"
  using hash_checks [of t] by (auto simp: validate_subscribe_topic_def validate_levels_def filter_wf_def)

section \<open>Filters without wildcards, and with a trailing one\<close>

definition literal :: "pystr \<Rightarrow> bool" where
  "literal s \<longleftrightarrow> HASH \<notin> set s \<and> PLUS \<notin> set s"

lemma literal_levels: "literal s \<Longrightarrow> l \<in> set (split_levels s) \<Longrightarrow> l \<noteq> [HASH] \<and> l \<noteq> [PLUS]"
  using split_levels_chars [of HASH s] split_levels_chars [of PLUS s] by (auto simp: literal_def)

lemma matches_literal: "literal f \<Longrightarrow> matches_actual f t \<longleftrightarrow> f = t"
  using match_parts_exact [of "split_levels f" "split_levels t"] literal_levels [of f]
  by (auto simp: matches_actual_def dest: split_levels_inj)

lemma match_parts_prefix:
  "\<forall>f \<in> set fs. f \<noteq> [HASH] \<and> f \<noteq> [PLUS] \<Longrightarrow> match_parts (fs @ [[HASH]]) ts \<longleftrightarrow> (\<exists>r. ts = fs @ r)"
proof (induction fs arbitrary: ts)
  case (Cons f fs)
  then show ?case by (cases ts) auto
qed simp

lemma split_levels_extend: "(\<exists>r. split_levels t = split_levels p @ r) \<longleftrightarrow> t = p \<or> (\<exists>u. t = p @ SLASH # u)"
proof
  assume "\<exists>r. split_levels t = split_levels p @ r"
  then obtain r where r: "split_levels t = split_levels p @ r" by blast
  show "t = p \<or> (\<exists>u. t = p @ SLASH # u)"
  proof (cases "r = []")
    case True
    with r show ?thesis by (simp add: split_levels_inj)
  next
    case False
    have "\<forall>q \<in> set r. SLASH \<notin> set q" using split_levels_no_slash [of _ t] r by auto
    with False r have "split_levels t = split_levels (p @ SLASH # join_levels r)"
      by (simp add: split_levels_append split_join)
    then show ?thesis using split_levels_inj by blast
  qed
qed (auto simp: split_levels_append)

lemma matches_subtree:
  assumes "literal p"
  shows "matches_actual (p @ [SLASH, HASH]) t \<longleftrightarrow> t = p \<or> (\<exists>u. t = p @ SLASH # u)"
proof -
  have "split_levels (p @ [SLASH, HASH]) = split_levels p @ [[HASH]]"
    using split_levels_append [of p "[HASH]"] by simp
  then have "match_parts (split_levels (p @ [SLASH, HASH])) (split_levels t)
      \<longleftrightarrow> t = p \<or> (\<exists>u. t = p @ SLASH # u)"
    using match_parts_prefix [of "split_levels p" "split_levels t"] literal_levels [OF assms]
    by (simp add: split_levels_extend)
  moreover have "t = p \<or> (\<exists>u. t = p @ SLASH # u) \<Longrightarrow>
      startswith t [DOLLAR] = startswith (p @ [SLASH, HASH]) [DOLLAR]"
    by (cases p) (auto simp: startswith_def)
  ultimately show ?thesis by (auto simp: matches_actual_def)
qed

section \<open>Subscription decorators\<close>

lemma startswith_append [simp]: "startswith (p @ s) p"
  by (simp add: startswith_def)

lemma partition_slash_simps [simp]:
  "SLASH \<notin> set g \<Longrightarrow> partition_slash (g @ SLASH # f) = (g, True, f)"
  by (induction g) (auto simp: partition_slash_def)

lemma actual_of_share:
  assumes "SLASH \<notin> set g"
  shows "shared_filter_to_actual (str_lit ''$share/'' @ g @ SLASH # f) prefixes = f"
  using assms by (simp add: shared_filter_to_actual_def removeprefix_def Let_def)

lemma strip_decorator_hit:
  assumes "SLASH \<notin> set d" and "d \<in> set prefixes"
  shows "strip_decorator (d @ SLASH # f) prefixes = f"
  using assms startswith_append [of "d @ [SLASH]" f]
  by (induction prefixes) auto

lemma strip_decorator_miss:
  "\<forall>d \<in> set prefixes. \<not> startswith s (d @ [SLASH]) \<Longrightarrow> strip_decorator s prefixes = s"
  by (induction prefixes) auto

lemma str_lit_share: "str_lit ''$share/'' = str_lit ''$share'' @ [SLASH]"
  by code_simp

lemma share_prefix_only:
  "SLASH \<notin> set d \<Longrightarrow> startswith (d @ SLASH # f) (str_lit ''$share/'') \<Longrightarrow> d = str_lit ''$share''"
proof -
  assume d: "SLASH \<notin> set d" and st: "startswith (d @ SLASH # f) (str_lit ''$share/'')"
  have "partition_slash (d @ SLASH # f) = (d, True, f)" using d by simp
  moreover obtain r where "d @ SLASH # f = str_lit ''$share'' @ SLASH # r"
    using st unfolding startswith_def
    by (metis append_take_drop_id append.assoc append_Cons append_Nil str_lit_share)
  moreover have "SLASH \<notin> set (str_lit ''$share'')" by code_simp
  ultimately show ?thesis by (metis partition_slash_simps prod.inject)
qed

section \<open>Properties\<close>

text \<open>
  C40: the character checks of \<open>validate_subscribe_topic\<close> accept exactly the filters that are well
  formed level by level: not empty, \<open>$\<close> only in front, \<open>+\<close> and \<open>#\<close> alone in their level, \<open>#\<close> only in
  the last level.
\<close>

theorem validate_subscribe_levels:
  "validate_subscribe_topic topic = Inr () \<longleftrightarrow>
     topic \<noteq> [] \<and> DOLLAR \<notin> set (drop 1 topic)
     \<and> (\<forall>l \<in> set (split_levels topic). PLUS \<in> set l \<longrightarrow> l = [PLUS])
     \<and> (\<forall>l \<in> set (butlast (split_levels topic)). HASH \<notin> set l)
     \<and> (HASH \<in> set (last (split_levels topic)) \<longrightarrow> last (split_levels topic) = [HASH])"
  unfolding validate_subscribe_wf filter_wf_def hash_wf_def by blast

theorem validate_subscribe_levels_witness:
  "validate_subscribe_topic (str_lit ''a/+/#'') = Inr ()
   \<and> validate_subscribe_topic (str_lit ''a/b#'') \<noteq> Inr ()"
  unfolding validate_subscribe_levels by code_simp

text \<open>
  C39: a filter matches a topic exactly when both or neither start with \<open>$\<close> and, after the broker's
  decorators are removed, the levels in front of the first \<open>#\<close> match one by one (equal, or \<open>+\<close>) and
  the lengths agree when there is no \<open>#\<close>.
\<close>

theorem topic_matches_meaning:
  "topic_matches f t prefixes \<longleftrightarrow>
     (let a = shared_filter_to_actual f prefixes; fs = split_levels a; ts = split_levels t;
          fixed = takeWhile (\<lambda>l. l \<noteq> [HASH]) fs in
      startswith t [DOLLAR] = startswith a [DOLLAR]
      \<and> length fixed \<le> length ts
      \<and> (\<forall>i < length fixed. fixed ! i = [PLUS] \<or> fixed ! i = ts ! i)
      \<and> ([HASH] \<notin> set fs \<longrightarrow> length fs = length ts))"
  by (auto simp: topic_matches_def matches_actual_def match_parts_means filter_means_def
      level_matches_def list_all2_conv_all_nth Let_def)

theorem topic_matches_meaning_witness:
  "topic_matches (str_lit ''$share/g/a/+/#'') (str_lit ''a/b'') DEFAULT_STRIPPED_PREFIXES
   \<and> \<not> topic_matches (str_lit ''#'') (str_lit ''$SYS/x'') DEFAULT_STRIPPED_PREFIXES"
proof -
  have a: "shared_filter_to_actual (str_lit ''$share/g/a/+/#'') DEFAULT_STRIPPED_PREFIXES = str_lit ''a/+/#''"
    "shared_filter_to_actual (str_lit ''#'') DEFAULT_STRIPPED_PREFIXES = str_lit ''#''"
    "split_levels (str_lit ''a/+/#'') = [str_lit ''a'', [PLUS], [HASH]]"
    "split_levels (str_lit ''a/b'') = [str_lit ''a'', str_lit ''b'']"
    "startswith (str_lit ''$SYS/x'') [DOLLAR]" "\<not> startswith (str_lit ''#'') [DOLLAR]"
    "\<not> startswith (str_lit ''a/b'') [DOLLAR]" "\<not> startswith (str_lit ''a/+/#'') [DOLLAR]"
    "str_lit ''a'' \<noteq> [HASH]"
    by code_simp+
  show ?thesis
    unfolding topic_matches_meaning a Let_def by (simp add: a less_Suc_eq)
qed

text \<open>
  a topic one may publish to is also a valid filter, and as a filter it matches that topic
  only; followed by \<open>/#\<close> it matches the topic itself and everything below it, and nothing else.
\<close>

theorem publish_topic_as_filter:
  assumes "validate_publish p = Inr ()"
  shows "validate_subscribe_topic p = Inr ()
    \<and> (matches_actual p t \<longleftrightarrow> t = p)
    \<and> (matches_actual (p @ [SLASH, HASH]) t \<longleftrightarrow> t = p \<or> (\<exists>u. t = p @ SLASH # u))"
proof -
  from assms have l: "literal p" and d: "p \<noteq> []" "DOLLAR \<notin> set (drop 1 p)"
    by (auto simp: validate_publish_def literal_def split: if_splits)
  then have "filter_wf p"
    using no_hash_wf [of p] split_levels_chars [of PLUS p] by (auto simp: filter_wf_def literal_def)
  then show ?thesis
    using matches_literal [OF l] matches_subtree [OF l] by (auto simp: validate_subscribe_wf)
qed

theorem publish_topic_as_filter_witness:
  "validate_publish (str_lit ''a/b'') = Inr ()
   \<and> matches_actual (str_lit ''a/b'' @ [SLASH, HASH]) (str_lit ''a/b'')"
proof -
  have "validate_publish (str_lit ''a/b'') = Inr ()" by code_simp
  with publish_topic_as_filter [OF this] show ?thesis by simp
qed

text \<open>
  decorators are stripped as documented: \<open>$share/<group>/f\<close> and \<open><prefix>/f\<close> for a listed prefix
  come to \<open>f\<close>, and a filter with neither is matched as it is.
\<close>

theorem decorators_stripped:
  assumes "SLASH \<notin> set g" and "SLASH \<notin> set d" and "d \<in> set prefixes" and "d \<noteq> str_lit ''$share''"
    and "\<not> startswith s (str_lit ''$share/'')" and "\<forall>e \<in> set prefixes. \<not> startswith s (e @ [SLASH])"
  shows "shared_filter_to_actual (str_lit ''$share/'' @ g @ SLASH # f) prefixes = f
    \<and> shared_filter_to_actual (d @ SLASH # f) prefixes = f
    \<and> shared_filter_to_actual s prefixes = s"
  using actual_of_share [OF assms(1)] strip_decorator_hit [OF assms(2,3)] strip_decorator_miss [OF assms(6)]
    share_prefix_only [OF assms(2), of f] assms(4,5)
  by (auto simp: shared_filter_to_actual_def Let_def)

theorem decorators_stripped_witness:
  "shared_filter_to_actual (str_lit ''$share/'' @ str_lit ''g'' @ SLASH # str_lit ''a/b'') DEFAULT_STRIPPED_PREFIXES
     = str_lit ''a/b''"
proof -
  have "SLASH \<notin> set (str_lit ''g'')" "SLASH \<notin> set (str_lit ''$queue'')"
    "str_lit ''$queue'' \<in> set DEFAULT_STRIPPED_PREFIXES" "str_lit ''$queue'' \<noteq> str_lit ''$share''"
    "\<not> startswith (str_lit ''$SYS/#'') (str_lit ''$share/'')"
    "\<forall>e \<in> set DEFAULT_STRIPPED_PREFIXES. \<not> startswith (str_lit ''$SYS/#'') (e @ [SLASH])"
    by code_simp+
  from decorators_stripped [OF this, of "str_lit ''a/b''"] show ?thesis by blast
qed

end
