(* ===== verification/Subscription_Index.thy ===== *)
theory Subscription_Index
  imports Topic "HOL-Library.List_Lexorder" "HOL-Library.Multiset"
begin

text \<open>
  The subscription index of \<open>subscription_index.py\<close>: a trie over topic levels with the wildcard
  children kept apart, a dict of all entries, and a dict from subscription identifiers to
  entries.  Dicts are association lists in insertion order.  An entry is compared by identity
  (\<open>is\<close>), which is the field \<open>se_ref\<close>, and \<open>se_queue\<close> refers to its queue; the queue's content and the
  \<open>detached\<close> flag belong to the objects behind the references, and the index never looks at them.

  The specification is the flat list of the entries, \<open>ix_entries\<close>: the invariant \<open>index_inv\<close> says that
  every list in the trie and in the identifier dict is that list restricted to one path or one
  identifier, in the same order.
\<close>

section \<open>Definitions\<close>

record SubscriptionEntry =
  se_ref :: nat
  se_queue :: nat
  se_auto_ack :: bool
  se_actual_filter :: pystr
  se_subscription_identifier :: "int option"

type_synonym item = "pystr \<times> SubscriptionEntry"

datatype node = Node (children: "(pystr \<times> node) list") (wildcard_children: "(pystr \<times> node) list")
  (entries: "item list")

abbreviation empty_node :: node where
  "empty_node \<equiv> Node [] [] []"

record SubscriptionSelection =
  sel_recipient :: "item option"
  sel_identifier_missing :: bool
  sel_tied_filters :: "pystr list"

record SubscriptionIndex =
  ix_root :: node
  ix_entries :: "(pystr \<times> SubscriptionEntry) list"
  ix_by_identifier :: "(int \<times> (pystr \<times> SubscriptionEntry) list) list"
  ix_response_observers :: "pystr set"

definition SubscriptionIndex_init :: SubscriptionIndex where
  "SubscriptionIndex_init =
     \<lparr>ix_root = empty_node, ix_entries = [], ix_by_identifier = [], ix_response_observers = {}\<rparr>"

definition wild :: "pystr \<Rightarrow> bool" where
  "wild part \<longleftrightarrow> part = [PLUS] \<or> part = [HASH]"

definition actual_filter :: "item \<Rightarrow> pystr" where
  "actual_filter it = (if se_actual_filter (snd it) \<noteq> [] then se_actual_filter (snd it) else fst it)"

definition child_of :: "(pystr \<times> node) list \<Rightarrow> pystr \<Rightarrow> node" where
  "child_of mapping part = (case map_of mapping part of None \<Rightarrow> empty_node | Some n \<Rightarrow> n)"

text \<open>The loop of \<open>add\<close> down the trie, with \<open>setdefault\<close>, and the append at its end.\<close>

fun insert_entry :: "pystr list \<Rightarrow> item \<Rightarrow> node \<Rightarrow> node" where
  "insert_entry [] it (Node c w es) = Node c w (es @ [it])"
| "insert_entry (part # parts) it (Node c w es) =
     (if wild part
      then Node c (AList.update part (insert_entry parts it (child_of w part)) w) es
      else Node (AList.update part (insert_entry parts it (child_of c part)) c) w es)"

text \<open>The in-place update of a mapping after the recursive call of \<open>_remove_entry\<close>.\<close>

definition put_or_prune :: "pystr \<Rightarrow> node \<Rightarrow> (pystr \<times> node) list \<Rightarrow> (pystr \<times> node) list" where
  "put_or_prune part child mapping =
     (if child = empty_node then AList.delete part mapping else AList.update part child mapping)"

fun remove_entry :: "pystr list \<Rightarrow> pystr \<Rightarrow> SubscriptionEntry \<Rightarrow> node \<Rightarrow> node" where
  "remove_entry [] flt entry (Node c w es) =
     Node c w (filter (\<lambda>it. \<not> (fst it = flt \<and> se_ref (snd it) = se_ref entry)) es)"
| "remove_entry (part # parts) flt entry (Node c w es) =
     (case map_of (if wild part then w else c) part of
        None \<Rightarrow> Node c w es
      | Some child \<Rightarrow>
          if wild part then Node c (put_or_prune part (remove_entry parts flt entry child) w) es
          else Node (put_or_prune part (remove_entry parts flt entry child) c) w es)"

definition identifier_remove ::
  "pystr \<Rightarrow> int \<Rightarrow> (int \<times> (pystr \<times> SubscriptionEntry) list) list
     \<Rightarrow> (int \<times> (pystr \<times> SubscriptionEntry) list) list" where
  "identifier_remove flt i by_identifier =
     (case map_of by_identifier i of
        None \<Rightarrow> by_identifier
      | Some identified \<Rightarrow>
          if AList.delete flt identified = [] then AList.delete i by_identifier
          else AList.update i (AList.delete flt identified) by_identifier)"

definition index_remove :: "pystr \<Rightarrow> SubscriptionIndex \<Rightarrow> SubscriptionEntry option \<times> SubscriptionIndex" where
  "index_remove flt ix =
     (case map_of (ix_entries ix) flt of
        None \<Rightarrow> (None, ix)
      | Some entry \<Rightarrow>
          (Some entry,
           ix\<lparr>ix_entries := AList.delete flt (ix_entries ix),
              ix_root := remove_entry (split_levels (actual_filter (flt, entry))) flt entry (ix_root ix),
              ix_by_identifier :=
                (case se_subscription_identifier entry of
                   None \<Rightarrow> ix_by_identifier ix
                 | Some i \<Rightarrow> identifier_remove flt i (ix_by_identifier ix))\<rparr>))"

definition identifier_add ::
  "item \<Rightarrow> int \<Rightarrow> (int \<times> (pystr \<times> SubscriptionEntry) list) list
     \<Rightarrow> (int \<times> (pystr \<times> SubscriptionEntry) list) list" where
  "identifier_add it i by_identifier =
     AList.update i
       (AList.update (fst it) (snd it) (case map_of by_identifier i of None \<Rightarrow> [] | Some d \<Rightarrow> d))
       by_identifier"

definition index_add :: "pystr \<Rightarrow> SubscriptionEntry \<Rightarrow> SubscriptionIndex \<Rightarrow> SubscriptionIndex" where
  "index_add flt entry ix =
     (let ix = (if map_of (ix_entries ix) flt \<noteq> None then snd (index_remove flt ix) else ix) in
      ix\<lparr>ix_root := insert_entry (split_levels (actual_filter (flt, entry))) (flt, entry) (ix_root ix),
         ix_entries := AList.update flt entry (ix_entries ix),
         ix_by_identifier :=
           (case se_subscription_identifier entry of
              None \<Rightarrow> ix_by_identifier ix
            | Some i \<Rightarrow> identifier_add (flt, entry) i (ix_by_identifier ix))\<rparr>)"

definition index_contains :: "pystr \<Rightarrow> SubscriptionIndex \<Rightarrow> bool" where
  "index_contains flt ix \<longleftrightarrow> map_of (ix_entries ix) flt \<noteq> None"

definition index_get :: "pystr \<Rightarrow> SubscriptionIndex \<Rightarrow> SubscriptionEntry option" where
  "index_get flt ix = map_of (ix_entries ix) flt"

definition add_response_observer :: "pystr \<Rightarrow> SubscriptionIndex \<Rightarrow> bool \<times> SubscriptionIndex" where
  "add_response_observer topic ix =
     (if topic \<in> ix_response_observers ix then (False, ix)
      else (True, ix\<lparr>ix_response_observers := insert topic (ix_response_observers ix)\<rparr>))"

definition remove_response_observer :: "pystr \<Rightarrow> SubscriptionIndex \<Rightarrow> bool \<times> SubscriptionIndex" where
  "remove_response_observer topic ix =
     (if topic \<notin> ix_response_observers ix then (False, ix)
      else (True, ix\<lparr>ix_response_observers := ix_response_observers ix - {topic}\<rparr>))"

definition has_response_observer :: "pystr \<Rightarrow> SubscriptionIndex \<Rightarrow> bool" where
  "has_response_observer topic ix \<longleftrightarrow> topic \<in> ix_response_observers ix"

definition index_clear :: "SubscriptionIndex \<Rightarrow> SubscriptionIndex" where
  "index_clear ix =
     ix\<lparr>ix_root := empty_node, ix_entries := [], ix_by_identifier := [], ix_response_observers := {}\<rparr>"

definition index_add_many :: "(pystr \<times> SubscriptionEntry) list \<Rightarrow> SubscriptionIndex \<Rightarrow> SubscriptionIndex" where
  "index_add_many es ix = fold (\<lambda>(flt, entry). index_add flt entry) es ix"

definition hash_entries :: "node \<Rightarrow> item list" where
  "hash_entries n =
     (case map_of (wildcard_children n) [HASH] of None \<Rightarrow> [] | Some m \<Rightarrow> entries m)"

fun collect :: "node \<Rightarrow> pystr list \<Rightarrow> item list" where
  "collect (Node c w es) [] = hash_entries (Node c w es) @ es"
| "collect (Node c w es) (part # parts) =
     hash_entries (Node c w es)
     @ (case map_of c part of None \<Rightarrow> [] | Some m \<Rightarrow> collect m parts)
     @ (case map_of w [PLUS] of None \<Rightarrow> [] | Some m \<Rightarrow> collect m parts)"

definition index_match :: "pystr \<Rightarrow> SubscriptionIndex \<Rightarrow> item list" where
  "index_match topic ix =
     (let matches = collect (ix_root ix) (split_levels topic);
          filtered = filter (\<lambda>it. matches_actual (actual_filter it) topic) matches
      in sort_key (\<lambda>it. filter_specificity (actual_filter it)) filtered)"

definition select_from :: "item list \<Rightarrow> SubscriptionSelection" where
  "select_from candidates =
     (if candidates = []
      then \<lparr>sel_recipient = None, sel_identifier_missing = False, sel_tied_filters = []\<rparr>
      else
        let key = (\<lambda>it. filter_specificity (actual_filter it));
            best_key = fold min (map key (tl candidates)) (key (hd candidates));
            winners = filter (\<lambda>it. key it = best_key) candidates
        in \<lparr>sel_recipient = Some (hd winners), sel_identifier_missing = False,
            sel_tied_filters = (if length winners > 1 then map fst winners else [])\<rparr>)"

definition index_select :: "pystr \<Rightarrow> SubscriptionIndex \<Rightarrow> SubscriptionSelection" where
  "index_select topic ix = select_from (index_match topic ix)"

definition index_best :: "pystr \<Rightarrow> SubscriptionIndex \<Rightarrow> item option" where
  "index_best topic ix = sel_recipient (index_select topic ix)"

definition index_by_identifier :: "int \<Rightarrow> SubscriptionIndex \<Rightarrow> item list" where
  "index_by_identifier i ix = (case map_of (ix_by_identifier ix) i of None \<Rightarrow> [] | Some d \<Rightarrow> d)"

definition select_by_identifier :: "pystr \<Rightarrow> int \<Rightarrow> SubscriptionIndex \<Rightarrow> SubscriptionSelection" where
  "select_by_identifier topic i ix =
     (let identified = index_by_identifier i ix in
      if identified \<noteq> [] then
        let matching = filter (\<lambda>it. matches_actual (actual_filter it) topic) identified
        in select_from (if matching \<noteq> [] then matching else identified)
      else (index_select topic ix)\<lparr>sel_identifier_missing := True\<rparr>)"

section \<open>The trie\<close>

text \<open>The entries stored at a path, and the shape of a trie: no empty node but the root.\<close>

fun lookup_at :: "pystr list \<Rightarrow> node \<Rightarrow> item list" where
  "lookup_at [] n = entries n"
| "lookup_at (p # ps) n =
     (case map_of (if wild p then wildcard_children n else children n) p of
        None \<Rightarrow> []
      | Some m \<Rightarrow> lookup_at ps m)"

fun node_ok :: "node \<Rightarrow> bool" where
  "node_ok (Node c w es) \<longleftrightarrow>
     distinct (map fst c) \<and> distinct (map fst w)
     \<and> (\<forall>km \<in> set c. \<not> wild (fst km) \<and> snd km \<noteq> empty_node \<and> node_ok (snd km))
     \<and> (\<forall>km \<in> set w. wild (fst km) \<and> snd km \<noteq> empty_node \<and> node_ok (snd km))"

lemma lookup_empty [simp]: "lookup_at q empty_node = []"
  by (cases q) auto

lemma child_of_lookup: "lookup_at q (child_of al p) = (case map_of al p of None \<Rightarrow> [] | Some m \<Rightarrow> lookup_at q m)"
  by (simp add: child_of_def split: option.split)

lemma lookup_insert:
  "lookup_at q (insert_entry ps it n) = lookup_at q n @ (if q = ps then [it] else [])"
proof (induction ps it n arbitrary: q rule: insert_entry.induct)
  case (1 it c w es)
  then show ?case by (cases q) auto
next
  case (2 part parts it c w es)
  then show ?case
    by (cases q) (auto simp: AList.update_conv' child_of_lookup split: option.split)
qed

lemma put_or_prune_lookup:
  "(case map_of (put_or_prune part child al) p of None \<Rightarrow> [] | Some m \<Rightarrow> lookup_at q m)
     = (if p = part then lookup_at q child else case map_of al p of None \<Rightarrow> [] | Some m \<Rightarrow> lookup_at q m)"
  by (auto simp: put_or_prune_def AList.update_conv' AList.delete_conv')

lemma lookup_remove:
  "lookup_at q (remove_entry ps flt entry n) =
     (if q = ps then filter (\<lambda>it. \<not> (fst it = flt \<and> se_ref (snd it) = se_ref entry)) (lookup_at q n)
      else lookup_at q n)"
proof (induction ps flt entry n arbitrary: q rule: remove_entry.induct)
  case (1 flt entry c w es)
  then show ?case by (cases q) auto
next
  case (2 part parts flt entry c w es)
  show ?case
  proof (cases "map_of (if wild part then w else c) part")
    case None
    then show ?thesis by auto
  next
    case (Some child)
    note IH = "2.IH" [OF Some]
    from Some IH show ?thesis
      by (cases q) (auto simp: put_or_prune_lookup split: option.split if_splits)
  qed
qed

lemma set_AList_update: "km \<in> set (AList.update k v al) \<Longrightarrow> km = (k, v) \<or> km \<in> set al"
  by (induction al) (auto split: if_splits)

text \<open>One of the two mappings of a well-formed node.\<close>

definition kids_ok :: "bool \<Rightarrow> (pystr \<times> node) list \<Rightarrow> bool" where
  "kids_ok is_wild al \<longleftrightarrow> distinct (map fst al)
     \<and> (\<forall>km \<in> set al. wild (fst km) = is_wild \<and> snd km \<noteq> empty_node \<and> node_ok (snd km))"

lemma node_ok_kids: "node_ok (Node c w es) \<longleftrightarrow> kids_ok False c \<and> kids_ok True w"
  by (auto simp: kids_ok_def)

lemma kids_ok_update:
  "kids_ok b al \<Longrightarrow> wild p = b \<Longrightarrow> n \<noteq> empty_node \<Longrightarrow> node_ok n \<Longrightarrow> kids_ok b (AList.update p n al)"
  by (auto simp: kids_ok_def AList.distinct_update dest!: set_AList_update)

lemma kids_ok_prune:
  "kids_ok b al \<Longrightarrow> wild p = b \<Longrightarrow> node_ok n \<Longrightarrow> kids_ok b (put_or_prune p n al)"
  using kids_ok_update [of b al p n]
  by (auto simp: put_or_prune_def AList_delete_filter) (auto simp: kids_ok_def distinct_map_filter)

lemma kids_ok_child: "kids_ok b al \<Longrightarrow> map_of al p = Some m \<Longrightarrow> node_ok m \<and> m \<noteq> empty_node \<and> wild p = b"
  by (force simp: kids_ok_def dest: map_of_SomeD)

lemma kids_ok_child_of: "kids_ok b al \<Longrightarrow> node_ok (child_of al p)"
  by (auto simp: child_of_def dest: kids_ok_child split: option.split)

lemma insert_entry_nonempty [simp]: "insert_entry ps it n \<noteq> empty_node"
  by (cases "(ps, it, n)" rule: insert_entry.cases) auto

lemma node_ok_insert: "node_ok n \<Longrightarrow> node_ok (insert_entry ps it n)"
proof (induction ps it n rule: insert_entry.induct)
  case (2 part parts it c w es)
  from "2.prems" have k: "kids_ok False c" "kids_ok True w" by (simp_all only: node_ok_kids)
  show ?case
    using k "2.IH" kids_ok_child_of [OF k(1)] kids_ok_child_of [OF k(2)]
    by (simp add: node_ok_kids kids_ok_update del: node_ok.simps)
qed simp

lemma node_ok_remove: "node_ok n \<Longrightarrow> node_ok (remove_entry ps flt entry n)"
proof (induction ps flt entry n rule: remove_entry.induct)
  case (2 part parts flt entry c w es)
  from "2.prems" have k: "kids_ok False c" "kids_ok True w" by (simp_all only: node_ok_kids)
  show ?case
  proof (cases "map_of (if wild part then w else c) part")
    case (Some child)
    then have "node_ok child" using kids_ok_child [OF k(1)] kids_ok_child [OF k(2)] by (auto split: if_splits)
    with Some "2.IH" [OF Some] k show ?thesis
      by (simp add: node_ok_kids kids_ok_prune del: node_ok.simps)
  qed (use "2.prems" in simp)
qed simp

text \<open>A trie that stores nothing is the empty root: removal leaves no dead nodes behind.\<close>

lemma node_ok_stores: "node_ok n \<Longrightarrow> n \<noteq> empty_node \<Longrightarrow> \<exists>q. lookup_at q n \<noteq> []"
proof (induction n)
  case (Node c w es)
  from Node.prems(1) have k: "kids_ok False c" "kids_ok True w" by (simp_all only: node_ok_kids)
  have sub: "\<exists>q. lookup_at q (Node c w es) \<noteq> []"
    if kids: "kids_ok b al" "al = (if b then w else c)" and m: "(p, m) \<in> set al" for b al p m
  proof -
    from kids(1) m have mp: "map_of al p = Some m" by (simp add: kids_ok_def)
    note ok = kids_ok_child [OF kids(1) mp]
    with m kids(2) Node.IH obtain q where "lookup_at q m \<noteq> []"
      by (cases b) (auto, metis+)
    then have "lookup_at (p # q) (Node c w es) \<noteq> []" using mp ok kids(2) by auto
    then show ?thesis by blast
  qed
  show ?case
  proof (cases "es = []")
    case False
    then have "lookup_at [] (Node c w es) \<noteq> []" by simp
    then show ?thesis by blast
  next
    case True
    with Node.prems(2) consider p m where "(p, m) \<in> set c" | p m where "(p, m) \<in> set w"
      by (cases c; cases w) auto
    then show ?thesis using sub [OF k(1)] sub [OF k(2)] by cases auto
  qed
qed

section \<open>Collecting\<close>

text \<open>The paths \<open>_collect\<close> visits for a topic, and that for valid filters these are the matches.\<close>

fun trie_match :: "pystr list \<Rightarrow> pystr list \<Rightarrow> bool" where
  "trie_match [] ts = (ts = [])"
| "trie_match (f # fs) ts =
     (if f = [HASH] then fs = []
      else case ts of [] \<Rightarrow> False | t # ts' \<Rightarrow> (f = [PLUS] \<or> f = t) \<and> trie_match fs ts')"

lemma trie_match_parts: "[HASH] \<notin> set (butlast fs) \<Longrightarrow> trie_match fs ts = match_parts fs ts"
  by (induction fs ts rule: trie_match.induct) (auto split: list.split if_splits)

lemma hash_entries_lookup: "hash_entries n = lookup_at [[HASH]] n"
  by (simp add: hash_entries_def wild_def split: option.split)

lemma wild_simps [simp]: "wild [PLUS]" "wild [HASH]"
  by (simp_all add: wild_def)

lemma kids_no_wild: "kids_ok False c \<Longrightarrow> wild p \<Longrightarrow> map_of c p = None"
  using kids_ok_child by (cases "map_of c p") auto

lemma set_collect:
  "node_ok n \<Longrightarrow> set (collect n ts) = {it. \<exists>fs. trie_match fs ts \<and> it \<in> set (lookup_at fs n)}"
proof (induction n ts rule: collect.induct)
  case (1 c w es)
  have tm: "trie_match fs [] \<longleftrightarrow> fs = [] \<or> fs = [[HASH]]" for fs by (cases fs) auto
  have "set (lookup_at [[HASH]] (Node c w es)) \<union> set (lookup_at [] (Node c w es))
      = {it. \<exists>fs. trie_match fs [] \<and> it \<in> set (lookup_at fs (Node c w es))}"
    unfolding tm by blast
  then show ?case
    by (simp only: collect.simps set_append hash_entries_lookup lookup_at.simps(1) node.sel)
next
  case (2 c w es part parts)
  let ?n = "Node c w es"
  from "2.prems" have k: "kids_ok False c" "kids_ok True w" by (simp_all only: node_ok_kids)
  have tm: "trie_match fs (part # parts) \<longleftrightarrow>
      fs = [[HASH]] \<or> (\<exists>gs. fs = [PLUS] # gs \<and> trie_match gs parts)
      \<or> (\<exists>gs. \<not> wild part \<and> fs = part # gs \<and> trie_match gs parts)" for fs
    by (cases fs) (auto simp: wild_def)
  have lit: "set (case map_of c part of None \<Rightarrow> [] | Some m \<Rightarrow> collect m parts)
      = {it. \<exists>gs. \<not> wild part \<and> trie_match gs parts \<and> it \<in> set (lookup_at (part # gs) ?n)}"
    using "2.IH"(1) kids_ok_child [OF k(1), of part] kids_no_wild [OF k(1), of part]
    by (cases "map_of c part") auto
  have plus: "set (case map_of w [PLUS] of None \<Rightarrow> [] | Some m \<Rightarrow> collect m parts)
      = {it. \<exists>gs. trie_match gs parts \<and> it \<in> set (lookup_at ([PLUS] # gs) ?n)}"
    using "2.IH"(2) kids_ok_child [OF k(2), of "[PLUS]"] by (cases "map_of w [PLUS]") auto
  show ?case
    unfolding collect.simps set_append lit plus hash_entries_lookup tm by blast
qed

text \<open>Nothing is collected twice when every entry is stored once.\<close>

definition stored_once :: "node \<Rightarrow> bool" where
  "stored_once n \<longleftrightarrow> (\<forall>q. distinct (lookup_at q n))
     \<and> (\<forall>q q'. q \<noteq> q' \<longrightarrow> set (lookup_at q n) \<inter> set (lookup_at q' n) = {})"

lemma stored_once_child:
  assumes "stored_once n" and "map_of (if wild p then wildcard_children n else children n) p = Some m"
  shows "stored_once m"
proof -
  have "lookup_at q m = lookup_at (p # q) n" for q using assms(2) by simp
  then show ?thesis using assms(1) unfolding stored_once_def by (metis list.inject)
qed

lemma collect_distinct: "node_ok n \<Longrightarrow> stored_once n \<Longrightarrow> distinct (collect n ts)"
proof (induction n ts rule: collect.induct)
  case (1 c w es)
  then have "distinct (lookup_at [[HASH]] (Node c w es))" "distinct (lookup_at [] (Node c w es))"
    "set (lookup_at [[HASH]] (Node c w es)) \<inter> set (lookup_at [] (Node c w es)) = {}"
    unfolding stored_once_def by blast+
  then show ?case unfolding collect.simps hash_entries_lookup distinct_append by simp
next
  case (2 c w es part parts)
  let ?n = "Node c w es"
  let ?A = "case map_of c part of None \<Rightarrow> [] | Some m \<Rightarrow> collect m parts"
  let ?B = "case map_of w [PLUS] of None \<Rightarrow> [] | Some m \<Rightarrow> collect m parts"
  from "2.prems"(1) have k: "kids_ok False c" "kids_ok True w" by (simp_all only: node_ok_kids)
  have sep: "p = p'" if "it \<in> set (lookup_at (p # q) ?n)" "it \<in> set (lookup_at (p' # q') ?n)"
    for it p q p' q'
    using "2.prems"(2) that unfolding stored_once_def by (metis disjoint_iff list.inject)
  have A: "distinct ?A \<and> (\<forall>it \<in> set ?A. \<not> wild part \<and> (\<exists>q. it \<in> set (lookup_at (part # q) ?n)))"
  proof (cases "map_of c part")
    case (Some m)
    note ok = kids_ok_child [OF k(1) Some]
    from ok Some have "stored_once m" by (intro stored_once_child [OF "2.prems"(2), of part]) simp
    with ok Some "2.IH"(1) [OF Some] show ?thesis by (auto simp: set_collect)
  qed simp
  have B: "distinct ?B \<and> (\<forall>it \<in> set ?B. \<exists>q. it \<in> set (lookup_at ([PLUS] # q) ?n))"
  proof (cases "map_of w [PLUS]")
    case (Some m)
    note ok = kids_ok_child [OF k(2) Some]
    from Some have "stored_once m" by (intro stored_once_child [OF "2.prems"(2), of "[PLUS]"]) simp
    with ok Some "2.IH"(2) [OF Some] show ?thesis by (auto simp: set_collect)
  qed simp
  have H: "distinct (lookup_at [[HASH]] ?n)" using "2.prems"(2) unfolding stored_once_def by blast
  have "set (lookup_at [[HASH]] ?n) \<inter> set ?A = {}" "set ?A \<inter> set ?B = {}"
    using A B sep wild_simps by (metis disjoint_iff)+
  moreover have "set (lookup_at [[HASH]] ?n) \<inter> set ?B = {}"
  proof (rule ccontr)
    assume "set (lookup_at [[HASH]] ?n) \<inter> set ?B \<noteq> {}"
    then obtain it q where "it \<in> set (lookup_at [[HASH]] ?n)" "it \<in> set (lookup_at ([PLUS] # q) ?n)"
      using B by blast
    from sep [OF this] show False by simp
  qed
  ultimately show ?case
    unfolding collect.simps hash_entries_lookup distinct_append set_append using A B H by blast
qed

section \<open>The index and its flat specification\<close>

definition path_of :: "item \<Rightarrow> pystr list" where
  "path_of it = split_levels (actual_filter it)"

definition has_identifier :: "int \<Rightarrow> item \<Rightarrow> bool" where
  "has_identifier i it \<longleftrightarrow> se_subscription_identifier (snd it) = Some i"

definition index_inv :: "SubscriptionIndex \<Rightarrow> bool" where
  "index_inv ix \<longleftrightarrow> node_ok (ix_root ix) \<and> distinct (map fst (ix_entries ix))
     \<and> (\<forall>q. lookup_at q (ix_root ix) = filter (\<lambda>it. path_of it = q) (ix_entries ix))
     \<and> (\<forall>i. index_by_identifier i ix = filter (has_identifier i) (ix_entries ix))
     \<and> (\<forall>i. map_of (ix_by_identifier ix) i \<noteq> Some [])"

lemma index_inv_init [simp]: "index_inv SubscriptionIndex_init"
  by (simp add: index_inv_def SubscriptionIndex_init_def index_by_identifier_def)

lemma index_inv_clear [simp]: "index_inv (index_clear ix)"
  by (simp add: index_inv_def index_clear_def index_by_identifier_def)

text \<open>Removal, part by part.\<close>

lemma remove_filter_key:
  assumes "distinct (map fst d)" and "map_of d flt = Some entry"
  shows "filter (\<lambda>it. \<not> (fst it = flt \<and> se_ref (snd it) = se_ref entry)) (filter P d)
           = filter P (AList.delete flt d)"
  using dict_item [OF assms] by (auto simp: AList_delete_filter intro!: filter_cong)

lemma filter_delete_other:
  assumes "distinct (map fst d)" and "map_of d flt = Some entry" and "\<not> P (flt, entry)"
  shows "filter P (AList.delete flt d) = filter P d"
  using dict_item [OF assms(1,2)] assms(3) by (auto simp: AList_delete_filter intro!: filter_cong)

lemma identifier_remove_lookup:
  "(case map_of (identifier_remove flt i d) j of None \<Rightarrow> [] | Some l \<Rightarrow> l)
     = (if j = i then AList.delete flt (case map_of d i of None \<Rightarrow> [] | Some l \<Rightarrow> l)
        else (case map_of d j of None \<Rightarrow> [] | Some l \<Rightarrow> l))"
  by (auto simp: identifier_remove_def AList.update_conv' AList.delete_conv' split: option.split)

lemma identifier_remove_nonempty:
  "\<forall>j. map_of d j \<noteq> Some [] \<Longrightarrow> map_of (identifier_remove flt i d) j \<noteq> Some []"
  by (auto simp: identifier_remove_def AList.update_conv' AList.delete_conv' split: option.split)

lemma by_identifier_remove:
  "map_of (ix_entries ix) flt = Some entry \<Longrightarrow>
     index_by_identifier i (snd (index_remove flt ix)) =
       (if se_subscription_identifier entry = Some i then AList.delete flt (index_by_identifier i ix)
        else index_by_identifier i ix)"
  by (cases "se_subscription_identifier entry")
     (auto simp: index_remove_def index_by_identifier_def identifier_remove_lookup)

lemma index_remove_spec:
  assumes "index_inv ix"
  shows "fst (index_remove flt ix) = map_of (ix_entries ix) flt"
    and "ix_entries (snd (index_remove flt ix)) = AList.delete flt (ix_entries ix)"
    and "index_inv (snd (index_remove flt ix))"
proof -
  let ?d = "ix_entries ix"
  show "fst (index_remove flt ix) = map_of ?d flt"
    by (simp add: index_remove_def split: option.split)
  have gone: "AList.delete flt ?d = ?d" if "map_of ?d flt = None"
    using that by (simp add: AList.delete_idem map_of_eq_None_iff)
  then show e: "ix_entries (snd (index_remove flt ix)) = AList.delete flt ?d"
    by (simp add: index_remove_def split: option.split)
  show "index_inv (snd (index_remove flt ix))"
  proof (cases "map_of ?d flt")
    case None
    with assms show ?thesis by (simp add: index_remove_def)
  next
    case (Some entry)
    note inv = assms [unfolded index_inv_def]
    have look: "lookup_at q (ix_root (snd (index_remove flt ix)))
        = filter (\<lambda>it. path_of it = q) (AList.delete flt ?d)" for q
      using inv remove_filter_key [OF _ Some] filter_delete_other [OF _ Some]
      by (auto simp: index_remove_def Some lookup_remove path_of_def)
    have ident: "index_by_identifier i (snd (index_remove flt ix))
        = filter (has_identifier i) (AList.delete flt ?d)" for i
      using inv filter_delete_other [of ?d flt entry "has_identifier i", OF _ Some]
      by (auto simp: by_identifier_remove [OF Some] has_identifier_def AList_delete_filter
          intro!: filter_cong)
    have "map_of (ix_by_identifier (snd (index_remove flt ix))) i \<noteq> Some []" for i
      using inv by (auto simp: index_remove_def Some identifier_remove_nonempty split: option.split)
    moreover have "node_ok (ix_root (snd (index_remove flt ix)))"
      using inv by (simp add: index_remove_def Some node_ok_remove)
    ultimately show ?thesis
      using inv look ident unfolding index_inv_def e by (simp add: AList.distinct_delete)
  qed
qed

text \<open>Adding, on a filter that is not in the index, and in general.\<close>

definition index_append :: "pystr \<Rightarrow> SubscriptionEntry \<Rightarrow> SubscriptionIndex \<Rightarrow> SubscriptionIndex" where
  "index_append flt entry ix =
     ix\<lparr>ix_root := insert_entry (split_levels (actual_filter (flt, entry))) (flt, entry) (ix_root ix),
        ix_entries := AList.update flt entry (ix_entries ix),
        ix_by_identifier :=
          (case se_subscription_identifier entry of
             None \<Rightarrow> ix_by_identifier ix
           | Some i \<Rightarrow> identifier_add (flt, entry) i (ix_by_identifier ix))\<rparr>"

lemma index_add_append:
  "index_inv ix \<Longrightarrow> index_add flt entry ix = index_append flt entry (snd (index_remove flt ix))"
  by (simp add: index_add_def index_append_def index_remove_def Let_def split: option.split)

lemma by_identifier_append:
  "index_by_identifier i (index_append flt entry ix) =
     (if se_subscription_identifier entry = Some i then AList.update flt entry (index_by_identifier i ix)
      else index_by_identifier i ix)"
  by (cases "se_subscription_identifier entry")
     (auto simp: index_append_def identifier_add_def index_by_identifier_def AList.update_conv')

lemma index_append_spec:
  assumes "index_inv ix" and "map_of (ix_entries ix) flt = None"
  shows "ix_entries (index_append flt entry ix) = ix_entries ix @ [(flt, entry)]"
    and "index_inv (index_append flt entry ix)"
proof -
  let ?d = "ix_entries ix" and ?ix = "index_append flt entry ix"
  note inv = assms(1) [unfolded index_inv_def]
  have new: "flt \<notin> fst ` set ?d" using assms(2) by (simp add: map_of_eq_None_iff)
  show e: "ix_entries ?ix = ?d @ [(flt, entry)]"
    by (simp add: index_append_def AList_update_new new)
  have ident: "index_by_identifier i ?ix = filter (has_identifier i) (?d @ [(flt, entry)])" for i
  proof -
    have "index_by_identifier i ix = filter (has_identifier i) ?d" using inv by blast
    moreover have "flt \<notin> fst ` set (filter (has_identifier i) ?d)" using new by auto
    ultimately show ?thesis by (simp add: by_identifier_append has_identifier_def AList_update_new)
  qed
  have "map_of (ix_by_identifier ?ix) i \<noteq> Some []" for i
    using inv by (auto simp: index_append_def identifier_add_def AList.update_conv' split: option.splits)
  moreover have "node_ok (ix_root ?ix)" using inv by (simp add: index_append_def node_ok_insert)
  moreover have "lookup_at q (ix_root ?ix) = filter (\<lambda>it. path_of it = q) (?d @ [(flt, entry)])" for q
    using inv by (auto simp: index_append_def lookup_insert path_of_def)
  ultimately show "index_inv ?ix"
    using inv ident new unfolding index_inv_def e by simp
qed

lemma index_add_spec:
  assumes "index_inv ix"
  shows "ix_entries (index_add flt entry ix) = AList.delete flt (ix_entries ix) @ [(flt, entry)]"
    and "index_inv (index_add flt entry ix)"
proof -
  note r = index_remove_spec(2,3) [OF assms, of flt]
  have "map_of (ix_entries (snd (index_remove flt ix))) flt = None"
    by (simp add: r AList.delete_conv')
  from index_append_spec [OF r(2) this, of entry] r(1)
  show "ix_entries (index_add flt entry ix) = AList.delete flt (ix_entries ix) @ [(flt, entry)]"
    and "index_inv (index_add flt entry ix)"
    by (simp_all add: index_add_append [OF assms])
qed

section \<open>Matching and selecting\<close>

definition indexable :: "item \<Rightarrow> bool" where
  "indexable it \<longleftrightarrow> [HASH] \<notin> set (butlast (path_of it))"

definition matching_entries :: "pystr \<Rightarrow> item list \<Rightarrow> item list" where
  "matching_entries topic d = filter (\<lambda>it. matches_actual (actual_filter it) topic) d"

lemma index_inv_stored_once: "index_inv ix \<Longrightarrow> stored_once (ix_root ix)"
  unfolding stored_once_def index_inv_def by (auto simp: distinct_map)

lemma set_index_match:
  assumes "index_inv ix" and "\<forall>it \<in> set (ix_entries ix). indexable it"
  shows "set (index_match topic ix) = set (matching_entries topic (ix_entries ix))"
proof -
  have "it \<in> set (ix_entries ix) \<Longrightarrow> matches_actual (actual_filter it) topic \<Longrightarrow>
      trie_match (path_of it) (split_levels topic)" for it
    using assms(2) by (auto simp: matches_actual_def path_of_def indexable_def trie_match_parts split: if_splits)
  then show ?thesis
    using assms(1) by (auto simp: index_match_def Let_def matching_entries_def set_collect index_inv_def)
qed

lemma mset_index_match:
  assumes "index_inv ix" and "\<forall>it \<in> set (ix_entries ix). indexable it"
  shows "mset (index_match topic ix) = mset (matching_entries topic (ix_entries ix))"
proof -
  have "distinct (collect (ix_root ix) (split_levels topic))"
    using assms(1) collect_distinct index_inv_stored_once by (auto simp: index_inv_def)
  then have "distinct (index_match topic ix)" by (simp add: index_match_def Let_def)
  moreover have "distinct (matching_entries topic (ix_entries ix))"
    using assms(1) by (simp add: index_inv_def matching_entries_def distinct_map)
  ultimately show ?thesis
    using set_index_match [OF assms, of topic] set_eq_iff_mset_eq_distinct by blast
qed

abbreviation specificity :: "item \<Rightarrow> nat list" where
  "specificity it \<equiv> filter_specificity (actual_filter it)"

lemma sorted_index_match: "sorted (map specificity (index_match topic ix))"
  by (simp add: index_match_def Let_def)

lemma select_from_spec:
  assumes "cs \<noteq> []"
  obtains r where "sel_recipient (select_from cs) = Some r" and "r \<in> set cs"
    and "\<forall>it \<in> set cs. specificity r \<le> specificity it"
    and "sel_tied_filters (select_from cs) =
      (let ws = filter (\<lambda>it. specificity it = specificity r) cs in if length ws > 1 then map fst ws else [])"
proof -
  define best where "best = fold min (map specificity (tl cs)) (specificity (hd cs))"
  define ws where "ws = filter (\<lambda>it. specificity it = best) cs"
  have "best = Min (set (map specificity cs))"
    unfolding best_def using Min.set_eq_fold [of "specificity (hd cs)" "map specificity (tl cs)"] assms
    by (cases cs) simp_all
  then have best: "best \<in> specificity ` set cs" "\<forall>it \<in> set cs. best \<le> specificity it"
    using assms Min_in [of "specificity ` set cs"] by simp_all
  then have "ws \<noteq> []" by (auto simp: ws_def filter_empty_conv)
  then have r: "hd ws \<in> set cs" "specificity (hd ws) = best"
    using hd_in_set [of ws] by (auto simp: ws_def)
  have "sel_recipient (select_from cs) = Some (hd ws)"
    "sel_tied_filters (select_from cs) = (if length ws > 1 then map fst ws else [])"
    using assms by (simp_all add: select_from_def Let_def best_def ws_def)
  then show ?thesis using that [of "hd ws"] r best(2) by (simp add: ws_def)
qed

text \<open>Filters that passed validation are indexable, under their actual filter.\<close>

lemma hash_wf_suffix: "hash_wf (xs @ ys) \<Longrightarrow> ys \<noteq> [] \<Longrightarrow> hash_wf ys"
  by (auto simp: hash_wf_def butlast_append)

lemma strip_decorator_split:
  "strip_decorator f prefixes = f \<or> (\<exists>g. f = g @ SLASH # strip_decorator f prefixes)"
proof (induction prefixes)
  case (Cons d prefixes)
  show ?case
  proof (cases "startswith f (d @ [SLASH])")
    case True
    then have "SLASH \<in> set f" unfolding startswith_def by (metis in_set_takeD in_set_conv_decomp)
    then obtain g h where "f = g @ SLASH # h" "SLASH \<notin> set g" by (metis split_list_first)
    then show ?thesis using True by auto
  qed (use Cons in simp)
qed simp

lemma shared_filter_split:
  "shared_filter_to_actual f prefixes = f \<or> (\<exists>g. f = g @ SLASH # shared_filter_to_actual f prefixes)"
proof (cases "startswith f (str_lit ''$share/'')
    \<and> fst (snd (partition_slash (removeprefix f (str_lit ''$share/''))))")
  case True
  then obtain r where f: "f = str_lit ''$share/'' @ r" and r: "SLASH \<in> set r"
    by (metis append_take_drop_id fst_conv partition_slash_def removeprefix_def snd_conv startswith_def)
  then obtain g h where h: "r = g @ SLASH # h" "SLASH \<notin> set g" by (metis split_list_first)
  with f have "shared_filter_to_actual f prefixes = h" by (simp add: actual_of_share)
  with f h have "f = (str_lit ''$share/'' @ g) @ SLASH # shared_filter_to_actual f prefixes" by simp
  then show ?thesis by blast
next
  case False
  then have "shared_filter_to_actual f prefixes = strip_decorator f prefixes"
    by (auto simp: shared_filter_to_actual_def Let_def)
  then show ?thesis using strip_decorator_split [of f prefixes] by simp
qed

lemma hash_wf_no_inner: "hash_wf ls \<Longrightarrow> [HASH] \<notin> set (butlast ls)"
  by (auto simp: hash_wf_def)

lemma indexable_validated:
  assumes "validate_subscribe_topic f = Inr ()"
    and "se_actual_filter e = shared_filter_to_actual f prefixes"
  shows "indexable (f, e)"
proof -
  have wf: "hash_wf (split_levels f)" using assms(1) by (simp add: validate_subscribe_wf filter_wf_def)
  have "hash_wf (split_levels (shared_filter_to_actual f prefixes))"
    using shared_filter_split [of f prefixes] wf hash_wf_suffix split_levels_append
    by (metis split_levels_nonempty)
  with wf show ?thesis
    by (auto simp: indexable_def path_of_def actual_filter_def assms(2) dest: hash_wf_no_inner)
qed

section \<open>The interface of a subscription store\<close>

text \<open>
  What the protocol relies on: a store is its flat list of entries in the order they were added,
  and matching finds exactly the entries whose filter matches.
\<close>

locale subscription_store =
  fixes inv :: "'s \<Rightarrow> bool"
    and flat :: "'s \<Rightarrow> item list"
    and ok :: "item \<Rightarrow> bool"
    and put :: "pystr \<Rightarrow> SubscriptionEntry \<Rightarrow> 's \<Rightarrow> 's"
    and drop_key :: "pystr \<Rightarrow> 's \<Rightarrow> SubscriptionEntry option \<times> 's"
    and matching :: "pystr \<Rightarrow> 's \<Rightarrow> item list"
  assumes keys: "inv s \<Longrightarrow> distinct (map fst (flat s))"
    and put: "inv s \<Longrightarrow> ok (f, e) \<Longrightarrow>
      inv (put f e s) \<and> flat (put f e s) = AList.delete f (flat s) @ [(f, e)]"
    and drop_key: "inv s \<Longrightarrow> inv (snd (drop_key f s))
      \<and> fst (drop_key f s) = map_of (flat s) f
      \<and> flat (snd (drop_key f s)) = AList.delete f (flat s)"
    and matching: "inv s \<Longrightarrow> mset (matching t s) = mset (matching_entries t (flat s))"
begin

lemma matching_put:
  assumes "inv s" and "ok (f, e)"
  shows "mset (matching t (put f e s)) =
    filter_mset (\<lambda>it. fst it \<noteq> f) (mset (matching t s))
    + (if matches_actual (actual_filter (f, e)) t then {#(f, e)#} else {#})"
  using put [OF assms] matching [of "put f e s" t] matching [OF assms(1), of t]
  by (simp add: matching_entries_def AList_delete_filter mset_filter filter_filter_mset conj_commute)

lemma matching_drop_key:
  assumes "inv s"
  shows "mset (matching t (snd (drop_key f s))) = filter_mset (\<lambda>it. fst it \<noteq> f) (mset (matching t s))"
  using drop_key [OF assms, of f] matching [of "snd (drop_key f s)" t] matching [OF assms, of t]
  by (simp add: matching_entries_def AList_delete_filter mset_filter filter_filter_mset conj_commute)

lemma drop_put:
  assumes "inv s" and "ok (f, e)"
  shows "fst (drop_key f (put f e s)) = Some e
    \<and> flat (snd (drop_key f (put f e s))) = flat (snd (drop_key f s))"
proof -
  from put [OF assms] have p: "inv (put f e s)" "flat (put f e s) = AList.delete f (flat s) @ [(f, e)]"
    by auto
  have "map_of (AList.delete f (flat s) @ [(f, e)]) f = Some e"
    by (simp add: map_add_def AList.delete_conv')
  with p(2) drop_key [OF p(1), of f] drop_key [OF assms(1), of f] show ?thesis
    by (simp add: AList_delete_filter)
qed

end

definition store_inv :: "SubscriptionIndex \<Rightarrow> bool" where
  "store_inv ix \<longleftrightarrow> index_inv ix \<and> (\<forall>it \<in> set (ix_entries ix). indexable it)"

interpretation index: subscription_store store_inv ix_entries indexable index_add index_remove index_match
proof unfold_locales
  fix s f e t assume inv: "store_inv s"
  then have ix: "index_inv s" by (simp add: store_inv_def)
  show "distinct (map fst (ix_entries s))" using ix by (simp add: index_inv_def)
  show "store_inv (index_add f e s) \<and> ix_entries (index_add f e s) = AList.delete f (ix_entries s) @ [(f, e)]"
    if "indexable (f, e)"
    using inv that index_add_spec [OF ix] by (auto simp: store_inv_def AList_delete_filter)
  show "store_inv (snd (index_remove f s))
      \<and> fst (index_remove f s) = map_of (ix_entries s) f
      \<and> ix_entries (snd (index_remove f s)) = AList.delete f (ix_entries s)"
    using inv index_remove_spec [OF ix, of f]
    by (auto simp: store_inv_def AList_delete_filter)
  show "mset (index_match t s) = mset (matching_entries t (ix_entries s))"
    using inv by (simp add: store_inv_def mset_index_match)
qed

section \<open>Properties\<close>

text \<open>The operations that change an index, and their effect on the flat list.\<close>

datatype index_op =
    Add pystr SubscriptionEntry
  | Remove pystr
  | Clear
  | AddObserver pystr
  | RemoveObserver pystr

fun index_step :: "index_op \<Rightarrow> SubscriptionIndex \<Rightarrow> SubscriptionIndex" where
  "index_step (Add f e) ix = index_add f e ix"
| "index_step (Remove f) ix = snd (index_remove f ix)"
| "index_step Clear ix = index_clear ix"
| "index_step (AddObserver t) ix = snd (add_response_observer t ix)"
| "index_step (RemoveObserver t) ix = snd (remove_response_observer t ix)"

fun flat_step :: "index_op \<Rightarrow> item list \<Rightarrow> item list" where
  "flat_step (Add f e) d = AList.delete f d @ [(f, e)]"
| "flat_step (Remove f) d = AList.delete f d"
| "flat_step Clear d = []"
| "flat_step (AddObserver t) d = d"
| "flat_step (RemoveObserver t) d = d"

lemma observers_inv:
  "index_inv (snd (add_response_observer t ix)) = index_inv ix"
  "index_inv (snd (remove_response_observer t ix)) = index_inv ix"
  by (simp_all add: add_response_observer_def remove_response_observer_def index_inv_def
      index_by_identifier_def)

lemma index_step_refines:
  "index_inv ix \<Longrightarrow> index_inv (index_step op ix) \<and> ix_entries (index_step op ix) = flat_step op (ix_entries ix)"
  by (cases op)
     (simp_all add: index_add_spec index_remove_spec observers_inv, simp_all add: index_clear_def
       add_response_observer_def remove_response_observer_def)

lemma index_run_refines:
  "index_inv ix \<Longrightarrow> index_inv (fold index_step ops ix)
     \<and> ix_entries (fold index_step ops ix) = fold flat_step ops (ix_entries ix)"
  by (induction ops arbitrary: ix) (simp_all add: index_step_refines)

lemma flat_run_indexable:
  "\<forall>f e. Add f e \<in> set ops \<longrightarrow> indexable (f, e) \<Longrightarrow> \<forall>it \<in> set d. indexable it \<Longrightarrow>
     \<forall>it \<in> set (fold flat_step ops d). indexable it"
proof (induction ops arbitrary: d)
  case (Cons op ops)
  then have "\<forall>it \<in> set (flat_step op d). indexable it"
    by (cases op) (auto simp: AList_delete_filter)
  with Cons show ?case by simp
qed simp

lemma init_entries [simp]: "ix_entries SubscriptionIndex_init = []"
  by (simp add: SubscriptionIndex_init_def)

text \<open>
  C34: the index refines a plain ordered dict: after any sequence of operations its entries are
  those of the dict, and the trie, read at any path, and the identifier table, read at any
  identifier, hold exactly the dict's entries with that path or identifier, in the same order.
\<close>

theorem index_refines_dict:
  "let ix = fold index_step ops SubscriptionIndex_init; d = fold flat_step ops [] in
     ix_entries ix = d
     \<and> (\<forall>f. index_get f ix = map_of d f \<and> fst (index_remove f ix) = map_of d f)
     \<and> (\<forall>q. lookup_at q (ix_root ix) = filter (\<lambda>it. split_levels (actual_filter it) = q) d)
     \<and> (\<forall>i. index_by_identifier i ix = filter (\<lambda>it. se_subscription_identifier (snd it) = Some i) d)"
proof -
  from index_run_refines [OF index_inv_init, of ops] have
    inv: "index_inv (fold index_step ops SubscriptionIndex_init)" and
    e: "ix_entries (fold index_step ops SubscriptionIndex_init) = fold flat_step ops []" by simp_all
  with index_remove_spec(1) [OF inv] inv [unfolded index_inv_def] show ?thesis
    by (simp add: Let_def index_get_def path_of_def [abs_def] has_identifier_def [abs_def])
qed

text \<open>
  C26: matching a topic returns every subscription whose filter matches it, once each and no other,
  the most specific first; the trie loses nothing.  The filters are those that passed
  \<open>validate_subscribe_topic\<close>, indexed under their filter without decorators.
\<close>

theorem index_match_complete:
  assumes "\<forall>f e. Add f e \<in> set ops \<longrightarrow>
      validate_subscribe_topic f = Inr () \<and> se_actual_filter e = shared_filter_to_actual f prefixes"
  shows "let ix = fold index_step ops SubscriptionIndex_init in
     mset (index_match topic ix)
       = mset (filter (\<lambda>it. matches_actual (actual_filter it) topic) (fold flat_step ops []))
     \<and> sorted (map (\<lambda>it. filter_specificity (actual_filter it)) (index_match topic ix))"
proof -
  have ok: "\<forall>f e. Add f e \<in> set ops \<longrightarrow> indexable (f, e)" using assms indexable_validated by blast
  have run: "index_inv (fold index_step ops SubscriptionIndex_init)"
    "ix_entries (fold index_step ops SubscriptionIndex_init) = fold flat_step ops []"
    using index_run_refines [OF index_inv_init, of ops] by simp_all
  have "\<forall>it \<in> set (fold flat_step ops []). indexable it"
    using flat_run_indexable [OF ok, of "[]"] by simp
  then show ?thesis
    using mset_index_match [OF run(1)] sorted_index_match run(2) by (simp add: Let_def matching_entries_def)
qed

definition sample_entry :: "nat \<Rightarrow> pystr \<Rightarrow> SubscriptionEntry" where
  "sample_entry r f = \<lparr>se_ref = r, se_queue = r, se_auto_ack = True, se_actual_filter = f, se_subscription_identifier = None\<rparr>"

theorem index_match_complete_witness:
  "mset (index_match (str_lit ''a/b'') (fold index_step
     [Add (str_lit ''a/#'') (sample_entry 0 (str_lit ''a/#'')),
      Add (str_lit ''a/b'') (sample_entry 1 (str_lit ''a/b''))] SubscriptionIndex_init))
   = {#(str_lit ''a/#'', sample_entry 0 (str_lit ''a/#'')), (str_lit ''a/b'', sample_entry 1 (str_lit ''a/b''))#}"
proof -
  let ?ops = "[Add (str_lit ''a/#'') (sample_entry 0 (str_lit ''a/#'')),
      Add (str_lit ''a/b'') (sample_entry 1 (str_lit ''a/b''))]"
  have v: "validate_subscribe_topic (str_lit ''a/#'') = Inr ()" "validate_subscribe_topic (str_lit ''a/b'') = Inr ()"
    "str_lit ''a/#'' = shared_filter_to_actual (str_lit ''a/#'') DEFAULT_STRIPPED_PREFIXES"
    "str_lit ''a/b'' = shared_filter_to_actual (str_lit ''a/b'') DEFAULT_STRIPPED_PREFIXES"
    "filter (\<lambda>it. matches_actual (actual_filter it) (str_lit ''a/b'')) (fold flat_step ?ops [])
     = [(str_lit ''a/#'', sample_entry 0 (str_lit ''a/#'')), (str_lit ''a/b'', sample_entry 1 (str_lit ''a/b''))]"
    by code_simp+
  have "\<forall>f e. Add f e \<in> set ?ops \<longrightarrow> validate_subscribe_topic f = Inr ()
      \<and> se_actual_filter e = shared_filter_to_actual f DEFAULT_STRIPPED_PREFIXES"
    using v(1-4) by (auto simp: sample_entry_def)
  from index_match_complete [OF this, of "str_lit ''a/b''"] show ?thesis
    unfolding Let_def v(5) by (simp add: add_mset_commute)
qed

text \<open>
  C35: \<open>select\<close> finds a recipient exactly when some subscription matches; the recipient matches, no
  other matching subscription is more specific, and \<open>tied_filters\<close> names, each once, exactly the
  matching subscriptions that are as specific as the recipient when there is more than one of them,
  and nothing otherwise.
\<close>

theorem index_select_most_specific:
  assumes "store_inv ix"
  shows "case sel_recipient (index_select topic ix) of
      None \<Rightarrow> \<forall>it \<in> set (ix_entries ix). \<not> matches_actual (actual_filter it) topic
    | Some r \<Rightarrow> r \<in> set (ix_entries ix) \<and> matches_actual (actual_filter r) topic
        \<and> (\<forall>it \<in> set (ix_entries ix). matches_actual (actual_filter it) topic \<longrightarrow>
              filter_specificity (actual_filter r) \<le> filter_specificity (actual_filter it))
        \<and> (let tied = filter (\<lambda>it. matches_actual (actual_filter it) topic
                 \<and> filter_specificity (actual_filter it) = filter_specificity (actual_filter r)) (ix_entries ix)
           in mset (sel_tied_filters (index_select topic ix))
                = (if length tied > 1 then mset (map fst tied) else {#}))"
proof -
  have ms: "mset (index_match topic ix) = mset (matching_entries topic (ix_entries ix))"
    using assms by (auto simp: store_inv_def mset_index_match)
  have tie: "mset (if length ws > 1 then map fst ws else []) = (if length tied > 1 then mset (map fst tied) else {#})"
    if "ws = filter (\<lambda>it. specificity it = specificity r) (index_match topic ix)"
      and "tied = filter (\<lambda>it. matches_actual (actual_filter it) topic \<and> specificity it = specificity r) (ix_entries ix)"
    for r ws tied
  proof -
    have "tied = filter (\<lambda>it. specificity it = specificity r) (matching_entries topic (ix_entries ix))"
      unfolding that(2) matching_entries_def filter_filter by (rule filter_cong) auto
    then have "mset ws = mset tied" using ms by (simp add: that(1))
    moreover from this have "length ws = length tied" by (rule mset_eq_length)
    ultimately show ?thesis by simp
  qed
  have m: "set (index_match topic ix)
      = {it \<in> set (ix_entries ix). matches_actual (actual_filter it) topic}"
    using assms by (auto simp: store_inv_def set_index_match matching_entries_def)
  show ?thesis
  proof (cases "index_match topic ix = []")
    case True
    then have "{it \<in> set (ix_entries ix). matches_actual (actual_filter it) topic} = {}"
      using m by simp
    then show ?thesis using True by (auto simp: index_select_def select_from_def)
  next
    case False
    from select_from_spec [OF this] obtain r where
      r: "sel_recipient (index_select topic ix) = Some r" "r \<in> set (index_match topic ix)"
      "\<forall>it \<in> set (index_match topic ix). specificity r \<le> specificity it"
      "sel_tied_filters (index_select topic ix) =
        (let ws = filter (\<lambda>it. specificity it = specificity r) (index_match topic ix)
         in if length ws > 1 then map fst ws else [])"
      unfolding index_select_def by metis
    have "r \<in> set (ix_entries ix)" "matches_actual (actual_filter r) topic" using r(2) unfolding m by simp_all
    moreover have "\<forall>it \<in> set (ix_entries ix). matches_actual (actual_filter it) topic \<longrightarrow>
        specificity r \<le> specificity it"
      using r(3) unfolding m by blast
    ultimately show ?thesis using r(1,4) tie [OF refl refl, of r] by (simp add: Let_def)
  qed
qed

theorem index_select_most_specific_witness:
  "\<exists>r. sel_recipient (index_select (str_lit ''a/b'') (index_add (str_lit ''a/+'') (sample_entry 0 [])
     SubscriptionIndex_init)) = Some r \<and> matches_actual (actual_filter r) (str_lit ''a/b'')"
proof -
  let ?ix = "index_add (str_lit ''a/+'') (sample_entry 0 []) SubscriptionIndex_init"
  have ok: "indexable (str_lit ''a/+'', sample_entry 0 [])" by code_simp
  have "store_inv SubscriptionIndex_init" by (simp add: store_inv_def)
  then have inv: "store_inv ?ix" using index.put [OF _ ok] by blast
  have "ix_entries ?ix = [(str_lit ''a/+'', sample_entry 0 [])]"
    "matches_actual (actual_filter (str_lit ''a/+'', sample_entry 0 [])) (str_lit ''a/b'')" by code_simp+
  with index_select_most_specific [OF inv, of "str_lit ''a/b''"] show ?thesis
    by (auto split: option.splits)
qed

text \<open>
  an index whose entries have all been removed is as if new: the trie is back to its empty
  root and the identifier table holds nothing, so removals leave no dead nodes behind.
\<close>

theorem index_no_leak:
  assumes "index_inv ix" and "\<forall>f. index_get f ix = None"
  shows "ix_root ix = empty_node \<and> (\<forall>i. map_of (ix_by_identifier ix) i = None)"
proof -
  have e: "ix_entries ix = []" using assms(2) by (cases "ix_entries ix") (auto simp: index_get_def split: if_splits)
  have inv: "node_ok (ix_root ix)" "\<forall>q. lookup_at q (ix_root ix) = []"
    "\<forall>i. index_by_identifier i ix = []" "\<forall>i. map_of (ix_by_identifier ix) i \<noteq> Some []"
    using assms(1) e by (simp_all add: index_inv_def)
  have "map_of (ix_by_identifier ix) i = None" for i
    using inv(3,4) by (metis index_by_identifier_def option.case(2) option.exhaust)
  with inv(1,2) node_ok_stores show ?thesis by blast
qed

theorem index_no_leak_witness:
  "ix_root (snd (index_remove (str_lit ''a/b'') (index_add (str_lit ''a/b'') (sample_entry 0 [])
     SubscriptionIndex_init))) = empty_node"
proof -
  let ?ix = "snd (index_remove (str_lit ''a/b'') (index_add (str_lit ''a/b'') (sample_entry 0 [])
     SubscriptionIndex_init))"
  have inv: "index_inv ?ix"
    by (intro index_remove_spec(3) index_add_spec(2)) simp
  have "ix_entries ?ix = []" by code_simp
  then have "\<forall>f. index_get f ?ix = None" by (simp add: index_get_def)
  from index_no_leak [OF inv this] show ?thesis by blast
qed

text \<open>
  subscribing again to a filter replaces its entry: matching then finds the new entry in place
  of the old one and everything else unchanged; unsubscribing returns the entry and takes it,
  and only it, out of every match.
\<close>

theorem index_replace_and_remove:
  assumes "store_inv ix" and "indexable (f, e)"
  shows "mset (index_match topic (index_add f e ix)) =
      filter_mset (\<lambda>it. fst it \<noteq> f) (mset (index_match topic ix))
      + (if matches_actual (actual_filter (f, e)) topic then {#(f, e)#} else {#})
    \<and> fst (index_remove f (index_add f e ix)) = Some e
    \<and> mset (index_match topic (snd (index_remove f ix))) =
      filter_mset (\<lambda>it. fst it \<noteq> f) (mset (index_match topic ix))"
  using index.matching_put [OF assms] index.drop_put [OF assms] index.matching_drop_key [OF assms(1)]
  by simp

theorem index_replace_and_remove_witness:
  "fst (index_remove (str_lit ''a'') (index_add (str_lit ''a'') (sample_entry 0 []) SubscriptionIndex_init))
     = Some (sample_entry 0 [])"
proof -
  have ok: "indexable (str_lit ''a'', sample_entry 0 [])" by code_simp
  have "store_inv SubscriptionIndex_init" by (simp add: store_inv_def)
  from index_replace_and_remove [OF this ok] show ?thesis by simp
qed

text \<open>
  a publish that carries a subscription identifier goes to a subscription with that
  identifier whenever there is one, to one that matches the topic whenever one of them does;
  otherwise the selection by topic is used and flagged.
\<close>

theorem select_by_identifier_spec:
  assumes "index_inv ix"
  shows "if \<exists>it \<in> set (ix_entries ix). se_subscription_identifier (snd it) = Some i
    then \<exists>r \<in> set (ix_entries ix). sel_recipient (select_by_identifier topic i ix) = Some r
           \<and> se_subscription_identifier (snd r) = Some i
           \<and> ((\<exists>it \<in> set (ix_entries ix). se_subscription_identifier (snd it) = Some i
                  \<and> matches_actual (actual_filter it) topic)
              \<longrightarrow> matches_actual (actual_filter r) topic)
    else sel_identifier_missing (select_by_identifier topic i ix)
         \<and> sel_recipient (select_by_identifier topic i ix) = sel_recipient (index_select topic ix)"
proof -
  let ?l = "index_by_identifier i ix"
  let ?m = "filter (\<lambda>it. matches_actual (actual_filter it) topic) ?l"
  have l: "set ?l = {it \<in> set (ix_entries ix). se_subscription_identifier (snd it) = Some i}"
    using assms by (auto simp: index_inv_def has_identifier_def)
  show ?thesis
  proof (cases "?l = []")
    case True
    with l have "\<not> (\<exists>it \<in> set (ix_entries ix). se_subscription_identifier (snd it) = Some i)" by auto
    with True show ?thesis by (simp add: select_by_identifier_def)
  next
    case False
    let ?c = "if ?m \<noteq> [] then ?m else ?l"
    have "?c \<noteq> []" using False by auto
    from select_from_spec [OF this] obtain r where
      r: "sel_recipient (select_from ?c) = Some r" "r \<in> set ?c" by metis
    have "sel_recipient (select_by_identifier topic i ix) = Some r"
      using False r(1) by (simp add: select_by_identifier_def Let_def)
    moreover have "\<exists>it \<in> set (ix_entries ix). se_subscription_identifier (snd it) = Some i"
      using hd_in_set [OF False] unfolding l by blast
    moreover have "?m = [] \<longleftrightarrow> \<not> (\<exists>it \<in> set (ix_entries ix). se_subscription_identifier (snd it) = Some i
        \<and> matches_actual (actual_filter it) topic)"
      using l by (auto simp: filter_empty_conv)
    ultimately show ?thesis using r(2) l by (auto split: if_splits)
  qed
qed

theorem select_by_identifier_spec_witness:
  "sel_identifier_missing (select_by_identifier (str_lit ''a'') 7 SubscriptionIndex_init)"
  using select_by_identifier_spec [OF index_inv_init, of 7 "str_lit ''a''"] by simp

end
