(* ===== verification/Request_Response.thy ===== *)
theory Request_Response
  imports Packets
begin

text \<open>
  Correlation-based routing of MQTT 5.0 responses, \<open>request_response.py\<close>.  Pending requests, topic
  interests and readiness tasks are objects with identity: the dispatcher refers to them by
  number, and their fields are in its heaps.  A coroutine runs without interruption between two
  awaits, so each operation is cut into segments at its awaits, and \<open>rstep\<close> interleaves the
  segments of any number of operations: \<open>register\<close> up to its wait for the topic's SUBACK, the
  \<open>unregister\<close> that ends it or that \<open>close\<close> calls, up to its own wait, and what follows the waits.

  The invariant accounts for every unit of the semaphore and every topic interest, so that no
  interleaving leaks either.
\<close>

section \<open>Objects\<close>

record Message =
  msg_topic :: pystr
  msg_payload :: bytes
  msg_qos :: QoS
  msg_retain :: bool
  msg_properties :: "PublishProperties option"

type_synonym request_key = "pystr \<times> bytes"

datatype future = FPending | FResult Message | FException | FCancelled

record PendingRequest =
  pr_future :: future
  pr_key :: request_key
  pr_closed :: bool
  pr_claimed :: bool

record TopicInterest =
  ti_refcount :: int
  ti_ready :: "nat option"

datatype task = TRunning | TSucceeded | TFailed

record ClaimedResponse =
  cr_pending :: nat
  cr_key :: request_key
  cr_message :: Message
  cr_generation :: int

record RequestDispatcher =
  rd_capacity :: int
  rd_pending :: "(request_key \<times> nat) list"
  rd_topics :: "(pystr \<times> nat) list"
  rd_protocol :: "nat option"
  rd_generation :: int
  rd_requests :: "nat \<Rightarrow> PendingRequest"
  rd_interests :: "nat \<Rightarrow> TopicInterest"
  rd_tasks :: "nat \<Rightarrow> task"
  rd_fresh :: nat

datatype dispatcher_error =
    DispatcherValueError string
  | MQTTDisconnectedError string

definition blank_request :: PendingRequest where
  "blank_request = \<lparr>pr_future = FPending, pr_key = ([], []), pr_closed = False, pr_claimed = False\<rparr>"

definition blank_interest :: TopicInterest where
  "blank_interest = \<lparr>ti_refcount = 0, ti_ready = None\<rparr>"

definition RequestDispatcher_init :: "int \<Rightarrow> dispatcher_error + RequestDispatcher" where
  "RequestDispatcher_init max_pending_requests =
     (if max_pending_requests \<le> 0
      then Inl (DispatcherValueError ''max_pending_requests must be positive'')
      else Inr \<lparr>rd_capacity = max_pending_requests, rd_pending = [], rd_topics = [],
                rd_protocol = None, rd_generation = 0, rd_requests = \<lambda>_. blank_request,
                rd_interests = \<lambda>_. blank_interest, rd_tasks = \<lambda>_. TFailed, rd_fresh = 0\<rparr>)"

section \<open>Segments of the operations\<close>

definition pending_count :: "RequestDispatcher \<Rightarrow> nat" where
  "pending_count d = length (rd_pending d)"

definition bind :: "nat \<Rightarrow> RequestDispatcher \<Rightarrow> RequestDispatcher" where
  "bind protocol d =
     d\<lparr>rd_protocol := Some protocol, rd_generation := rd_generation d + 1,
       rd_requests := (\<lambda>r. if r \<in> snd ` set (rd_pending d) then (rd_requests d r)\<lparr>pr_claimed := False\<rparr>
                           else rd_requests d r),
       rd_interests := (\<lambda>i. if i \<in> snd ` set (rd_topics d) then (rd_interests d i)\<lparr>ti_ready := None\<rparr>
                            else rd_interests d i)\<rparr>"

definition require_protocol :: "RequestDispatcher \<Rightarrow> dispatcher_error + nat" where
  "require_protocol d =
     (case rd_protocol d of None \<Rightarrow> Inl (MQTTDisconnectedError ''Not connected'') | Some p \<Rightarrow> Inr p)"

definition ensure_unique :: "request_key \<Rightarrow> RequestDispatcher \<Rightarrow> dispatcher_error + unit" where
  "ensure_unique key d =
     (if map_of (rd_pending d) key \<noteq> None
      then Inl (DispatcherValueError ''correlation_data is already in use for this response_topic'')
      else Inr ())"

text \<open>\<open>_ensure_topic_ready\<close>: the task of the interest, created when there is none.\<close>

definition ensure_topic_ready ::
  "nat \<Rightarrow> RequestDispatcher \<Rightarrow> dispatcher_error + nat \<times> RequestDispatcher" where
  "ensure_topic_ready i d =
     (case ti_ready (rd_interests d i) of
        Some t \<Rightarrow> Inr (t, d)
      | None \<Rightarrow>
          rbind (require_protocol d) (\<lambda>_.
            let t = rd_fresh d in
            Inr (t, d\<lparr>rd_tasks := (rd_tasks d)(t := TRunning),
                      rd_interests := (rd_interests d)(i := (rd_interests d i)\<lparr>ti_ready := Some t\<rparr>),
                      rd_fresh := Suc t\<rparr>)))"

text \<open>
  \<open>register\<close> from the acquired semaphore to its wait.  An error leaves through \<open>finally\<close> with no
  waiter registered and gives the semaphore back.
\<close>

definition topic_interest :: "pystr \<Rightarrow> RequestDispatcher \<Rightarrow> nat \<times> RequestDispatcher" where
  "topic_interest topic d =
     (case map_of (rd_topics d) topic of
        Some i \<Rightarrow> (i, d)
      | None \<Rightarrow>
          let i = rd_fresh d in
          (i, d\<lparr>rd_topics := AList.update topic i (rd_topics d),
                rd_interests := (rd_interests d)(i := blank_interest), rd_fresh := Suc i\<rparr>))"

definition add_waiter :: "request_key \<Rightarrow> nat \<Rightarrow> RequestDispatcher \<Rightarrow> nat \<times> RequestDispatcher" where
  "add_waiter key i d =
     (let r = rd_fresh d;
          pending = \<lparr>pr_future = FPending, pr_key = key, pr_closed = False, pr_claimed = False\<rparr> in
      (r, d\<lparr>rd_requests := (rd_requests d)(r := pending),
            rd_pending := AList.update key r (rd_pending d),
            rd_interests := (rd_interests d)
              (i := (rd_interests d i)\<lparr>ti_refcount := ti_refcount (rd_interests d i) + 1\<rparr>),
            rd_fresh := Suc r\<rparr>))"

definition register_begin ::
  "pystr \<Rightarrow> bytes \<Rightarrow> RequestDispatcher \<Rightarrow> dispatcher_error + nat \<times> nat \<times> RequestDispatcher" where
  "register_begin topic correlation_data d =
     (let key = (topic, correlation_data); d0 = d\<lparr>rd_capacity := rd_capacity d - 1\<rparr> in
      rbind (ensure_unique key d0) (\<lambda>_.
      rbind (require_protocol d0) (\<lambda>_.
      let (i, d1) = topic_interest topic d0;
          (r, d2) = add_waiter key i d1
      in rmap (\<lambda>(t, d3). (r, t, d3)) (ensure_topic_ready i d2))))"

definition claim :: "Message \<Rightarrow> RequestDispatcher \<Rightarrow> ClaimedResponse option \<times> RequestDispatcher" where
  "claim message d =
     (case msg_properties message of
        None \<Rightarrow> (None, d)
      | Some properties \<Rightarrow>
     (case pp_correlation_data properties of
        None \<Rightarrow> (None, d)
      | Some correlation_data \<Rightarrow>
          let key = (msg_topic message, correlation_data) in
     (case map_of (rd_pending d) key of
        None \<Rightarrow> (None, d)
      | Some r \<Rightarrow>
          if pr_claimed (rd_requests d r) \<or> pr_future (rd_requests d r) \<noteq> FPending then (None, d)
          else (Some \<lparr>cr_pending = r, cr_key = key, cr_message = message, cr_generation = rd_generation d\<rparr>,
                d\<lparr>rd_requests := (rd_requests d)(r := (rd_requests d r)\<lparr>pr_claimed := True\<rparr>)\<rparr>))))"

definition complete :: "ClaimedResponse \<Rightarrow> RequestDispatcher \<Rightarrow> RequestDispatcher" where
  "complete response d =
     (let r = cr_pending response in
      if rd_generation d = cr_generation response \<and> map_of (rd_pending d) (cr_key response) = Some r
         \<and> pr_future (rd_requests d r) = FPending
      then d\<lparr>rd_requests := (rd_requests d)(r := (rd_requests d r)\<lparr>pr_future := FResult (cr_message response)\<rparr>)\<rparr>
      else d)"

text \<open>
  \<open>unregister\<close> up to its wait: the waiter was not registered; its topic is still in use; there is
  no task to wait for; or it waits for the interest's task.
\<close>

datatype unregistering =
    NotRegistered
  | StillShared
  | NoTask nat
  | AwaitTask nat nat

definition cancel_future :: "nat \<Rightarrow> RequestDispatcher \<Rightarrow> RequestDispatcher" where
  "cancel_future r d =
     (if pr_future (rd_requests d r) = FPending
      then d\<lparr>rd_requests := (rd_requests d)(r := (rd_requests d r)\<lparr>pr_future := FCancelled\<rparr>)\<rparr> else d)"

definition unregister_begin ::
  "request_key \<Rightarrow> nat \<Rightarrow> RequestDispatcher \<Rightarrow> (unregistering \<times> RequestDispatcher) option" where
  "unregister_begin key r d =
     (if map_of (rd_pending d) key \<noteq> Some r then Some (NotRegistered, d)
      else
      let d1 = cancel_future r (d\<lparr>rd_pending := AList.delete key (rd_pending d)\<rparr>) in
      (case map_of (rd_topics d1) (fst key) of
         None \<Rightarrow> None
       | Some i \<Rightarrow>
           let interest = (rd_interests d1 i)\<lparr>ti_refcount := ti_refcount (rd_interests d1 i) - 1\<rparr>;
               d2 = d1\<lparr>rd_interests := (rd_interests d1)(i := interest)\<rparr>
           in Some (if ti_refcount interest > 0 then StillShared
                    else case ti_ready interest of None \<Rightarrow> NoTask i | Some t \<Rightarrow> AwaitTask i t, d2)))"

text \<open>
  The \<open>finally\<close> after the wait.  The result says whether \<open>remove_response_observer\<close> is called on the
  protocol; the semaphore is released after it.
\<close>

definition unregister_end :: "pystr \<Rightarrow> nat \<Rightarrow> bool \<Rightarrow> RequestDispatcher \<Rightarrow> bool \<times> RequestDispatcher" where
  "unregister_end topic i observer_active d =
     (if ti_refcount (rd_interests d i) = 0 \<and> map_of (rd_topics d) topic = Some i
      then (observer_active \<and> rd_protocol d \<noteq> None, d\<lparr>rd_topics := AList.delete topic (rd_topics d)\<rparr>)
      else (False, d))"

definition release_capacity :: "RequestDispatcher \<Rightarrow> RequestDispatcher" where
  "release_capacity d = d\<lparr>rd_capacity := rd_capacity d + 1\<rparr>"

definition cancel_pending :: "RequestDispatcher \<Rightarrow> RequestDispatcher" where
  "cancel_pending d =
     (let pending = snd ` set (rd_pending d);
          ready_tasks = set (List.map_filter (\<lambda>(topic, i). ti_ready (rd_interests d i)) (rd_topics d)) in
      d\<lparr>rd_pending := [], rd_topics := [], rd_protocol := None, rd_generation := rd_generation d + 1,
        rd_requests := (\<lambda>r. if r \<in> pending \<and> pr_future (rd_requests d r) = FPending
                            then (rd_requests d r)\<lparr>pr_future := FException\<rparr> else rd_requests d r),
        rd_capacity := rd_capacity d + int (length (rd_pending d)),
        rd_tasks := (\<lambda>t. if t \<in> ready_tasks \<and> rd_tasks d t = TRunning then TFailed else rd_tasks d t)\<rparr>)"

section \<open>Interleavings\<close>

text \<open>
  What is under way: a \<open>register\<close> waiting for a task, an \<open>unregister\<close> waiting for the task of an
  interest, and an \<open>unregister\<close> about to release the semaphore.
\<close>

datatype activity =
    Registering request_key nat nat
  | Unregistering pystr nat nat
  | Releasing

type_synonym rr_state = "RequestDispatcher \<times> activity list"

definition unregister :: "request_key \<Rightarrow> nat \<Rightarrow> rr_state \<Rightarrow> rr_state option" where
  "unregister key r st =
     (case st of (d, acts) \<Rightarrow>
        (case unregister_begin key r d of
           None \<Rightarrow> None
         | Some (NotRegistered, d') \<Rightarrow> Some (d', acts)
         | Some (StillShared, d') \<Rightarrow> Some (release_capacity d', acts)
         | Some (NoTask i, d') \<Rightarrow> Some (release_capacity (snd (unregister_end (fst key) i False d')), acts)
         | Some (AwaitTask i t, d') \<Rightarrow> Some (d', Unregistering (fst key) i t # acts)))"

text \<open>\<open>_PendingRequest.close\<close>.\<close>

definition close :: "nat \<Rightarrow> rr_state \<Rightarrow> rr_state option" where
  "close r st =
     (case st of (d, acts) \<Rightarrow>
        if pr_closed (rd_requests d r) then Some st
        else unregister (pr_key (rd_requests d r)) r
               (d\<lparr>rd_requests := (rd_requests d)(r := (rd_requests d r)\<lparr>pr_closed := True\<rparr>)\<rparr>, acts))"

inductive rstep :: "rr_state \<Rightarrow> rr_state \<Rightarrow> bool" where
  bind: "rstep (d, acts) (bind p d, acts)"
| restore: "map_of (rd_topics d) topic = Some i \<Longrightarrow> ti_refcount (rd_interests d i) > 0 \<Longrightarrow>
    ensure_topic_ready i d = Inr (t, d') \<Longrightarrow> rstep (d, acts) (d', acts)"
| register: "rd_capacity d > 0 \<Longrightarrow> register_begin topic corr d = Inr (r, t, d') \<Longrightarrow>
    rstep (d, acts) (d', Registering (topic, corr) r t # acts)"
| task_ends: "rd_tasks d t = TRunning \<Longrightarrow> res \<noteq> TRunning \<Longrightarrow>
    rstep (d, acts) (d\<lparr>rd_tasks := (rd_tasks d)(t := res)\<rparr>, acts)"
| registered: "rd_tasks d t = TSucceeded \<Longrightarrow>
    rstep (d, as @ Registering key r t # bs) (d, as @ bs)"
| register_fails: "unregister key r (d, as @ bs) = Some st \<Longrightarrow>
    rstep (d, as @ Registering key r t # bs) st"
| close: "r < rd_fresh d \<Longrightarrow> close r (d, acts) = Some st \<Longrightarrow> rstep (d, acts) st"
| awaited: "(active \<longrightarrow> rd_tasks d t = TSucceeded) \<Longrightarrow> unregister_end topic i active d = (call, d') \<Longrightarrow>
    rstep (d, as @ Unregistering topic i t # bs) (d', as @ Releasing # bs)"
| released: "rstep (d, as @ Releasing # bs) (release_capacity d, as @ bs)"
| claim: "claim message d = (c, d') \<Longrightarrow> rstep (d, acts) (d', acts)"
| complete: "rstep (d, acts) (complete response d, acts)"
| cancel: "rstep (d, acts) (cancel_pending d, acts)"

definition waiting_on :: "pystr \<Rightarrow> RequestDispatcher \<Rightarrow> int" where
  "waiting_on topic d = int (length (filter (\<lambda>kr. fst (fst kr) = topic) (rd_pending d)))"

text \<open>The tables agree with each other.\<close>

definition tables_ok :: "RequestDispatcher \<Rightarrow> bool" where
  "tables_ok d \<longleftrightarrow> distinct (map fst (rd_pending d)) \<and> distinct (map fst (rd_topics d))
     \<and> distinct (map snd (rd_topics d))
     \<and> (\<forall>ti \<in> set (rd_topics d). snd ti < rd_fresh d
          \<and> ti_refcount (rd_interests d (snd ti)) = waiting_on (fst ti) d)
     \<and> (\<forall>kr \<in> set (rd_pending d). fst (fst kr) \<in> fst ` set (rd_topics d)
          \<and> snd kr < rd_fresh d \<and> pr_key (rd_requests d (snd kr)) = fst kr)"

definition holds_unit :: "activity \<Rightarrow> bool" where
  "holds_unit act \<longleftrightarrow> (case act of Registering _ _ _ \<Rightarrow> False | _ \<Rightarrow> True)"

definition units_held :: "rr_state \<Rightarrow> int" where
  "units_held st = int (length (rd_pending (fst st))) + int (length (filter holds_unit (snd st)))"

definition idle_interests_ok :: "rr_state \<Rightarrow> bool" where
  "idle_interests_ok st \<longleftrightarrow>
     (\<forall>ti \<in> set (rd_topics (fst st)). waiting_on (fst ti) (fst st) = 0 \<longrightarrow>
        (\<exists>t. Unregistering (fst ti) (snd ti) t \<in> set (snd st)))"

definition rr_inv :: "int \<Rightarrow> rr_state \<Rightarrow> bool" where
  "rr_inv limit st \<longleftrightarrow> tables_ok (fst st) \<and> idle_interests_ok st
     \<and> rd_capacity (fst st) + units_held st = limit \<and> rd_capacity (fst st) \<ge> 0"

lemma holds_unit_simps [simp]:
  "\<not> holds_unit (Registering k r t)" "holds_unit (Unregistering topic i t)" "holds_unit Releasing"
  by (simp_all add: holds_unit_def)

lemma waiting_on_zero: "waiting_on topic d = 0 \<longleftrightarrow> (\<forall>kr \<in> set (rd_pending d). fst (fst kr) \<noteq> topic)"
  by (auto simp: waiting_on_def filter_empty_conv)

text \<open>Segments that touch neither table keep the invariant as it is.\<close>

definition same_tables :: "RequestDispatcher \<Rightarrow> RequestDispatcher \<Rightarrow> bool" where
  "same_tables d d' \<longleftrightarrow> rd_pending d' = rd_pending d \<and> rd_topics d' = rd_topics d
     \<and> rd_capacity d' = rd_capacity d \<and> rd_fresh d \<le> rd_fresh d'
     \<and> (\<forall>i. ti_refcount (rd_interests d' i) = ti_refcount (rd_interests d i))
     \<and> (\<forall>r. pr_key (rd_requests d' r) = pr_key (rd_requests d r))"

lemma same_tables_waiting: "same_tables d d' \<Longrightarrow> waiting_on topic d' = waiting_on topic d"
  by (simp add: same_tables_def waiting_on_def)

lemma same_tables_inv:
  assumes "same_tables d d'" and "rr_inv limit (d, acts)"
  shows "rr_inv limit (d', acts)"
  using assms same_tables_waiting [OF assms(1)]
  by (fastforce simp: rr_inv_def tables_ok_def idle_interests_ok_def units_held_def same_tables_def)

lemma same_tables_ops:
  "same_tables d (bind p d)"
  "ensure_topic_ready i d = Inr (t, d') \<Longrightarrow> same_tables d d'"
  "same_tables d (d\<lparr>rd_tasks := ts\<rparr>)"
  "claim message d = (c, d') \<Longrightarrow> same_tables d d'"
  "same_tables d (complete response d)"
  "same_tables d (d\<lparr>rd_requests := (rd_requests d)(r := (rd_requests d r)\<lparr>pr_closed := b\<rparr>)\<rparr>)"
  by (auto simp: same_tables_def bind_def ensure_topic_ready_def require_protocol_def claim_def
      complete_def Let_def split: option.splits if_splits)

section \<open>No unit and no interest is lost\<close>

lemma tables_okD:
  assumes "tables_ok d"
  shows "distinct (map fst (rd_pending d))" and "distinct (map fst (rd_topics d))"
    and "map_of (rd_topics d) topic = Some i \<Longrightarrow>
      i < rd_fresh d \<and> ti_refcount (rd_interests d i) = waiting_on topic d"
    and "map_of (rd_topics d) topic = Some i \<Longrightarrow> map_of (rd_topics d) topic' = Some i \<Longrightarrow> topic = topic'"
    and "map_of (rd_pending d) key = Some r \<Longrightarrow> map_of (rd_topics d) (fst key) \<noteq> None"
  using assms unfolding tables_ok_def
  by (auto dest!: map_of_SomeD simp: map_of_eq_None_iff distinct_map inj_on_def) force+

lemma topic_interest_spec:
  assumes "tables_ok d" and "topic_interest topic d = (i, d')"
  shows "tables_ok d' \<and> map_of (rd_topics d') topic = Some i \<and> rd_pending d' = rd_pending d
      \<and> rd_capacity d' = rd_capacity d \<and> set (rd_topics d') \<subseteq> insert (topic, i) (set (rd_topics d))"
proof (cases "map_of (rd_topics d) topic")
  case (Some j)
  with assms show ?thesis by (auto simp: topic_interest_def)
next
  case None
  then have new: "topic \<notin> fst ` set (rd_topics d)" by (simp add: map_of_eq_None_iff)
  have d': "d' = d\<lparr>rd_topics := rd_topics d @ [(topic, rd_fresh d)],
      rd_interests := (rd_interests d)(rd_fresh d := blank_interest), rd_fresh := Suc (rd_fresh d)\<rparr>"
    and i: "i = rd_fresh d"
    using assms(2) None by (auto simp: topic_interest_def Let_def AList_update_new new)
  have z: "waiting_on topic d = 0"
    using assms(1) new unfolding waiting_on_zero tables_ok_def by blast
  have w: "waiting_on s d' = waiting_on s d" for s by (simp add: waiting_on_def d')
  have "tables_ok d'"
    using assms(1) new z unfolding tables_ok_def w
    by (auto simp: d' blank_interest_def less_Suc_eq)
  then show ?thesis using None by (simp add: d' i map_add_def)
qed

lemma add_waiter_spec:
  assumes "tables_ok d" and "map_of (rd_topics d) (fst key) = Some i" and "map_of (rd_pending d) key = None"
    and "add_waiter key i d = (r, d')"
  shows "tables_ok d'" and "rd_pending d' = rd_pending d @ [(key, r)]" and "rd_topics d' = rd_topics d"
    and "rd_capacity d' = rd_capacity d" and "r = rd_fresh d"
proof -
  have new: "key \<notin> fst ` set (rd_pending d)" using assms(3) by (simp add: map_of_eq_None_iff)
  have d': "d' = d\<lparr>rd_requests := (rd_requests d)(rd_fresh d :=
        \<lparr>pr_future = FPending, pr_key = key, pr_closed = False, pr_claimed = False\<rparr>),
      rd_pending := rd_pending d @ [(key, rd_fresh d)],
      rd_interests := (rd_interests d)
        (i := (rd_interests d i)\<lparr>ti_refcount := ti_refcount (rd_interests d i) + 1\<rparr>),
      rd_fresh := Suc (rd_fresh d)\<rparr>" and r: "r = rd_fresh d"
    using assms(4) by (auto simp: add_waiter_def Let_def AList_update_new new)
  show "rd_pending d' = rd_pending d @ [(key, r)]" "rd_topics d' = rd_topics d"
    "rd_capacity d' = rd_capacity d" "r = rd_fresh d" by (simp_all add: d' r)
  have w: "waiting_on topic d' = waiting_on topic d + (if topic = fst key then 1 else 0)" for topic
    by (simp add: waiting_on_def d')
  have "ti_refcount (rd_interests d' (snd ti)) = waiting_on (fst ti) d'" if "ti \<in> set (rd_topics d)" for ti
  proof -
    have m: "map_of (rd_topics d) (fst ti) = Some (snd ti)"
      using tables_okD(2) [OF assms(1)] that by simp
    have ints: "rd_interests d' j = (if j = i
        then (rd_interests d i)\<lparr>ti_refcount := ti_refcount (rd_interests d i) + 1\<rparr> else rd_interests d j)" for j
      by (simp add: d')
    show ?thesis
      using tables_okD(3) [OF assms(1) m] tables_okD(4) [OF assms(1,2), of "fst ti"] m assms(2)
      unfolding w ints by auto
  qed
  moreover have "fst key \<in> fst ` set (rd_topics d)" using map_of_SomeD [OF assms(2)] by force
  ultimately show "tables_ok d'"
    using assms(1) new unfolding tables_ok_def by (auto simp: d' less_Suc_eq)
qed

lemma register_inv:
  assumes "rr_inv limit (d, acts)" and "rd_capacity d > 0"
    and "register_begin topic corr d = Inr (r, t, d')"
  shows "rr_inv limit (d', Registering (topic, corr) r t # acts)"
    and "map_of (rd_pending d') (topic, corr) = Some r"
proof -
  let ?key = "(topic, corr)" and ?d0 = "d\<lparr>rd_capacity := rd_capacity d - 1\<rparr>"
  obtain i d1 d2 where i: "topic_interest topic ?d0 = (i, d1)" and r: "add_waiter ?key i d1 = (r, d2)"
    and t: "ensure_topic_ready i d2 = Inr (t, d')" and new: "map_of (rd_pending d) ?key = None"
    using assms(3) by (auto simp: register_begin_def ensure_unique_def Let_def split: prod.splits if_splits)
  have ok: "tables_ok ?d0" using assms(1) by (auto simp: rr_inv_def tables_ok_def waiting_on_def)
  note d1 = topic_interest_spec [OF ok i]
  have "map_of (rd_topics d1) (fst ?key) = Some i" "map_of (rd_pending d1) ?key = None"
    using d1 new by simp_all
  note d2 = add_waiter_spec [OF conjunct1 [OF d1] this r]
  have w: "waiting_on s d2 = waiting_on s d + (if s = topic then 1 else 0)" for s
    using d1 by (simp add: waiting_on_def d2)
  have "idle_interests_ok (d2, Registering ?key r t # acts)"
    unfolding idle_interests_ok_def
  proof (intro ballI impI)
    fix ti assume ti: "ti \<in> set (rd_topics (fst (d2, Registering ?key r t # acts)))"
      and z: "waiting_on (fst ti) (fst (d2, Registering ?key r t # acts)) = 0"
    then have "fst ti \<noteq> topic" "waiting_on (fst ti) d = 0"
      using w [of "fst ti"] by (auto simp: waiting_on_def split: if_splits)
    moreover then have "ti \<in> set (rd_topics d)" using ti d1 by (auto simp: d2)
    ultimately show "\<exists>t'. Unregistering (fst ti) (snd ti) t' \<in> set (snd (d2, Registering ?key r t # acts))"
      using assms(1) by (auto simp: rr_inv_def idle_interests_ok_def)
  qed
  then have inv2: "rr_inv limit (d2, Registering ?key r t # acts)"
    using assms(1,2) d1 d2(1) by (auto simp: rr_inv_def units_held_def d2)
  show "rr_inv limit (d', Registering ?key r t # acts)"
    using same_tables_inv [OF same_tables_ops(2) [OF t] inv2] .
  have "rd_pending d' = rd_pending d @ [(?key, r)]"
    using same_tables_ops(2) [OF t] d1 by (simp add: same_tables_def d2)
  then show "map_of (rd_pending d') ?key = Some r" using new by (simp add: map_add_def)
qed

text \<open>Removing a waiter, up to the interest that may be left idle.\<close>

lemma waiting_on_delete:
  assumes "distinct (map fst (rd_pending d))" and "map_of (rd_pending d) key = Some r"
    and "rd_pending d' = AList.delete key (rd_pending d)"
  shows "waiting_on topic d' = waiting_on topic d - (if topic = fst key then 1 else 0)"
    and "length (rd_pending d) = Suc (length (rd_pending d'))"
proof -
  obtain us vs where "rd_pending d = us @ (key, r) # vs" "AList.delete key (rd_pending d) = us @ vs"
    using dict_delete_split [OF assms(1,2)] .
  then show "waiting_on topic d' = waiting_on topic d - (if topic = fst key then 1 else 0)"
    and "length (rd_pending d) = Suc (length (rd_pending d'))"
    by (simp_all add: waiting_on_def assms(3))
qed

lemma unregister_begin_spec:
  assumes "tables_ok d" and "map_of (rd_pending d) key = Some r"
  obtains i u d' where "unregister_begin key r d = Some (u, d')" and "tables_ok d'"
    and "rd_pending d' = AList.delete key (rd_pending d)" and "rd_topics d' = rd_topics d"
    and "rd_capacity d' = rd_capacity d" and "map_of (rd_topics d) (fst key) = Some i"
    and "u = (if waiting_on (fst key) d' > 0 then StillShared
              else case ti_ready (rd_interests d' i) of None \<Rightarrow> NoTask i | Some t \<Rightarrow> AwaitTask i t)"
proof -
  obtain i where i: "map_of (rd_topics d) (fst key) = Some i" using tables_okD(5) [OF assms] by blast
  let ?d1 = "cancel_future r (d\<lparr>rd_pending := AList.delete key (rd_pending d)\<rparr>)"
  define interest where "interest = (rd_interests d i)\<lparr>ti_refcount := ti_refcount (rd_interests d i) - 1\<rparr>"
  define d' where "d' = ?d1\<lparr>rd_interests := (rd_interests d)(i := interest)\<rparr>"
  have c: "rd_topics ?d1 = rd_topics d" "rd_interests ?d1 = rd_interests d" "rd_capacity ?d1 = rd_capacity d"
    "rd_pending ?d1 = AList.delete key (rd_pending d)" "rd_fresh ?d1 = rd_fresh d"
    "pr_key (rd_requests ?d1 q) = pr_key (rd_requests d q)" for q
    by (simp_all add: cancel_future_def)
  have p': "rd_pending d' = AList.delete key (rd_pending d)" by (simp add: d'_def c)
  note w = waiting_on_delete(1) [OF tables_okD(1) [OF assms(1)] assms(2) p']
  have ints: "rd_interests d' j = (if j = i then interest else rd_interests d j)" for j
    by (simp add: d'_def)
  have rc: "ti_refcount interest = waiting_on (fst key) d'"
    using tables_okD(3) [OF assms(1) i] by (simp add: interest_def w)
  have refs: "ti_refcount (rd_interests d' (snd ti)) = waiting_on (fst ti) d'"
    if "ti \<in> set (rd_topics d)" for ti
  proof -
    have m: "map_of (rd_topics d) (fst ti) = Some (snd ti)"
      using tables_okD(2) [OF assms(1)] that by simp
    show ?thesis
      using rc tables_okD(3) [OF assms(1) m] tables_okD(4) [OF assms(1) i, of "fst ti"] m i
      unfolding ints w by auto
  qed
  have f': "rd_topics d' = rd_topics d" "rd_fresh d' = rd_fresh d" "rd_capacity d' = rd_capacity d"
    "pr_key (rd_requests d' q) = pr_key (rd_requests d q)" for q
    by (simp_all add: d'_def c)
  have "set (rd_pending d') \<subseteq> set (rd_pending d)" "distinct (map fst (rd_pending d'))"
    using tables_okD(1) [OF assms(1)] by (simp_all add: p' AList.distinct_delete) (auto simp: AList_delete_filter)
  then have "tables_ok d'"
    using assms(1) refs unfolding tables_ok_def f' by blast
  moreover have "unregister_begin key r d = Some (if ti_refcount interest > 0 then StillShared
      else case ti_ready interest of None \<Rightarrow> NoTask i | Some t \<Rightarrow> AwaitTask i t, d')"
    using assms(2) i by (simp add: unregister_begin_def Let_def c(1,2) d'_def interest_def)
  ultimately show ?thesis
    using that [of _ d' i] i rc ints [of i] p' f' by simp
qed

lemma unregister_end_ok:
  assumes "tables_ok d"
  shows "tables_ok (snd (unregister_end topic i active d))"
proof (cases "ti_refcount (rd_interests d i) = 0 \<and> map_of (rd_topics d) topic = Some i")
  case True
  then have "waiting_on topic d = 0" using tables_okD(3) [OF assms] by auto
  then have none: "\<forall>kr \<in> set (rd_pending d). fst (fst kr) \<noteq> topic" by (simp add: waiting_on_zero)
  let ?d = "d\<lparr>rd_topics := AList.delete topic (rd_topics d)\<rparr>"
  have keys: "fst ` set (rd_topics ?d) = fst ` set (rd_topics d) - {topic}"
    "set (rd_topics ?d) \<subseteq> set (rd_topics d)" "distinct (map fst (rd_topics ?d))" "distinct (map snd (rd_topics ?d))"
    using assms by (auto simp: AList_delete_filter tables_ok_def distinct_map_filter)
  have w: "waiting_on s ?d = waiting_on s d" for s by (simp add: waiting_on_def)
  have "tables_ok ?d"
    using assms keys none unfolding tables_ok_def w by auto
  with True show ?thesis by (simp add: unregister_end_def)
qed (use assms in \<open>auto simp: unregister_end_def\<close>)

lemma unregister_end_fields:
  "rd_pending (snd (unregister_end topic i active d)) = rd_pending d"
  "rd_capacity (snd (unregister_end topic i active d)) = rd_capacity d"
  "waiting_on s (snd (unregister_end topic i active d)) = waiting_on s d"
  "set (rd_topics (snd (unregister_end topic i active d))) \<subseteq> set (rd_topics d)"
  by (auto simp: unregister_end_def waiting_on_def AList_delete_filter)

text \<open>After the \<open>finally\<close> block an idle interest is not left because of this waiter.\<close>

lemma unregister_end_gone:
  assumes "tables_ok d" and "ti \<in> set (rd_topics (snd (unregister_end topic i active d)))"
    and "waiting_on (fst ti) d = 0"
  shows "ti \<noteq> (topic, i)"
proof
  assume "ti = (topic, i)"
  moreover have "ti \<in> set (rd_topics d)" using assms(2) unregister_end_fields(4) by blast
  ultimately have m: "map_of (rd_topics d) topic = Some i"
    using tables_okD(2) [OF assms(1)] by simp
  with tables_okD(3) [OF assms(1) m] assms \<open>ti = (topic, i)\<close> show False
    by (simp add: unregister_end_def AList_delete_filter)
qed

lemma awaited_inv:
  assumes "rr_inv limit (d, as @ Unregistering topic i t # bs)"
    and "unregister_end topic i active d = (call, d')"
  shows "rr_inv limit (d', as @ Releasing # bs)"
proof -
  have d': "d' = snd (unregister_end topic i active d)" using assms(2) by simp
  have ok: "tables_ok d" using assms(1) by (simp add: rr_inv_def)
  have "idle_interests_ok (d', as @ Releasing # bs)"
    unfolding idle_interests_ok_def
  proof (intro ballI impI)
    fix ti assume ti: "ti \<in> set (rd_topics (fst (d', as @ Releasing # bs)))"
      and z: "waiting_on (fst ti) (fst (d', as @ Releasing # bs)) = 0"
    then have "ti \<in> set (rd_topics d)" "waiting_on (fst ti) d = 0" "ti \<noteq> (topic, i)"
      using unregister_end_fields(3) [of "fst ti" topic i active d]
        unregister_end_fields(4) [of topic i active d] unregister_end_gone [OF ok, of ti topic i active]
      by (auto simp: d')
    then obtain u where "Unregistering (fst ti) (snd ti) u \<in> set (as @ Unregistering topic i t # bs)"
      using assms(1) by (fastforce simp: rr_inv_def idle_interests_ok_def)
    with \<open>ti \<noteq> (topic, i)\<close> show "\<exists>u. Unregistering (fst ti) (snd ti) u \<in> set (snd (d', as @ Releasing # bs))"
      by (cases ti) auto
  qed
  then show ?thesis
    using assms(1) unregister_end_ok [OF ok, of topic i active]
    by (simp add: rr_inv_def units_held_def d' unregister_end_fields)
qed

text \<open>\<open>unregister\<close> of a registered waiter: the state between its first segment and what follows.\<close>

lemma idle_after_delete:
  assumes "idle_interests_ok (d, acts)" and "tables_ok d" and "rd_topics d' = rd_topics d"
    and "\<And>s. s \<noteq> fst key \<Longrightarrow> waiting_on s d' = waiting_on s d"
    and "ti \<in> set (rd_topics d')" and "waiting_on (fst ti) d' = 0" and "fst ti \<noteq> fst key"
  shows "\<exists>t. Unregistering (fst ti) (snd ti) t \<in> set acts"
  using assms by (auto simp: idle_interests_ok_def)

lemma unregister_registered:
  assumes inv: "rr_inv limit (d, acts)" and p: "map_of (rd_pending d) key = Some r"
  shows "\<exists>st. unregister key r (d, acts) = Some st \<and> rr_inv limit st"
proof -
  have ok: "tables_ok d" and idle: "idle_interests_ok (d, acts)" using inv by (simp_all add: rr_inv_def)
  from unregister_begin_spec [OF ok p] obtain i u d' where
    u: "unregister_begin key r d = Some (u, d')" and ok': "tables_ok d'"
    and p': "rd_pending d' = AList.delete key (rd_pending d)" and t': "rd_topics d' = rd_topics d"
    and c': "rd_capacity d' = rd_capacity d" and i: "map_of (rd_topics d) (fst key) = Some i"
    and udef: "u = (if waiting_on (fst key) d' > 0 then StillShared
              else case ti_ready (rd_interests d' i) of None \<Rightarrow> NoTask i | Some t \<Rightarrow> AwaitTask i t)"
    by metis
  note w = waiting_on_delete [OF tables_okD(1) [OF ok] p p']
  have other: "\<exists>t. Unregistering (fst ti) (snd ti) t \<in> set acts"
    if "ti \<in> set (rd_topics d)" "waiting_on (fst ti) d' = 0" "fst ti \<noteq> fst key" for ti
    using idle_after_delete [OF idle ok t', of key ti] that w(1) by (auto simp: t')
  have same: "ti = (fst key, i)" if "ti \<in> set (rd_topics d)" "fst ti = fst key" for ti
    using dict_item [OF tables_okD(2) [OF ok] i that] .
  have cap: "rd_capacity d + int (length (rd_pending d)) + int (length (filter holds_unit acts)) = limit"
    "rd_capacity d \<ge> 0" using inv by (simp_all add: rr_inv_def units_held_def)
  consider (shared) "waiting_on (fst key) d' > 0" "u = StillShared"
    | (none) "waiting_on (fst key) d' = 0" "u = NoTask i"
    | (await) t where "waiting_on (fst key) d' = 0" "u = AwaitTask i t"
    using udef by (auto simp: waiting_on_def split: if_splits option.splits)
  then show ?thesis
  proof cases
    case shared
    have "idle_interests_ok (d', acts)"
      unfolding idle_interests_ok_def using other shared(1) t' by (metis fst_conv snd_conv less_irrefl)
    then have "rr_inv limit (release_capacity d', acts)"
      using ok' cap w(2)
      by (simp add: rr_inv_def units_held_def release_capacity_def c' tables_ok_def idle_interests_ok_def
          waiting_on_def)
    with u shared(2) show ?thesis by (simp add: unregister_def)
  next
    case none
    let ?e = "snd (unregister_end (fst key) i False d')"
    have "idle_interests_ok (?e, acts)"
      unfolding idle_interests_ok_def
    proof (intro ballI impI)
      fix ti assume "ti \<in> set (rd_topics (fst (?e, acts)))" "waiting_on (fst ti) (fst (?e, acts)) = 0"
      then have ti: "ti \<in> set (rd_topics ?e)" "waiting_on (fst ti) d' = 0"
        by (simp_all add: unregister_end_fields)
      then have "ti \<noteq> (fst key, i)" using unregister_end_gone [OF ok'] by blast
      moreover have "ti \<in> set (rd_topics d)" using ti(1) unregister_end_fields(4) [of "fst key" i False d'] t' by auto
      ultimately have "fst ti \<noteq> fst key" using same by blast
      with other [OF \<open>ti \<in> set (rd_topics d)\<close> ti(2)]
      show "\<exists>t. Unregistering (fst ti) (snd ti) t \<in> set (snd (?e, acts))" by simp
    qed
    then have "rr_inv limit (release_capacity ?e, acts)"
      using unregister_end_ok [OF ok', of "fst key" i False] cap w(2)
      by (simp add: rr_inv_def units_held_def release_capacity_def c' tables_ok_def idle_interests_ok_def
          waiting_on_def unregister_end_fields)
    with u none(2) show ?thesis by (simp add: unregister_def)
  next
    case (await t)
    have "idle_interests_ok (d', Unregistering (fst key) i t # acts)"
      unfolding idle_interests_ok_def using other same t' by fastforce
    then have "rr_inv limit (d', Unregistering (fst key) i t # acts)"
      using ok' cap w(2) by (simp add: rr_inv_def units_held_def c')
    with u await(2) show ?thesis by (simp add: unregister_def)
  qed
qed

lemma unregister_inv:
  assumes "rr_inv limit (d, acts)"
  shows "\<exists>st. unregister key r (d, acts) = Some st \<and> rr_inv limit st"
proof (cases "map_of (rd_pending d) key = Some r")
  case False
  with assms show ?thesis by (simp add: unregister_def unregister_begin_def)
qed (rule unregister_registered [OF assms])

lemma close_inv:
  assumes "rr_inv limit (d, acts)"
  shows "\<exists>st. close r (d, acts) = Some st \<and> rr_inv limit st"
  using unregister_inv [OF same_tables_inv [OF same_tables_ops(6) assms], of "pr_key (rd_requests d r)" r r True]
    assms by (simp add: close_def)

lemma cancel_inv: "rr_inv limit (d, acts) \<Longrightarrow> rr_inv limit (cancel_pending d, acts)"
  by (simp add: rr_inv_def tables_ok_def idle_interests_ok_def units_held_def cancel_pending_def Let_def)

lemma drop_registering:
  assumes "rr_inv limit (d, as @ Registering key r t # bs)"
  shows "rr_inv limit (d, as @ bs)"
  using assms by (fastforce simp: rr_inv_def idle_interests_ok_def units_held_def)

lemma released_inv:
  assumes "rr_inv limit (d, as @ Releasing # bs)"
  shows "rr_inv limit (release_capacity d, as @ bs)"
  using assms
  by (fastforce simp: rr_inv_def idle_interests_ok_def units_held_def release_capacity_def tables_ok_def
      waiting_on_def)

lemma rstep_inv: "rstep st st' \<Longrightarrow> rr_inv limit st \<Longrightarrow> rr_inv limit st'"
proof (induction rule: rstep.induct)
  case (register_fails key r d as bs st t)
  then show ?case
    using unregister_inv [OF drop_registering [OF register_fails.prems], of key r] by auto
next
  case (close r d acts st)
  then show ?case using close_inv [OF close.prems, of r] by auto
qed (auto simp: awaited_inv released_inv cancel_inv register_inv dest: drop_registering
    intro: same_tables_inv same_tables_ops)

interpretation request_run: step_invariant rstep "rr_inv limit" for limit
  by unfold_locales (rule rstep_inv)

lemmas rsteps_inv = request_run.steps_kept

lemma init_inv: "RequestDispatcher_init limit = Inr d \<Longrightarrow> rr_inv limit (d, [])"
  by (auto simp: RequestDispatcher_init_def rr_inv_def tables_ok_def idle_interests_ok_def units_held_def
      split: if_splits)

section \<open>Properties\<close>

lemma claim_Some:
  assumes "claim message d = (Some c, d')"
  obtains properties corr r where "msg_properties message = Some properties"
    and "pp_correlation_data properties = Some corr"
    and "map_of (rd_pending d) (msg_topic message, corr) = Some r"
    and "pr_future (rd_requests d r) = FPending" and "\<not> pr_claimed (rd_requests d r)"
    and "c = \<lparr>cr_pending = r, cr_key = (msg_topic message, corr), cr_message = message,
      cr_generation = rd_generation d\<rparr>"
    and "d' = d\<lparr>rd_requests := (rd_requests d)(r := (rd_requests d r)\<lparr>pr_claimed := True\<rparr>)\<rparr>"
  using assms by (auto simp: claim_def Let_def split: option.splits if_splits)

text \<open>
  C27: whatever the interleaving of registrations, cancellations, timeouts, reconnections and
  responses, every unit of the semaphore is accounted for: it is free, held by a pending request,
  or held by a cleanup that is still to release it.  So at most the configured number of requests
  is pending, and no cleanup ever fails to find the topic of its request.
\<close>

theorem dispatcher_accounts:
  assumes "RequestDispatcher_init limit = Inr d0" and "rstep\<^sup>*\<^sup>* (d0, []) (d, acts)"
  shows "rd_capacity d \<ge> 0 \<and> int (pending_count d) \<le> limit
    \<and> rd_capacity d + int (pending_count d) + int (length (filter holds_unit acts)) = limit
    \<and> (\<forall>key r. unregister key r (d, acts) \<noteq> None)"
proof -
  have inv: "rr_inv limit (d, acts)" using rsteps_inv [OF assms(2) init_inv [OF assms(1)]] .
  then have "rd_capacity d \<ge> 0"
    "rd_capacity d + int (pending_count d) + int (length (filter holds_unit acts)) = limit"
    by (simp_all add: rr_inv_def units_held_def pending_count_def)
  moreover have "unregister key r (d, acts) \<noteq> None" for key r
    using unregister_inv [OF inv, of key r] by auto
  ultimately show ?thesis by auto
qed

text \<open>A run to use as a witness: connect, then register one request.\<close>

definition sample_dispatcher :: RequestDispatcher where
  "sample_dispatcher = bind 0
     \<lparr>rd_capacity = 1, rd_pending = [], rd_topics = [], rd_protocol = None, rd_generation = 0,
      rd_requests = \<lambda>_. blank_request, rd_interests = \<lambda>_. blank_interest, rd_tasks = \<lambda>_. TFailed, rd_fresh = 0\<rparr>"

lemma sample_register:
  "\<exists>d'. register_begin (str_lit ''r'') [7] sample_dispatcher = Inr (1, 2, d')
     \<and> rd_capacity d' = 0 \<and> rd_pending d' = [((str_lit ''r'', [7]), 1)]"
  by (simp add: sample_dispatcher_def register_begin_def bind_def ensure_unique_def require_protocol_def
      topic_interest_def add_waiter_def ensure_topic_ready_def blank_interest_def Let_def)

lemma sample_run:
  obtains d0 d where "RequestDispatcher_init 1 = Inr d0"
    and "rstep\<^sup>*\<^sup>* (d0, []) (d, [Registering (str_lit ''r'', [7]) 1 2])"
    and "rd_pending d = [((str_lit ''r'', [7]), 1)]"
proof -
  obtain d0 where d0: "RequestDispatcher_init 1 = Inr d0" "bind 0 d0 = sample_dispatcher"
    by (simp add: RequestDispatcher_init_def sample_dispatcher_def)
  obtain d where d: "register_begin (str_lit ''r'') [7] sample_dispatcher = Inr (1, 2, d)"
    "rd_pending d = [((str_lit ''r'', [7]), 1)]" using sample_register by blast
  have "rstep (d0, []) (sample_dispatcher, [])" using rstep.bind [of d0 "[]" 0] d0(2) by simp
  moreover have "rd_capacity sample_dispatcher > 0" by (simp add: sample_dispatcher_def bind_def)
  then have "rstep (sample_dispatcher, []) (d, [Registering (str_lit ''r'', [7]) 1 2])"
    using rstep.register d(1) by blast
  ultimately have "rstep\<^sup>*\<^sup>* (d0, []) (d, [Registering (str_lit ''r'', [7]) 1 2])" by auto
  with d0(1) d(2) that show ?thesis by blast
qed

theorem dispatcher_accounts_witness:
  "\<exists>d acts. rd_pending d = [((str_lit ''r'', [7]), 1)] \<and> rd_capacity d + 1 = 1
     \<and> (\<forall>key r. unregister key r (d, acts) \<noteq> None)"
proof -
  obtain d0 d where r: "RequestDispatcher_init 1 = Inr d0"
    "rstep\<^sup>*\<^sup>* (d0, []) (d, [Registering (str_lit ''r'', [7]) 1 2])"
    "rd_pending d = [((str_lit ''r'', [7]), 1)]" using sample_run .
  from dispatcher_accounts [OF r(1,2)] r(3) show ?thesis by (auto simp: pending_count_def)
qed

text \<open>
  nothing leaks: when no operation is under way, the topics the dispatcher observes are exactly
  the response topics of the pending requests, each counted once per request, and the semaphore
  is short by exactly the number of pending requests.
\<close>

theorem dispatcher_no_leak:
  assumes "RequestDispatcher_init limit = Inr d0" and "rstep\<^sup>*\<^sup>* (d0, []) (d, [])"
  shows "rd_capacity d = limit - int (pending_count d)
    \<and> fst ` set (rd_topics d) = (\<lambda>kr. fst (fst kr)) ` set (rd_pending d)
    \<and> (\<forall>topic i. map_of (rd_topics d) topic = Some i \<longrightarrow> ti_refcount (rd_interests d i) = waiting_on topic d)"
proof -
  have inv: "rr_inv limit (d, [])" using rsteps_inv [OF assms(2) init_inv [OF assms(1)]] .
  then have ok: "tables_ok d" and idle: "\<forall>ti \<in> set (rd_topics d). waiting_on (fst ti) d \<noteq> 0"
    by (auto simp: rr_inv_def idle_interests_ok_def)
  have "fst ti \<in> (\<lambda>kr. fst (fst kr)) ` set (rd_pending d)" if "ti \<in> set (rd_topics d)" for ti
    using idle that unfolding waiting_on_zero by (metis image_eqI)
  moreover have "fst (fst kr) \<in> fst ` set (rd_topics d)" if "kr \<in> set (rd_pending d)" for kr
    using ok that unfolding tables_ok_def by blast
  ultimately have "fst ` set (rd_topics d) = (\<lambda>kr. fst (fst kr)) ` set (rd_pending d)" by blast
  with inv tables_okD(3) [OF ok] show ?thesis
    by (auto simp: rr_inv_def units_held_def pending_count_def)
qed

theorem dispatcher_no_leak_witness: "\<exists>d. RequestDispatcher_init 3 = Inr d \<and> rd_capacity d = 3"
proof -
  obtain d0 where "RequestDispatcher_init 3 = Inr d0" by (simp add: RequestDispatcher_init_def)
  with dispatcher_no_leak [OF this rtranclp.rtrancl_refl] show ?thesis
    by (auto simp: pending_count_def RequestDispatcher_init_def)
qed

text \<open>
  While the connection stays the same a claimed request stays claimed: \<open>claim_kept\<close> is kept by every
  step, since only \<open>bind\<close> takes claims back, and it begins a new generation.
\<close>

definition claim_kept :: "nat \<Rightarrow> int \<Rightarrow> rr_state \<Rightarrow> bool" where
  "claim_kept r g st \<longleftrightarrow> g < rd_generation (fst st)
     \<or> g = rd_generation (fst st) \<and> r < rd_fresh (fst st) \<and> pr_claimed (rd_requests (fst st) r)"

text \<open>Segments that leave the generation and every claim as they are.\<close>

definition keeps_claims :: "RequestDispatcher \<Rightarrow> RequestDispatcher \<Rightarrow> bool" where
  "keeps_claims d d' \<longleftrightarrow> rd_generation d' = rd_generation d \<and> rd_fresh d \<le> rd_fresh d'
     \<and> (\<forall>r < rd_fresh d. pr_claimed (rd_requests d r) \<longrightarrow> pr_claimed (rd_requests d' r))"

lemma keeps_claims_trans: "keeps_claims d d' \<Longrightarrow> keeps_claims d' d'' \<Longrightarrow> keeps_claims d d''"
  by (auto simp: keeps_claims_def)

lemma keeps_claims_kept: "keeps_claims d d' \<Longrightarrow> claim_kept r g (d, acts) \<Longrightarrow> claim_kept r g (d', acts')"
  by (auto simp: keeps_claims_def claim_kept_def)

lemma keeps_claims_ops:
  "ensure_topic_ready i d = Inr (t, d') \<Longrightarrow> keeps_claims d d'"
  "keeps_claims d (d\<lparr>rd_tasks := ts\<rparr>)"
  "keeps_claims d (d\<lparr>rd_capacity := n\<rparr>)"
  "claim message d = (c, d') \<Longrightarrow> keeps_claims d d'"
  "keeps_claims d (complete response d)"
  "keeps_claims d (d\<lparr>rd_requests := (rd_requests d)(r := (rd_requests d r)\<lparr>pr_closed := b\<rparr>)\<rparr>)"
  "unregister_end topic i active d = (call, d') \<Longrightarrow> keeps_claims d d'"
  "keeps_claims d (release_capacity d)"
  "topic_interest topic d = (i, d') \<Longrightarrow> keeps_claims d d'"
  "add_waiter key i d = (r, d') \<Longrightarrow> keeps_claims d d'"
  by (auto simp: keeps_claims_def ensure_topic_ready_def require_protocol_def claim_def complete_def
      unregister_end_def release_capacity_def topic_interest_def add_waiter_def Let_def
      split: option.splits if_splits)

lemma register_keeps_claims:
  assumes "register_begin topic corr d = Inr (r, t, d')"
  shows "keeps_claims d d'"
proof -
  obtain i d1 where t: "topic_interest topic (d\<lparr>rd_capacity := rd_capacity d - 1\<rparr>) = (i, d1)" by fastforce
  obtain r' d2 where a: "add_waiter (topic, corr) i d1 = (r', d2)" by fastforce
  from assms t a obtain t' where e: "ensure_topic_ready i d2 = Inr (t', d')"
    by (auto simp: register_begin_def rbind_eq_Inr rmap_eq_Inr Let_def)
  show ?thesis
    using keeps_claims_trans [OF keeps_claims_trans [OF keeps_claims_ops(3)
          [of d "rd_capacity d - 1"] keeps_claims_ops(9) [OF t]]
        keeps_claims_trans [OF keeps_claims_ops(10) [OF a] keeps_claims_ops(1) [OF e]]] .
qed

lemma unregister_keeps_claims:
  assumes "unregister key r (d, acts) = Some (d', acts')"
  shows "keeps_claims d d'"
proof -
  have b: "unregister_begin key r d = Some (u, e) \<Longrightarrow> keeps_claims d e" for u e
    by (auto simp: unregister_begin_def cancel_future_def keeps_claims_def Let_def
        split: option.splits if_splits)
  have e: "keeps_claims e (snd (unregister_end topic i active e))" for e topic i active
    using keeps_claims_ops(7) [of topic i active e] by (metis prod.collapse)
  show ?thesis
    using assms by (auto simp: unregister_def split: option.splits unregistering.splits
        intro: b keeps_claims_trans [OF b keeps_claims_ops(8)]
          keeps_claims_trans [OF b keeps_claims_trans [OF e keeps_claims_ops(8)]])
qed

lemma close_keeps_claims: "close r (d, acts) = Some (d', acts') \<Longrightarrow> keeps_claims d d'"
  by (auto simp: close_def keeps_claims_def split: if_splits
      dest!: unregister_keeps_claims)

lemma rstep_claim_kept: "rstep st st' \<Longrightarrow> claim_kept r g st \<Longrightarrow> claim_kept r g st'"
proof (induction rule: rstep.induct)
  case (bind d acts p)
  then show ?case by (auto simp: claim_kept_def bind_def)
next
  case (cancel d acts)
  then show ?case by (auto simp: claim_kept_def cancel_pending_def Let_def)
next
  case (register_fails key r' d as bs st t)
  then obtain d' acts' where st: "st = (d', acts')" "keeps_claims d d'"
    by (cases st) (auto dest: unregister_keeps_claims)
  with register_fails.prems show ?case by (auto intro: keeps_claims_kept)
next
  case (close r d acts st)
  then show ?case by (cases st) (auto intro: keeps_claims_kept close_keeps_claims)
next
  case (registered d t as key r bs)
  then show ?case by (simp add: claim_kept_def)
qed (blast intro: keeps_claims_kept keeps_claims_ops register_keeps_claims)+

interpretation claimed_run: step_invariant rstep "claim_kept r g" for r g
  by unfold_locales (rule rstep_claim_kept)

text \<open>
  C36: a response is delivered at most once and to the request it answers: once a message has claimed
  a request, then whatever registrations, restored subscriptions, deliveries and cleanups follow, no
  other message claims that request while the connection is the same (the dispatcher's generation,
  which \<open>bind\<close> and \<open>cancel_pending\<close> advance).  Delivering the claim then, while the request is still
  registered and waiting, resolves exactly that request's future with exactly that message, and
  delivering it again does nothing.
\<close>

theorem claim_exclusive:
  assumes "RequestDispatcher_init limit = Inr d0" and "rstep\<^sup>*\<^sup>* (d0, []) (d, acts)"
    and "claim message d = (Some c, d')"
    and "rstep\<^sup>*\<^sup>* (d', acts) (d2, acts2)" and "rd_generation d2 = rd_generation d"
  shows "map_of (rd_pending d) (cr_key c) = Some (cr_pending c)
    \<and> (\<forall>other c2 d3. claim other d2 = (Some c2, d3) \<longrightarrow> cr_pending c2 \<noteq> cr_pending c)
    \<and> (map_of (rd_pending d2) (cr_key c) = Some (cr_pending c)
       \<and> pr_future (rd_requests d2 (cr_pending c)) = FPending \<longrightarrow>
         pr_future (rd_requests (complete c d2) (cr_pending c)) = FResult message)
    \<and> (\<forall>r. r \<noteq> cr_pending c \<longrightarrow> rd_requests (complete c d2) r = rd_requests d2 r)
    \<and> complete c (complete c d2) = complete c d2"
proof -
  from claim_Some [OF assms(3)] obtain properties corr r where
    r: "map_of (rd_pending d) (msg_topic message, corr) = Some r"
    and c: "c = \<lparr>cr_pending = r, cr_key = (msg_topic message, corr), cr_message = message,
      cr_generation = rd_generation d\<rparr>"
    and d': "d' = d\<lparr>rd_requests := (rd_requests d)(r := (rd_requests d r)\<lparr>pr_claimed := True\<rparr>)\<rparr>" by metis
  have "tables_ok d"
    using rsteps_inv [OF assms(2) init_inv [OF assms(1)]] by (simp add: rr_inv_def)
  then have "r < rd_fresh d" using map_of_SomeD [OF r] unfolding tables_ok_def by force
  then have "claim_kept r (rd_generation d) (d', acts)" by (simp add: claim_kept_def d')
  from claimed_run.steps_kept [OF assms(4) this]
  have "pr_claimed (rd_requests d2 r)" using assms(5) by (simp add: claim_kept_def)
  then have "cr_pending c2 \<noteq> r" if "claim other d2 = (Some c2, d3)" for other c2 d3
    using that by (auto elim: claim_Some)
  with r show ?thesis by (auto simp: c complete_def Let_def assms(5))
qed

definition sample_response :: Message where
  "sample_response = \<lparr>msg_topic = str_lit ''r'', msg_payload = [], msg_qos = AT_MOST_ONCE, msg_retain = False,
     msg_properties = Some \<lparr>pp_payload_format_indicator = None, pp_message_expiry_interval = None,
       pp_topic_alias = None, pp_response_topic = None, pp_correlation_data = Some [7],
       pp_subscription_identifier = None, pp_content_type = None, pp_user_properties = []\<rparr>\<rparr>"

lemma sample_claim:
  "\<exists>c d'. claim sample_response (sample_dispatcher\<lparr>rd_pending := [((str_lit ''r'', [7]), 1)]\<rparr>) = (Some c, d')
     \<and> cr_pending c = 1"
  by (simp add: claim_def sample_response_def sample_dispatcher_def bind_def blank_request_def Let_def)

text \<open>The claim on the run of \<open>sample_run\<close>, with a failed registration of the topic in between.\<close>

theorem claim_exclusive_witness:
  "\<exists>d c d'. rd_pending d = [((str_lit ''r'', [7]), 1)] \<and> claim sample_response d = (Some c, d')
     \<and> (\<forall>other c2 d3. claim other (d'\<lparr>rd_tasks := (rd_tasks d')(2 := TFailed)\<rparr>) = (Some c2, d3) \<longrightarrow>
          cr_pending c2 \<noteq> 1)"
proof -
  obtain d0 where d0: "RequestDispatcher_init 1 = Inr d0" "bind 0 d0 = sample_dispatcher"
    by (simp add: RequestDispatcher_init_def sample_dispatcher_def)
  obtain d where d: "register_begin (str_lit ''r'') [7] sample_dispatcher = Inr (1, 2, d)"
    "rd_pending d = [((str_lit ''r'', [7]), 1)]" "rd_tasks d 2 = TRunning"
    "rd_requests d 1 = \<lparr>pr_future = FPending, pr_key = (str_lit ''r'', [7]), pr_closed = False, pr_claimed = False\<rparr>"
    by (simp add: sample_dispatcher_def register_begin_def bind_def ensure_unique_def require_protocol_def
        topic_interest_def add_waiter_def ensure_topic_ready_def blank_interest_def Let_def)
  let ?acts = "[Registering (str_lit ''r'', [7]) 1 2]"
  have "rstep (d0, []) (sample_dispatcher, [])" using rstep.bind [of d0 "[]" 0] d0(2) by simp
  moreover have "rstep (sample_dispatcher, []) (d, ?acts)"
    using rstep.register [OF _ d(1), of "[]"] by (simp add: sample_dispatcher_def bind_def)
  ultimately have run: "rstep\<^sup>*\<^sup>* (d0, []) (d, ?acts)" by auto
  define d' where "d' = d\<lparr>rd_requests := (rd_requests d)(1 := (rd_requests d 1)\<lparr>pr_claimed := True\<rparr>)\<rparr>"
  obtain c where c: "claim sample_response d = (Some c, d')" "cr_pending c = 1"
    using d(2,4) by (simp add: claim_def sample_response_def d'_def Let_def)
  have "rstep (d', ?acts) (d'\<lparr>rd_tasks := (rd_tasks d')(2 := TFailed)\<rparr>, ?acts)"
    by (rule rstep.task_ends) (simp_all add: d'_def d(3))
  then have "rstep\<^sup>*\<^sup>* (d', ?acts) (d'\<lparr>rd_tasks := (rd_tasks d')(2 := TFailed)\<rparr>, ?acts)" by blast
  from claim_exclusive [OF d0(1) run c(1) this] c d(2) show ?thesis by (auto simp: d'_def)
qed

text \<open>
  C37: a response claimed on one connection is never delivered after a reconnection or a shutdown:
  the claim is void, the request can be claimed again, and no future is touched.
\<close>

theorem stale_claim_void:
  assumes "claim message d = (Some c, d')"
  shows "complete c (bind p d') = bind p d' \<and> complete c (cancel_pending d') = cancel_pending d'
    \<and> (\<exists>c' d''. claim message (bind p d') = (Some c', d'') \<and> cr_pending c' = cr_pending c)"
proof -
  from claim_Some [OF assms] obtain properties corr r where
    p: "msg_properties message = Some properties" "pp_correlation_data properties = Some corr"
    and r: "map_of (rd_pending d) (msg_topic message, corr) = Some r"
    and f: "pr_future (rd_requests d r) = FPending"
    and c: "c = \<lparr>cr_pending = r, cr_key = (msg_topic message, corr), cr_message = message,
      cr_generation = rd_generation d\<rparr>"
    and d': "d' = d\<lparr>rd_requests := (rd_requests d)(r := (rd_requests d r)\<lparr>pr_claimed := True\<rparr>)\<rparr>" by metis
  have "r \<in> snd ` set (rd_pending d)" using map_of_SomeD [OF r] by force
  then have "\<exists>c' d''. claim message (bind p d') = (Some c', d'') \<and> cr_pending c' = r"
    using p r f by (simp add: claim_def bind_def d' Let_def)
  then show ?thesis by (simp add: complete_def bind_def cancel_pending_def c d' Let_def)
qed

theorem stale_claim_void_witness:
  "\<exists>c d'. claim sample_response (sample_dispatcher\<lparr>rd_pending := [((str_lit ''r'', [7]), 1)]\<rparr>) = (Some c, d')
     \<and> complete c (bind 5 d') = bind 5 d'"
proof -
  obtain c d' where c: "claim sample_response (sample_dispatcher\<lparr>rd_pending := [((str_lit ''r'', [7]), 1)]\<rparr>) = (Some c, d')"
    using sample_claim by blast
  from stale_claim_void [OF c, of 5] c show ?thesis by blast
qed

end
