(* ===== verification/Inbound.thy ===== *)
theory Inbound
  imports Subscription_Index Request_Response "HOL-Library.Sublist"
begin

text \<open>
  The inbound publish flow of \<open>inbound.py\<close>: selection of one recipient, the QoS 1 and QoS 2 receive
  handshakes, the receive quota, and the replay of a resumed session.

  \<open>inbound\<close> is the state of \<open>InboundPublishFlow\<close> with the parts of \<open>SessionState\<close> it uses, the queues and
  detached flags of the subscription entries (objects, referred to by number), and the list of
  what was done on the connection.  A handler runs to its end unless it has to wait for room in a
  full queue: \<open>entry.queue.put\<close> is the one await that waits for the application.  Then its status is
  \<open>Blocked\<close>, and \<open>resume\<close> is what happens when there is room.  Sending is one step, which does not
  suspend the handler.  A send that raises is an input of the passes over the replay buffer
  (\<open>fails\<close>) and of \<open>istep\<close>.
\<close>

section \<open>State\<close>

record InboundRecipient =
  ir_message :: Message
  ir_request :: "ClaimedResponse option"
  ir_subscription :: "item option"

definition recipient_auto_ack :: "InboundRecipient \<Rightarrow> bool" where
  "recipient_auto_ack r \<longleftrightarrow>
     ir_request r \<noteq> None \<or> (case ir_subscription r of None \<Rightarrow> True | Some it \<Rightarrow> se_auto_ack (snd it))"

datatype InboundQoS2State = PENDING_PUBREL

record InboundQoS2Flight =
  q2_packet_id :: int
  q2_recipient :: InboundRecipient
  q2_state :: InboundQoS2State
  q2_delivered :: bool

text \<open>The closures \<open>_puback\<close> and \<open>_pubrec\<close> that a message carries to be called by \<open>ack()\<close>.\<close>

datatype ack_callback = PubackCallback int | PubrecCallback int InboundRecipient

record QueuedMessage =
  qm_message :: Message
  qm_ack_callback :: "ack_callback option"
  qm_resolved :: bool

text \<open>
  A replay buffer is an object, known by its number \<open>rb_id\<close>; \<open>rb_expiration\<close> says that it has an
  \<open>_expiration_task\<close>.  The tasks that wait for their time are in \<open>ib_timers\<close>, by the number of their buffer.
\<close>

record replay_buffer =
  rb_id :: nat
  rb_publishes :: "Publish list"
  rb_packet_ids :: "int set"
  rb_topics :: "(pystr \<times> int) list"
  rb_message_count :: int
  rb_expiration :: bool

datatype replay = NoSessionReplay | PersistentReplayIdle | PersistentReplayBuffered replay_buffer

datatype event = Sent packet | Aborted "int option"

record inbound =
  ib_subscriptions :: SubscriptionIndex
  ib_router :: "RequestDispatcher option"
  ib_inflight_qos2_in :: "(int \<times> InboundQoS2Flight) list"
  ib_pending_ack_qos2_in :: "int set"
  ib_replay :: replay
  ib_next_buffer :: nat
  ib_timers :: "nat set"
  ib_buffer_size :: int
  ib_receive_maximum :: "int option"
  ib_unacknowledged :: "int set"
  ib_detached :: "nat set"
  ib_queues :: "nat \<Rightarrow> QueuedMessage list"
  ib_maxsize :: "nat \<Rightarrow> nat"
  ib_events :: "event list"

text \<open>\<open>SendError\<close> is what a send raises: the connection is lost, or the task that sends is cancelled.\<close>

datatype inbound_error = InboundValueError string | MQTTProtocolError string | SendError

text \<open>
  How a handler ends.  \<open>Blocked\<close> names the recipient whose queue is full, the callback its message
  will carry, and the PUBACK that follows the delivery, if one does.
\<close>

datatype status = Done | Raised inbound_error | Blocked InboundRecipient "ack_callback option" "int option"

definition ack_packet :: "int \<Rightarrow> int \<Rightarrow> PubAckVariant" where
  "ack_packet pid reason_code = \<lparr>pav_packet_id = pid, pav_reason_code = reason_code, pav_properties = None\<rparr>"

definition RECEIVE_MAXIMUM_EXCEEDED :: int where "RECEIVE_MAXIMUM_EXCEEDED = 0x93"
definition PACKET_IDENTIFIER_NOT_FOUND :: int where "PACKET_IDENTIFIER_NOT_FOUND = 0x92"

definition emit :: "event \<Rightarrow> inbound \<Rightarrow> inbound" where
  "emit e w = w\<lparr>ib_events := ib_events w @ [e]\<rparr>"

section \<open>Recipients\<close>

definition make_message :: "Publish \<Rightarrow> Message" where
  "make_message publish =
     \<lparr>msg_topic = pub_topic publish, msg_payload = pub_payload publish, msg_qos = pub_qos publish,
      msg_retain = pub_retain publish, msg_properties = pub_properties publish\<rparr>"

definition select_subscription :: "Publish \<Rightarrow> SubscriptionIndex \<Rightarrow> SubscriptionSelection" where
  "select_subscription publish ix =
     (case (case pub_properties publish of None \<Rightarrow> None | Some p \<Rightarrow> pp_subscription_identifier p) of
        None \<Rightarrow> index_select (pub_topic publish) ix
      | Some identifier \<Rightarrow> select_by_identifier (pub_topic publish) identifier ix)"

definition select_recipient :: "Publish \<Rightarrow> inbound \<Rightarrow> InboundRecipient \<times> inbound" where
  "select_recipient publish w =
     (let message = make_message publish;
          claimed = (case ib_router w of
                       None \<Rightarrow> (None, w)
                     | Some d \<Rightarrow> (case claim message d of (c, d') \<Rightarrow> (c, w\<lparr>ib_router := Some d'\<rparr>)))
      in case claimed of
           (Some request, w') \<Rightarrow>
             (\<lparr>ir_message = message, ir_request = Some request, ir_subscription = None\<rparr>, w')
         | (None, w') \<Rightarrow>
             (\<lparr>ir_message = message, ir_request = None,
               ir_subscription = sel_recipient (select_subscription publish (ib_subscriptions w'))\<rparr>, w'))"

section \<open>Delivery\<close>

definition queue_full :: "nat \<Rightarrow> inbound \<Rightarrow> bool" where
  "queue_full q w \<longleftrightarrow> 0 < ib_maxsize w q \<and> ib_maxsize w q \<le> length (ib_queues w q)"

definition put_message :: "InboundRecipient \<Rightarrow> SubscriptionEntry \<Rightarrow> ack_callback option \<Rightarrow> inbound \<Rightarrow> inbound" where
  "put_message recipient entry ack_callback w =
     (let message = \<lparr>qm_message = ir_message recipient,
            qm_ack_callback = (if \<not> se_auto_ack entry then ack_callback else None), qm_resolved = False\<rparr>
      in w\<lparr>ib_queues := (ib_queues w)(se_queue entry := ib_queues w (se_queue entry) @ [message])\<rparr>)"

datatype delivery = Delivered bool | NeedsRoom

definition deliver :: "InboundRecipient \<Rightarrow> ack_callback option \<Rightarrow> inbound \<Rightarrow> delivery \<times> inbound" where
  "deliver recipient ack_callback w =
     (case ir_request recipient of
        Some request \<Rightarrow> (Delivered True, w\<lparr>ib_router := map_option (complete request) (ib_router w)\<rparr>)
      | None \<Rightarrow>
     (case ir_subscription recipient of
        None \<Rightarrow> (Delivered True, w)
      | Some (flt, entry) \<Rightarrow>
          if se_ref entry \<in> ib_detached w then (Delivered False, w)
          else if queue_full (se_queue entry) w then (NeedsRoom, w)
          else (Delivered True, put_message recipient entry ack_callback w)))"

text \<open>\<open>_complete\<close>, and the tail of \<open>_deliver\<close> once a put that had to wait has room.\<close>

definition complete_ack :: "packet \<Rightarrow> int \<Rightarrow> inbound \<Rightarrow> inbound" where
  "complete_ack ack pid w = emit (Sent ack) (w\<lparr>ib_unacknowledged := ib_unacknowledged w - {pid}\<rparr>)"

definition after_delivery :: "int option \<Rightarrow> bool \<Rightarrow> inbound \<Rightarrow> inbound" where
  "after_delivery puback delivered w =
     (case puback of
        Some pid \<Rightarrow> if delivered then complete_ack (PubAck (ack_packet pid 0)) pid w else w
      | None \<Rightarrow> w)"

definition resume :: "InboundRecipient \<Rightarrow> ack_callback option \<Rightarrow> int option \<Rightarrow> inbound \<Rightarrow> inbound" where
  "resume recipient ack_callback puback w =
     (case ir_subscription recipient of
        None \<Rightarrow> w
      | Some (flt, entry) \<Rightarrow>
          let w1 = put_message recipient entry ack_callback w; q = se_queue entry in
          if se_ref entry \<in> ib_detached w1
          then after_delivery puback False (w1\<lparr>ib_queues := (ib_queues w1)(q := tl (ib_queues w1 q))\<rparr>)
          else after_delivery puback True w1)"

text \<open>A delivery, with the PUBACK that depends on it, as the last thing a handler does.\<close>

definition deliver_then :: "InboundRecipient \<Rightarrow> ack_callback option \<Rightarrow> int option \<Rightarrow> inbound \<Rightarrow> status \<times> inbound" where
  "deliver_then recipient ack_callback puback w =
     (case deliver recipient ack_callback w of
        (Delivered b, w') \<Rightarrow> (Done, after_delivery puback b w')
      | (NeedsRoom, w') \<Rightarrow> (Blocked recipient ack_callback puback, w'))"

definition no_packet_id :: status where
  "no_packet_id = Raised (InboundValueError ''Cannot publish without packet id'')"

definition deliver_qos1_publish :: "Publish \<Rightarrow> InboundRecipient \<Rightarrow> inbound \<Rightarrow> status \<times> inbound" where
  "deliver_qos1_publish packet recipient w =
     (case pub_packet_id packet of
        None \<Rightarrow> (no_packet_id, w)
      | Some pid \<Rightarrow>
          if recipient_auto_ack recipient then deliver_then recipient None (Some pid) w
          else deliver_then recipient (Some (PubackCallback pid)) None w)"

definition qos2_flight :: "int \<Rightarrow> InboundRecipient \<Rightarrow> bool \<Rightarrow> InboundQoS2Flight" where
  "qos2_flight pid recipient delivered =
     \<lparr>q2_packet_id = pid, q2_recipient = recipient, q2_state = PENDING_PUBREL, q2_delivered = delivered\<rparr>"

definition start_flight :: "int \<Rightarrow> InboundRecipient \<Rightarrow> bool \<Rightarrow> inbound \<Rightarrow> inbound" where
  "start_flight pid recipient delivered w =
     emit (Sent (PubRec (ack_packet pid 0)))
       (w\<lparr>ib_inflight_qos2_in := AList.update pid (qos2_flight pid recipient delivered) (ib_inflight_qos2_in w)\<rparr>)"

definition accept_qos2_publish :: "Publish \<Rightarrow> InboundRecipient \<Rightarrow> inbound \<Rightarrow> status \<times> inbound" where
  "accept_qos2_publish packet recipient w =
     (case pub_packet_id packet of
        None \<Rightarrow> (no_packet_id, w)
      | Some pid \<Rightarrow>
          if (case ir_subscription recipient of None \<Rightarrow> False | Some it \<Rightarrow> se_ref (snd it) \<in> ib_detached w)
          then (Done, w)
          else if recipient_auto_ack recipient then (Done, start_flight pid recipient False w)
          else deliver_then recipient (Some (PubrecCallback pid recipient)) None
                 (w\<lparr>ib_pending_ack_qos2_in := insert pid (ib_pending_ack_qos2_in w)\<rparr>))"

definition deliver_replay :: "Publish \<Rightarrow> InboundRecipient \<Rightarrow> inbound \<Rightarrow> status \<times> inbound" where
  "deliver_replay publish recipient w =
     (case pub_qos publish of
        AT_MOST_ONCE \<Rightarrow> deliver_then recipient None None w
      | AT_LEAST_ONCE \<Rightarrow> deliver_qos1_publish publish recipient w
      | EXACTLY_ONCE \<Rightarrow> accept_qos2_publish publish recipient w)"

section \<open>Replay of a resumed session\<close>

definition new_buffer :: "nat \<Rightarrow> replay_buffer" where
  "new_buffer n = \<lparr>rb_id = n, rb_publishes = [], rb_packet_ids = {}, rb_topics = [], rb_message_count = 0,
     rb_expiration = False\<rparr>"

definition contains_packet_id :: "int \<Rightarrow> replay \<Rightarrow> bool" where
  "contains_packet_id pid replay =
     (case replay of PersistentReplayBuffered b \<Rightarrow> pid \<in> rb_packet_ids b | _ \<Rightarrow> False)"

definition topic_count :: "pystr \<Rightarrow> replay_buffer \<Rightarrow> int" where
  "topic_count topic b = (case map_of (rb_topics b) topic of None \<Rightarrow> 0 | Some n \<Rightarrow> n)"

definition hold :: "Publish \<Rightarrow> replay_buffer \<Rightarrow> replay_buffer" where
  "hold publish b =
     b\<lparr>rb_publishes := rb_publishes b @ [publish], rb_message_count := rb_message_count b + 1,
       rb_topics := AList.update (pub_topic publish) (topic_count (pub_topic publish) b + 1) (rb_topics b),
       rb_packet_ids := (case pub_packet_id publish of None \<Rightarrow> rb_packet_ids b
                         | Some pid \<Rightarrow> insert pid (rb_packet_ids b))\<rparr>"

text \<open>The buffer that has taken a message is the replay state, with a task to expire it.\<close>

definition start_expiration :: "replay_buffer \<Rightarrow> inbound \<Rightarrow> inbound" where
  "start_expiration b w =
     (if rb_expiration b then w\<lparr>ib_replay := PersistentReplayBuffered b\<rparr>
      else w\<lparr>ib_replay := PersistentReplayBuffered (b\<lparr>rb_expiration := True\<rparr>),
             ib_timers := insert (rb_id b) (ib_timers w)\<rparr>)"

text \<open>
  \<open>accept\<close> of the buffered state: deliver now, already held, over the limit, or hold.  The result is
  the recipient to deliver to, if any, and the next replay state.
\<close>

definition accept_buffered ::
  "Publish \<Rightarrow> InboundRecipient \<Rightarrow> replay_buffer \<Rightarrow> inbound \<Rightarrow> (inbound_error + InboundRecipient option) \<times> inbound" where
  "accept_buffered publish recipient b w =
     (if ir_request recipient \<noteq> None then (Inr (Some recipient), w)
      else if ir_subscription recipient \<noteq> None \<and> map_of (rb_topics b) (pub_topic publish) = None
      then (Inr (Some recipient), w)
      else if (case pub_packet_id publish of None \<Rightarrow> False | Some pid \<Rightarrow> pid \<in> rb_packet_ids b)
      then (Inr None, w)
      else if ib_buffer_size w \<noteq> 0 \<and> rb_message_count b \<ge> ib_buffer_size w
      then (Inl (MQTTProtocolError ''Persistent-session replay buffer limit exceeded''),
            emit (Aborted None) w)
      else (Inr None, start_expiration (hold publish b) w))"

text \<open>The other two states deliver what has a recipient; without one, a resumed session starts a buffer.\<close>

definition accept_no_session ::
  "Publish \<Rightarrow> InboundRecipient \<Rightarrow> inbound \<Rightarrow> (inbound_error + InboundRecipient option) \<times> inbound" where
  "accept_no_session publish recipient w = (Inr (Some recipient), w)"

definition accept_idle ::
  "Publish \<Rightarrow> InboundRecipient \<Rightarrow> inbound \<Rightarrow> (inbound_error + InboundRecipient option) \<times> inbound" where
  "accept_idle publish recipient w =
     (if ir_request recipient \<noteq> None \<or> ir_subscription recipient \<noteq> None then (Inr (Some recipient), w)
      else accept_buffered publish recipient (new_buffer (ib_next_buffer w)) (w\<lparr>ib_next_buffer := ib_next_buffer w + 1\<rparr>))"

definition accept ::
  "Publish \<Rightarrow> InboundRecipient \<Rightarrow> inbound \<Rightarrow> (inbound_error + InboundRecipient option) \<times> inbound" where
  "accept publish recipient w =
     (case ib_replay w of
        NoSessionReplay \<Rightarrow> accept_no_session publish recipient w
      | PersistentReplayIdle \<Rightarrow> accept_idle publish recipient w
      | PersistentReplayBuffered b \<Rightarrow> accept_buffered publish recipient b w)"

definition select_recipient_or_buffer ::
  "Publish \<Rightarrow> inbound \<Rightarrow> (inbound_error + InboundRecipient option) \<times> inbound" where
  "select_recipient_or_buffer publish w =
     (case select_recipient publish w of (selected, w') \<Rightarrow> accept publish selected w')"

definition discard :: "Publish \<Rightarrow> replay_buffer \<Rightarrow> replay_buffer" where
  "discard publish b =
     (let n = topic_count (pub_topic publish) b - 1 in
      b\<lparr>rb_message_count := rb_message_count b - 1,
        rb_topics := (if n \<noteq> 0 then AList.update (pub_topic publish) n (rb_topics b)
                      else AList.delete (pub_topic publish) (rb_topics b)),
        rb_packet_ids := (case pub_packet_id publish of None \<Rightarrow> rb_packet_ids b
                          | Some pid \<Rightarrow> rb_packet_ids b - {pid})\<rparr>)"

text \<open>
  \<open>_deliver_pending\<close>: \<open>pending\<close> is what is still to be looked at, \<open>unmatched\<close> what stays.  A queue that is
  full is skipped before the put, so a put never waits here.  When a delivery raises, its message and
  those still to be looked at stay.
\<close>

definition undeliverable :: "InboundRecipient \<Rightarrow> inbound \<Rightarrow> bool" where
  "undeliverable recipient w \<longleftrightarrow>
     ir_request recipient = None
     \<and> (case ir_subscription recipient of None \<Rightarrow> True | Some it \<Rightarrow> queue_full (se_queue (snd it)) w)"

text \<open>
  \<open>deliver_replay\<close> as the pass awaits it: the acknowledgement, if one is sent, is the last thing it
  does, and it raises for the messages in \<open>fails\<close>.
\<close>

definition await_replay :: "(Publish \<Rightarrow> bool) \<Rightarrow> Publish \<Rightarrow> InboundRecipient \<Rightarrow> inbound \<Rightarrow> status \<times> inbound" where
  "await_replay fails publish recipient w =
     (case deliver_replay publish recipient w of
        (Done, w') \<Rightarrow> (if fails publish \<and> ib_events w' \<noteq> ib_events w then Raised SendError else Done, w')
      | (st, w') \<Rightarrow> (st, w'))"

fun deliver_pending ::
  "(Publish \<Rightarrow> bool) \<Rightarrow> Publish list \<Rightarrow> Publish list \<Rightarrow> replay_buffer \<Rightarrow> inbound
     \<Rightarrow> status \<times> replay_buffer \<times> inbound" where
  "deliver_pending fails [] unmatched b w = (Done, b\<lparr>rb_publishes := unmatched\<rparr>, w)"
| "deliver_pending fails (publish # pending) unmatched b w =
     (case select_recipient publish w of (recipient, w1) \<Rightarrow>
        if undeliverable recipient w1 then deliver_pending fails pending (unmatched @ [publish]) b w1
        else (case await_replay fails publish recipient w1 of
                (Done, w2) \<Rightarrow> deliver_pending fails pending unmatched (discard publish b) w2
              | (st, w2) \<Rightarrow> (st, b\<lparr>rb_publishes := unmatched @ [publish] @ pending\<rparr>, w2)))"

definition cancel_expiration :: "replay_buffer \<Rightarrow> inbound \<Rightarrow> replay_buffer \<times> inbound" where
  "cancel_expiration b w =
     (b\<lparr>rb_expiration := False\<rparr>,
      if rb_expiration b then w\<lparr>ib_timers := ib_timers w - {rb_id b}\<rparr> else w)"

definition drop_pending :: "replay_buffer \<Rightarrow> int \<times> replay_buffer" where
  "drop_pending b =
     (rb_message_count b, b\<lparr>rb_publishes := [], rb_packet_ids := {}, rb_topics := [], rb_message_count := 0\<rparr>)"

text \<open>
  \<open>drain\<close>, \<open>expire\<close> and \<open>clear\<close> of the replay states, each with the state that follows it.  A buffer whose
  last message was delivered gives up its task; an exception leaves the buffer in its place.  A buffer
  that is left, \<open>b''\<close> or \<open>b'\<close> here, is not referred to any more.
\<close>

definition no_session_drain :: "inbound \<Rightarrow> status \<times> replay \<times> inbound" where
  "no_session_drain w = (Done, NoSessionReplay, w)"

definition idle_drain :: "inbound \<Rightarrow> status \<times> replay \<times> inbound" where
  "idle_drain w = (Done, PersistentReplayIdle, w)"

definition buffered_drain :: "(Publish \<Rightarrow> bool) \<Rightarrow> replay_buffer \<Rightarrow> inbound \<Rightarrow> status \<times> replay \<times> inbound" where
  "buffered_drain fails b w =
     (case deliver_pending fails (rb_publishes b) [] b w of
        (Done, b', w') \<Rightarrow>
          if rb_message_count b' \<noteq> 0 then (Done, PersistentReplayBuffered b', w')
          else (case cancel_expiration b' w' of (b'', w'') \<Rightarrow> (Done, PersistentReplayIdle, w''))
      | (st, b', w') \<Rightarrow> (st, PersistentReplayBuffered b', w'))"

definition buffered_expire :: "(Publish \<Rightarrow> bool) \<Rightarrow> replay_buffer \<Rightarrow> inbound \<Rightarrow> status \<times> replay \<times> inbound" where
  "buffered_expire fails b w =
     (case deliver_pending fails (rb_publishes b) [] b w of
        (Done, b', w') \<Rightarrow>
          (case drop_pending b' of (dropped, b'') \<Rightarrow>
             if dropped \<noteq> 0 then (Done, NoSessionReplay, w') else (Done, PersistentReplayIdle, w'))
      | (st, b', w') \<Rightarrow> (st, PersistentReplayBuffered b', w'))"

definition no_session_clear :: "inbound \<Rightarrow> replay \<times> inbound" where
  "no_session_clear w = (NoSessionReplay, w)"

definition idle_clear :: "inbound \<Rightarrow> replay \<times> inbound" where
  "idle_clear w = (NoSessionReplay, w)"

definition buffered_clear :: "replay_buffer \<Rightarrow> inbound \<Rightarrow> replay \<times> inbound" where
  "buffered_clear b w =
     (case cancel_expiration b w of (b', w') \<Rightarrow>
        (case drop_pending b' of (dropped, b'') \<Rightarrow> (NoSessionReplay, w')))"

text \<open>The flow's own operations, on the replay state it has.\<close>

definition drain :: "(Publish \<Rightarrow> bool) \<Rightarrow> inbound \<Rightarrow> status \<times> inbound" where
  "drain fails w =
     (case (case ib_replay w of
              NoSessionReplay \<Rightarrow> no_session_drain w
            | PersistentReplayIdle \<Rightarrow> idle_drain w
            | PersistentReplayBuffered b \<Rightarrow> buffered_drain fails b w) of
        (st, next_replay, w') \<Rightarrow> (st, w'\<lparr>ib_replay := next_replay\<rparr>))"

definition expire_replay :: "(Publish \<Rightarrow> bool) \<Rightarrow> nat \<Rightarrow> inbound \<Rightarrow> status \<times> inbound" where
  "expire_replay fails n w =
     (case ib_replay w of
        PersistentReplayBuffered b \<Rightarrow>
          if rb_id b \<noteq> n then (Done, w)
          else (case buffered_expire fails b w of (st, next_replay, w') \<Rightarrow> (st, w'\<lparr>ib_replay := next_replay\<rparr>))
      | _ \<Rightarrow> (Done, w))"

definition replay_clear :: "inbound \<Rightarrow> replay \<times> inbound" where
  "replay_clear w =
     (case ib_replay w of
        NoSessionReplay \<Rightarrow> no_session_clear w
      | PersistentReplayIdle \<Rightarrow> idle_clear w
      | PersistentReplayBuffered b \<Rightarrow> buffered_clear b w)"

definition begin_session :: "bool \<Rightarrow> inbound \<Rightarrow> inbound" where
  "begin_session session_present w =
     (case replay_clear w of (cleared, w') \<Rightarrow>
        w'\<lparr>ib_replay := (if session_present then PersistentReplayIdle else NoSessionReplay)\<rparr>)"

definition inbound_clear :: "inbound \<Rightarrow> inbound" where
  "inbound_clear w = (case replay_clear w of (next_replay, w') \<Rightarrow> w'\<lparr>ib_replay := next_replay\<rparr>)"

text \<open>
  The task of buffer \<open>n\<close>, once its time is up.  A failure aborts the connection; in any case the task
  is over and the buffer, if it is still in use, without one: the next message held starts another.
\<close>

definition expiration_ended :: "nat \<Rightarrow> inbound \<Rightarrow> inbound" where
  "expiration_ended n w =
     w\<lparr>ib_timers := ib_timers w - {n},
       ib_replay := (case ib_replay w of
           PersistentReplayBuffered b \<Rightarrow>
             PersistentReplayBuffered (if rb_id b = n then b\<lparr>rb_expiration := False\<rparr> else b)
         | rp \<Rightarrow> rp)\<rparr>"

definition expire_after_timeout :: "(Publish \<Rightarrow> bool) \<Rightarrow> nat \<Rightarrow> inbound \<Rightarrow> inbound" where
  "expire_after_timeout fails n w =
     (case expire_replay fails n w of (st, w') \<Rightarrow>
        expiration_ended n (case st of Raised e \<Rightarrow> emit (Aborted None) w' | _ \<Rightarrow> w'))"

section \<open>Handlers\<close>

definition hold_receive_quota :: "int \<Rightarrow> inbound \<Rightarrow> inbound_error option \<times> inbound" where
  "hold_receive_quota packet_id w =
     (let w1 = w\<lparr>ib_unacknowledged := insert packet_id (ib_unacknowledged w)\<rparr> in
      if (case ib_receive_maximum w1 of None \<Rightarrow> False
          | Some limit \<Rightarrow> int (card (ib_unacknowledged w1)) > limit)
      then (Some (MQTTProtocolError ''Broker exceeded the Receive Maximum''),
            emit (Aborted (Some RECEIVE_MAXIMUM_EXCEEDED)) w1)
      else (None, w1))"

text \<open>What the handlers do with the outcome of \<open>_select_recipient_or_buffer\<close>.\<close>

definition with_recipient ::
  "Publish \<Rightarrow> (InboundRecipient \<Rightarrow> inbound \<Rightarrow> status \<times> inbound) \<Rightarrow> inbound \<Rightarrow> status \<times> inbound" where
  "with_recipient packet k w =
     (case select_recipient_or_buffer packet w of
        (Inl e, w') \<Rightarrow> (Raised e, w')
      | (Inr None, w') \<Rightarrow> (Done, w')
      | (Inr (Some recipient), w') \<Rightarrow> k recipient w')"

definition handle_qos1_publish :: "Publish \<Rightarrow> inbound \<Rightarrow> status \<times> inbound" where
  "handle_qos1_publish packet w =
     (case pub_packet_id packet of
        None \<Rightarrow> (no_packet_id, w)
      | Some pid \<Rightarrow>
          (case hold_receive_quota pid w of
             (Some e, w1) \<Rightarrow> (Raised e, w1)
           | (None, w1) \<Rightarrow>
               if contains_packet_id pid (ib_replay w1) then (Done, w1)
               else with_recipient packet (deliver_qos1_publish packet) w1))"

definition handle_qos2_publish :: "Publish \<Rightarrow> inbound \<Rightarrow> status \<times> inbound" where
  "handle_qos2_publish packet w =
     (case pub_packet_id packet of
        None \<Rightarrow> (no_packet_id, w)
      | Some pid \<Rightarrow>
          (case hold_receive_quota pid w of
             (Some e, w1) \<Rightarrow> (Raised e, w1)
           | (None, w1) \<Rightarrow>
               if map_of (ib_inflight_qos2_in w1) pid \<noteq> None
               then (Done, emit (Sent (PubRec (ack_packet pid 0))) w1)
               else if pid \<in> ib_pending_ack_qos2_in w1 then (Done, w1)
               else if contains_packet_id pid (ib_replay w1) then (Done, w1)
               else with_recipient packet (accept_qos2_publish packet) w1))"

definition handle_publish :: "Publish \<Rightarrow> inbound \<Rightarrow> status \<times> inbound" where
  "handle_publish packet w =
     (case pub_qos packet of
        AT_MOST_ONCE \<Rightarrow> with_recipient packet (\<lambda>recipient. deliver_then recipient None None) w
      | AT_LEAST_ONCE \<Rightarrow> handle_qos1_publish packet w
      | EXACTLY_ONCE \<Rightarrow> handle_qos2_publish packet w)"

definition handle_pubrel :: "PubAckVariant \<Rightarrow> inbound \<Rightarrow> status \<times> inbound" where
  "handle_pubrel packet w =
     (let pid = pav_packet_id packet in
      case map_of (ib_inflight_qos2_in w) pid of
        None \<Rightarrow> (Done, emit (Sent (PubComp (ack_packet pid PACKET_IDENTIFIER_NOT_FOUND))) w)
      | Some flight \<Rightarrow>
          let w1 = complete_ack (PubComp (ack_packet pid 0)) pid
                     (w\<lparr>ib_inflight_qos2_in := AList.delete pid (ib_inflight_qos2_in w)\<rparr>)
          in if q2_delivered flight then (Done, w1)
             else deliver_then (q2_recipient flight) None None w1)"

text \<open>
  \<open>handle_pubrel\<close> when sending the PUBCOMP raises: the flight has been taken out of the table, and the
  delivery that would follow does not happen.
\<close>

definition handle_pubrel_cut :: "PubAckVariant \<Rightarrow> inbound \<Rightarrow> status \<times> inbound" where
  "handle_pubrel_cut packet w =
     (let pid = pav_packet_id packet in
      (Raised SendError,
       case map_of (ib_inflight_qos2_in w) pid of
         None \<Rightarrow> emit (Sent (PubComp (ack_packet pid PACKET_IDENTIFIER_NOT_FOUND))) w
       | Some flight \<Rightarrow>
           complete_ack (PubComp (ack_packet pid 0)) pid
             (w\<lparr>ib_inflight_qos2_in := AList.delete pid (ib_inflight_qos2_in w)\<rparr>)))"

section \<open>The application's side\<close>

text \<open>Taking a message off a queue, and \<open>Message.ack\<close>.\<close>

definition queue_get :: "nat \<Rightarrow> inbound \<Rightarrow> (QueuedMessage \<times> inbound) option" where
  "queue_get q w =
     (case ib_queues w q of
        [] \<Rightarrow> None
      | m # ms \<Rightarrow> Some (m, w\<lparr>ib_queues := (ib_queues w)(q := ms)\<rparr>))"

definition message_ack :: "QueuedMessage \<Rightarrow> inbound \<Rightarrow> QueuedMessage \<times> inbound" where
  "message_ack m w =
     (if qm_resolved m then (m, w)
      else (m\<lparr>qm_resolved := True\<rparr>,
            case qm_ack_callback m of
              None \<Rightarrow> w
            | Some (PubackCallback pid) \<Rightarrow> complete_ack (PubAck (ack_packet pid 0)) pid w
            | Some (PubrecCallback pid recipient) \<Rightarrow>
                start_flight pid recipient True
                  (w\<lparr>ib_pending_ack_qos2_in := ib_pending_ack_qos2_in w - {pid}\<rparr>)))"

section \<open>What the parts leave alone\<close>

text \<open>
  Everything but the quota and the replay buffer works by steps that leave the limits and the
  replay state alone, take units of the quota only away, and keep every bounded queue within
  its bound.
\<close>

definition within_bounds :: "inbound \<Rightarrow> bool" where
  "within_bounds w \<longleftrightarrow> (\<forall>q. 0 < ib_maxsize w q \<longrightarrow> length (ib_queues w q) \<le> ib_maxsize w q)"

definition tame :: "inbound \<Rightarrow> inbound \<Rightarrow> bool" where
  "tame w w' \<longleftrightarrow> ib_replay w' = ib_replay w \<and> ib_timers w' = ib_timers w \<and> ib_buffer_size w' = ib_buffer_size w
     \<and> ib_receive_maximum w' = ib_receive_maximum w \<and> ib_maxsize w' = ib_maxsize w
     \<and> ib_unacknowledged w' \<subseteq> ib_unacknowledged w \<and> (within_bounds w \<longrightarrow> within_bounds w')
     \<and> set (ib_events w) \<subseteq> set (ib_events w')"

lemma tame_refl [simp, intro]: "tame w w"
  by (simp add: tame_def)

lemma tame_trans: "tame u v \<Longrightarrow> tame v w \<Longrightarrow> tame u w"
  by (auto simp: tame_def)

lemma tame_frame:
  "tame w (emit e w)"
  "tame w (w\<lparr>ib_router := d\<rparr>)"
  "tame w (w\<lparr>ib_inflight_qos2_in := fl\<rparr>)"
  "tame w (w\<lparr>ib_pending_ack_qos2_in := ps\<rparr>)"
  "tame w (w\<lparr>ib_unacknowledged := ib_unacknowledged w - {pid}\<rparr>)"
  "tame w (w\<lparr>ib_subscriptions := ix\<rparr>)"
  "tame w (w\<lparr>ib_detached := ds\<rparr>)"
  by (auto simp: tame_def emit_def within_bounds_def)

lemma tame_complete_ack: "tame w (complete_ack ack pid w)"
  unfolding complete_ack_def using tame_trans tame_frame(1,5) by blast

lemma tame_after_delivery: "tame w (after_delivery puback b w)"
  by (simp add: after_delivery_def tame_complete_ack split: option.split)

lemma tame_put: "\<not> queue_full (se_queue entry) w \<Longrightarrow> tame w (put_message r entry cb w)"
  by (auto simp: tame_def put_message_def within_bounds_def queue_full_def Let_def)

lemma tame_deliver: "tame w (snd (deliver r cb w))"
  by (simp add: deliver_def tame_frame tame_put split: option.split)

lemma tame_deliver_then: "tame w (snd (deliver_then r cb puback w))"
  using tame_deliver [of w r cb] tame_trans [OF _ tame_after_delivery]
  by (auto simp: deliver_then_def split: prod.splits delivery.splits)

lemma tame_start_flight: "tame w (start_flight pid r b w)"
  unfolding start_flight_def using tame_trans tame_frame(1,3) by blast

lemma tame_deliver_qos1: "tame w (snd (deliver_qos1_publish p r w))"
  by (simp add: deliver_qos1_publish_def tame_deliver_then split: option.split)

lemma tame_accept_qos2: "tame w (snd (accept_qos2_publish p r w))"
  by (auto simp: accept_qos2_publish_def tame_start_flight split: option.split
      intro: tame_trans [OF tame_frame(4) tame_deliver_then])

lemma tame_deliver_replay: "tame w (snd (deliver_replay p r w))"
  by (simp add: deliver_replay_def tame_deliver_then tame_deliver_qos1 tame_accept_qos2 split: QoS.split)

lemma tame_select: "tame w (snd (select_recipient p w))"
  by (auto simp: select_recipient_def Let_def tame_frame split: option.split prod.split)

lemma tame_shrink:
  assumes "length ms \<le> length (ib_queues w q)"
  shows "tame w (w\<lparr>ib_queues := (ib_queues w)(q := ms)\<rparr>)"
proof -
  have "length ms \<le> ib_maxsize w q" if "within_bounds w" "0 < ib_maxsize w q"
    using assms that by (meson le_trans within_bounds_def)
  then show ?thesis by (auto simp: tame_def within_bounds_def)
qed

lemma tame_resume:
  assumes "\<And>flt entry. ir_subscription r = Some (flt, entry) \<Longrightarrow> \<not> queue_full (se_queue entry) w"
  shows "tame w (resume r cb puback w)"
proof (cases "ir_subscription r")
  case (Some it)
  obtain flt entry where it: "it = (flt, entry)" by (cases it)
  let ?w1 = "put_message r entry cb w"
  have put: "tame w ?w1" using assms Some it by (simp add: tame_put)
  have "tame w (?w1\<lparr>ib_queues := (ib_queues ?w1)(q := tl (ib_queues ?w1 q))\<rparr>)" for q
    by (rule tame_trans [OF put tame_shrink]) simp
  then have "tame w (after_delivery puback False
      (?w1\<lparr>ib_queues := (ib_queues ?w1)(q := tl (ib_queues ?w1 q))\<rparr>))" for q
    by (rule tame_trans [OF _ tame_after_delivery])
  moreover have "tame w (after_delivery puback True ?w1)"
    by (rule tame_trans [OF put tame_after_delivery])
  ultimately show ?thesis by (simp add: resume_def Some it Let_def)
qed (simp add: resume_def)

lemma tame_handle_pubrel: "tame w (snd (handle_pubrel p w))"
proof (cases "map_of (ib_inflight_qos2_in w) (pav_packet_id p)")
  case (Some flight)
  let ?w1 = "complete_ack (PubComp (ack_packet (pav_packet_id p) 0)) (pav_packet_id p)
    (w\<lparr>ib_inflight_qos2_in := AList.delete (pav_packet_id p) (ib_inflight_qos2_in w)\<rparr>)"
  have "tame w ?w1" using tame_trans [OF tame_frame(3) tame_complete_ack] .
  with Some show ?thesis
    using tame_trans [OF _ tame_deliver_then] by (auto simp: handle_pubrel_def Let_def)
qed (simp add: handle_pubrel_def Let_def tame_frame)

lemma tame_pubrel_cut: "tame w (snd (handle_pubrel_cut p w))"
  using tame_trans [OF tame_frame(3) tame_complete_ack]
  by (auto simp: handle_pubrel_cut_def Let_def tame_frame split: option.split)

lemma tame_message_ack: "tame w (snd (message_ack m w))"
  by (auto simp: message_ack_def tame_complete_ack split: option.split ack_callback.split
      intro: tame_trans [OF tame_frame(4) tame_start_flight])

lemma tame_queue_get: "queue_get q w = Some (m, w') \<Longrightarrow> tame w w'"
  by (auto simp: queue_get_def split: list.splits intro: tame_shrink)

lemma tame_await_replay: "tame w (snd (await_replay fails p r w))"
  using tame_deliver_replay [of w p r] by (auto simp: await_replay_def split: prod.split status.split)

lemma tame_deliver_pending: "tame w (snd (snd (deliver_pending fails ps unmatched b w)))"
proof (induction fails ps unmatched b w rule: deliver_pending.induct)
  case (2 fails publish pending unmatched b w)
  obtain r w1 where sel: "select_recipient publish w = (r, w1)" by (metis prod.exhaust)
  have w1: "tame w w1" using tame_select [of w publish] sel by simp
  obtain st w2 where rep: "await_replay fails publish r w1 = (st, w2)" by (metis prod.exhaust)
  have w2: "tame w w2" using tame_await_replay [of w1 fails publish r] rep tame_trans [OF w1] by simp
  show ?case
  proof (cases "undeliverable r w1")
    case True
    then show ?thesis using "2.IH"(1) [OF sel [symmetric] True] sel tame_trans [OF w1] by simp
  next
    case False
    then show ?thesis
      using "2.IH"(2) [OF sel [symmetric] False rep [symmetric]] sel rep w2 tame_trans [OF w2]
      by (cases st) auto
  qed
qed simp

text \<open>Beginning a session and clearing touch nothing but the replay state and its task.\<close>

lemma session_frame [simp]:
  "ib_subscriptions (begin_session sp w) = ib_subscriptions w" "ib_subscriptions (inbound_clear w) = ib_subscriptions w"
  "ib_router (begin_session sp w) = ib_router w" "ib_router (inbound_clear w) = ib_router w"
  "ib_inflight_qos2_in (begin_session sp w) = ib_inflight_qos2_in w" "ib_inflight_qos2_in (inbound_clear w) = ib_inflight_qos2_in w"
  "ib_pending_ack_qos2_in (begin_session sp w) = ib_pending_ack_qos2_in w" "ib_pending_ack_qos2_in (inbound_clear w) = ib_pending_ack_qos2_in w"
  "ib_buffer_size (begin_session sp w) = ib_buffer_size w" "ib_buffer_size (inbound_clear w) = ib_buffer_size w"
  "ib_receive_maximum (begin_session sp w) = ib_receive_maximum w" "ib_receive_maximum (inbound_clear w) = ib_receive_maximum w"
  "ib_unacknowledged (begin_session sp w) = ib_unacknowledged w" "ib_unacknowledged (inbound_clear w) = ib_unacknowledged w"
  "ib_detached (begin_session sp w) = ib_detached w" "ib_detached (inbound_clear w) = ib_detached w"
  "ib_queues (begin_session sp w) = ib_queues w" "ib_queues (inbound_clear w) = ib_queues w"
  "ib_maxsize (begin_session sp w) = ib_maxsize w" "ib_maxsize (inbound_clear w) = ib_maxsize w"
  "ib_events (begin_session sp w) = ib_events w" "ib_events (inbound_clear w) = ib_events w"
  by (cases "ib_replay w"; simp add: begin_session_def inbound_clear_def replay_clear_def no_session_clear_def
      idle_clear_def buffered_clear_def cancel_expiration_def drop_pending_def)+

section \<open>The replay buffer\<close>

text \<open>The counters of a buffer that describe the list \<open>l\<close> of held publishes.\<close>

definition held_pids :: "Publish list \<Rightarrow> int list" where
  "held_pids l = List.map_filter pub_packet_id l"

definition describes :: "replay_buffer \<Rightarrow> Publish list \<Rightarrow> bool" where
  "describes b l \<longleftrightarrow> rb_message_count b = int (length l)
     \<and> (\<forall>t. map_of (rb_topics b) t = (if t \<in> pub_topic ` set l
          then Some (int (length (filter (\<lambda>p. pub_topic p = t) l))) else None))
     \<and> distinct (held_pids l) \<and> rb_packet_ids b = set (held_pids l)"

lemma held_pids_simps [simp]:
  "held_pids [] = []"
  "held_pids (p # l) = (case pub_packet_id p of None \<Rightarrow> held_pids l | Some pid \<Rightarrow> pid # held_pids l)"
  "held_pids (l @ l') = held_pids l @ held_pids l'"
  by (simp_all add: held_pids_def List.map_filter_def split: option.split)

lemma describes_empty [simp]: "describes (new_buffer n) []"
  by (simp add: describes_def new_buffer_def)

lemma describes_count:
  "describes b l \<Longrightarrow> topic_count t b = int (length (filter (\<lambda>p. pub_topic p = t) l))"
  by (auto simp: describes_def topic_count_def filter_empty_conv)

lemma describes_hold:
  assumes "describes b l" and "\<And>pid. pub_packet_id p = Some pid \<Longrightarrow> pid \<notin> rb_packet_ids b"
  shows "describes (hold p b) (l @ [p])"
proof -
  have "map_of (rb_topics (hold p b)) t = (if t \<in> pub_topic ` set (l @ [p])
      then Some (int (length (filter (\<lambda>p. pub_topic p = t) (l @ [p])))) else None)" for t
    using assms(1) describes_count [OF assms(1), of t]
    by (auto simp: hold_def AList.update_conv' describes_def filter_empty_conv image_iff)
  then show ?thesis
    using assms by (auto simp: describes_def hold_def split: option.splits)
qed

lemma describes_discard:
  assumes "describes b (u @ p # r)"
  shows "describes (discard p b) (u @ r)"
proof -
  let ?n = "\<lambda>t l. int (length (filter (\<lambda>p. pub_topic p = t) l))"
  note d = assms [unfolded describes_def]
  have z: "?n t l = 0 \<longleftrightarrow> t \<notin> pub_topic ` set l" for t l by (auto simp: filter_empty_conv)
  have tc: "topic_count (pub_topic p) b = ?n (pub_topic p) (u @ r) + 1"
    using describes_count [OF assms, of "pub_topic p"] by simp
  have "map_of (rb_topics (discard p b)) t = (if t \<in> pub_topic ` set (u @ r) then Some (?n t (u @ r)) else None)"
    for t
  proof (cases "t = pub_topic p")
    case True
    then show ?thesis
      using tc z [of t "u @ r"] by (auto simp: discard_def Let_def AList.update_conv' AList.delete_conv')
  next
    case False
    then have "map_of (rb_topics (discard p b)) t = map_of (rb_topics b) t"
      by (simp add: discard_def Let_def AList.update_conv' AList.delete_conv')
    then show ?thesis using d False by auto
  qed
  moreover have "distinct (held_pids (u @ r)) \<and> rb_packet_ids (discard p b) = set (held_pids (u @ r))"
    using d by (auto simp: discard_def Let_def split: option.splits)
  ultimately show ?thesis using d by (simp add: describes_def discard_def Let_def)
qed

lemma describes_publishes [simp]: "describes (b\<lparr>rb_publishes := l'\<rparr>) l = describes b l"
  by (simp add: describes_def)

text \<open>
  A pass over the buffer: what stays is a subsequence of what was held, in order, and the
  counters describe it.
\<close>

lemma deliver_pending_describes:
  assumes "deliver_pending fails ps unmatched b w = (st, b', w')" and "describes b (unmatched @ ps)"
  shows "describes b' (rb_publishes b') \<and> (\<exists>ks. rb_publishes b' = unmatched @ ks \<and> subseq ks ps)"
  using assms
proof (induction fails ps unmatched b w rule: deliver_pending.induct)
  case (1 fails unmatched b w)
  then show ?case by auto
next
  case (2 fails publish pending unmatched b w)
  obtain r w1 where sel: "select_recipient publish w = (r, w1)" by (metis prod.exhaust)
  obtain st2 w2 where rep: "await_replay fails publish r w1 = (st2, w2)" by (metis prod.exhaust)
  show ?case
  proof (cases "undeliverable r w1")
    case True
    from "2.IH"(1) [OF sel [symmetric] True] "2.prems" sel True obtain ks where
      "describes b' (rb_publishes b')" "rb_publishes b' = unmatched @ publish # ks" "subseq ks pending"
      by auto
    then show ?thesis by auto
  next
    case undel: False
    show ?thesis
    proof (cases "st2 = Done")
      case True
      have "describes (discard publish b) (unmatched @ pending)"
        using "2.prems"(2) by (rule describes_discard)
      with "2.IH"(2) [OF sel [symmetric] undel rep [symmetric] True] "2.prems"(1) sel undel rep True
      show ?thesis by (auto intro: list_emb_Cons)
    next
      case False
      with "2.prems" sel undel rep have "b' = b\<lparr>rb_publishes := unmatched @ [publish] @ pending\<rparr>"
        by (cases st2) auto
      with "2.prems"(2) show ?thesis by auto
    qed
  qed
qed

text \<open>A pass leaves the number of the buffer and its task alone; one that raises leaves a message.\<close>

lemma deliver_pending_task:
  "deliver_pending fails ps unmatched b w = (st, b', w') \<Longrightarrow> rb_id b' = rb_id b \<and> rb_expiration b' = rb_expiration b
     \<and> (st \<noteq> Done \<longrightarrow> rb_publishes b' \<noteq> [])"
proof (induction fails ps unmatched b w rule: deliver_pending.induct)
  case (2 fails publish pending unmatched b w)
  obtain r w1 where sel: "select_recipient publish w = (r, w1)" by (metis prod.exhaust)
  obtain st2 w2 where rep: "await_replay fails publish r w1 = (st2, w2)" by (metis prod.exhaust)
  have d: "rb_id (discard publish b) = rb_id b" "rb_expiration (discard publish b) = rb_expiration b"
    by (simp_all add: discard_def Let_def)
  show ?case
  proof (cases "undeliverable r w1")
    case True
    then show ?thesis using "2.IH"(1) [OF sel [symmetric] True] "2.prems" sel by simp
  next
    case False
    then show ?thesis
      using "2.IH"(2) [OF sel [symmetric] False rep [symmetric]] "2.prems" sel rep d by (cases st2) auto
  qed
qed auto

text \<open>A put never has to wait during a pass, and no message is held that a pass would refuse.\<close>

lemma deliver_not_blocked:
  "\<not> undeliverable r w \<Longrightarrow> fst (deliver r cb w) \<noteq> NeedsRoom"
  by (auto simp: undeliverable_def deliver_def split: option.splits)

lemma deliver_then_status:
  "fst (deliver_then r cb puback w) = Done \<longleftrightarrow> fst (deliver r cb w) \<noteq> NeedsRoom"
  by (auto simp: deliver_then_def split: prod.splits delivery.splits)

definition replayable :: "Publish \<Rightarrow> bool" where
  "replayable p \<longleftrightarrow> pub_qos p = AT_MOST_ONCE \<or> pub_packet_id p \<noteq> None"

lemma deliver_replay_done:
  assumes "replayable p" and "\<not> undeliverable r w"
  shows "fst (deliver_replay p r w) = Done"
proof -
  have "undeliverable r (w\<lparr>ib_pending_ack_qos2_in := s\<rparr>) = undeliverable r w" for s
    by (simp add: undeliverable_def queue_full_def split: option.split)
  then have d: "fst (deliver_then r cb k w) = Done"
    "fst (deliver_then r cb k (w\<lparr>ib_pending_ack_qos2_in := s\<rparr>)) = Done" for cb k s
    using deliver_not_blocked assms(2) by (simp_all add: deliver_then_status)
  show ?thesis
    using assms(1)
    by (auto simp: deliver_replay_def deliver_qos1_publish_def accept_qos2_publish_def replayable_def d
        split: QoS.split option.split)
qed

lemma deliver_pending_done:
  "\<forall>p \<in> set ps. replayable p \<Longrightarrow> fst (deliver_pending fails ps unmatched b w) \<in> {Done, Raised SendError}"
proof (induction fails ps unmatched b w rule: deliver_pending.induct)
  case (2 fails publish pending unmatched b w)
  obtain r w1 where sel: "select_recipient publish w = (r, w1)" by (metis prod.exhaust)
  show ?case
  proof (cases "undeliverable r w1")
    case True
    then show ?thesis using "2.IH"(1) [OF sel [symmetric] True] "2.prems" sel by simp
  next
    case False
    obtain w2 where rep: "deliver_replay publish r w1 = (Done, w2)"
      using deliver_replay_done [OF _ False, of publish] "2.prems" by (metis list.set_intros(1) prod.collapse)
    then have "await_replay fails publish r w1 = (Done, w2) \<or> await_replay fails publish r w1 = (Raised SendError, w2)"
      by (simp add: await_replay_def)
    then consider "await_replay fails publish r w1 = (Done, w2)"
      | "await_replay fails publish r w1 = (Raised SendError, w2)" by blast
    then show ?thesis
    proof cases
      case 1
      then show ?thesis using "2.IH"(2) [OF sel [symmetric] False 1 [symmetric]] "2.prems" sel False by simp
    qed (simp add: sel False)
  qed
qed simp

text \<open>
  What a buffer holds, and the replay state: a buffer in use is never empty and the one task there is,
  if any, is its own; otherwise there is none.
\<close>

definition holds_ok :: "int \<Rightarrow> replay_buffer \<Rightarrow> bool" where
  "holds_ok lim b \<longleftrightarrow> describes b (rb_publishes b) \<and> (lim \<noteq> 0 \<longrightarrow> int (length (rb_publishes b)) \<le> lim)
     \<and> (\<forall>p \<in> set (rb_publishes b). replayable p)"

definition buffer_ok :: "int \<Rightarrow> nat set \<Rightarrow> replay \<Rightarrow> bool" where
  "buffer_ok lim timers rp \<longleftrightarrow>
     (case rp of
        PersistentReplayBuffered b \<Rightarrow>
          holds_ok lim b \<and> rb_publishes b \<noteq> [] \<and> timers = (if rb_expiration b then {rb_id b} else {})
      | _ \<Rightarrow> timers = {})"

lemma buffer_ok_simps [simp]:
  "buffer_ok lim timers NoSessionReplay \<longleftrightarrow> timers = {}"
  "buffer_ok lim timers PersistentReplayIdle \<longleftrightarrow> timers = {}"
  "buffer_ok lim timers (PersistentReplayBuffered b) \<longleftrightarrow>
     holds_ok lim b \<and> rb_publishes b \<noteq> [] \<and> timers = (if rb_expiration b then {rb_id b} else {})"
  by (simp_all add: buffer_ok_def)

lemma holds_ok_new [simp]: "lim \<ge> 0 \<Longrightarrow> holds_ok lim (new_buffer n)"
  using describes_empty [of n] by (simp add: holds_ok_def new_buffer_def)

lemma new_buffer_idle [simp]: "\<not> rb_expiration (new_buffer n)"
  by (simp add: new_buffer_def)

lemma start_expiration_simps [simp]:
  "ib_buffer_size (start_expiration b w) = ib_buffer_size w"
  "ib_receive_maximum (start_expiration b w) = ib_receive_maximum w"
  "ib_maxsize (start_expiration b w) = ib_maxsize w"
  "ib_unacknowledged (start_expiration b w) = ib_unacknowledged w"
  "ib_queues (start_expiration b w) = ib_queues w"
  "ib_detached (start_expiration b w) = ib_detached w"
  by (simp_all add: start_expiration_def)

lemma accept_buffered_cases:
  obtains x where "accept_buffered p r b w = (Inr x, w)"
  | e where "accept_buffered p r b w = (Inl e, emit (Aborted None) w)"
  | "accept_buffered p r b w = (Inr None, start_expiration (hold p b) w)"
    and "\<And>pid. pub_packet_id p = Some pid \<Longrightarrow> pid \<notin> rb_packet_ids b"
    and "ib_buffer_size w = 0 \<or> rb_message_count b < ib_buffer_size w"
proof -
  let ?held = "case pub_packet_id p of None \<Rightarrow> False | Some pid \<Rightarrow> pid \<in> rb_packet_ids b"
  let ?over = "ib_buffer_size w \<noteq> 0 \<and> rb_message_count b \<ge> ib_buffer_size w"
  let ?now = "ir_request r \<noteq> None \<or> ir_subscription r \<noteq> None \<and> map_of (rb_topics b) (pub_topic p) = None"
  consider "?now" | "\<not> ?now" "?held" | "\<not> ?now" "\<not> ?held" "?over" | "\<not> ?now" "\<not> ?held" "\<not> ?over" by blast
  then show ?thesis
  proof cases
    case 4
    then have "accept_buffered p r b w = (Inr None, start_expiration (hold p b) w)"
      by (auto simp: accept_buffered_def)
    moreover from 4(2) have "\<And>pid. pub_packet_id p = Some pid \<Longrightarrow> pid \<notin> rb_packet_ids b" by auto
    ultimately show ?thesis using that(3) 4(3) by (meson not_less)
  next
    case 1
    then have "accept_buffered p r b w = (Inr (Some r), w)" by (auto simp: accept_buffered_def)
    then show ?thesis by (rule that(1))
  next
    case 2
    then have "accept_buffered p r b w = (Inr None, w)" by (auto simp: accept_buffered_def)
    then show ?thesis by (rule that(1))
  next
    case 3
    then have "accept_buffered p r b w =
        (Inl (MQTTProtocolError ''Persistent-session replay buffer limit exceeded''), emit (Aborted None) w)"
      by (auto simp: accept_buffered_def)
    then show ?thesis by (rule that(2))
  qed
qed

lemma holds_ok_hold:
  assumes "holds_ok lim b" and "replayable p" and "\<And>pid. pub_packet_id p = Some pid \<Longrightarrow> pid \<notin> rb_packet_ids b"
    and "lim = 0 \<or> rb_message_count b < lim"
  shows "holds_ok lim (hold p b)"
proof -
  have d: "describes b (rb_publishes b)" using assms(1) by (simp add: holds_ok_def)
  then have "rb_message_count b = int (length (rb_publishes b))" by (simp add: describes_def)
  moreover have "rb_publishes (hold p b) = rb_publishes b @ [p]" by (simp add: hold_def)
  ultimately show ?thesis using assms describes_hold [OF d assms(3)] by (auto simp: holds_ok_def)
qed

text \<open>A buffer that is not in use yet has no task and there is no other; one in use has the only task.\<close>

lemma accept_buffered_ok:
  assumes "holds_ok (ib_buffer_size w) b" and "replayable p"
    and "if rb_expiration b then ib_timers w = {rb_id b} else ib_timers w = {}"
    and "buffer_ok (ib_buffer_size w) (ib_timers w) (ib_replay w)"
  shows "buffer_ok (ib_buffer_size w) (ib_timers (snd (accept_buffered p r b w))) (ib_replay (snd (accept_buffered p r b w)))"
proof (cases rule: accept_buffered_cases [of p r b w])
  case 3
  have h: "holds_ok (ib_buffer_size w) (hold p b)" using assms(1,2) 3(2,3) by (rule holds_ok_hold)
  have "rb_publishes (hold p b) \<noteq> []" "rb_expiration (hold p b) = rb_expiration b" "rb_id (hold p b) = rb_id b"
    by (simp_all add: hold_def)
  with h 3(1) assms(3) show ?thesis by (auto simp: start_expiration_def holds_ok_def describes_def split: if_splits)
qed (use assms(4) in \<open>simp_all add: emit_def\<close>)

lemma accept_ok:
  assumes "buffer_ok (ib_buffer_size w) (ib_timers w) (ib_replay w)" and "ib_buffer_size w \<ge> 0" and "replayable p"
  shows "buffer_ok (ib_buffer_size w) (ib_timers (snd (accept p r w))) (ib_replay (snd (accept p r w)))"
proof (cases "ib_replay w")
  case PersistentReplayIdle
  let ?w = "w\<lparr>ib_next_buffer := ib_next_buffer w + 1\<rparr>" and ?b = "new_buffer (ib_next_buffer w)"
  have "buffer_ok (ib_buffer_size ?w) (ib_timers (snd (accept_buffered p r ?b ?w)))
      (ib_replay (snd (accept_buffered p r ?b ?w)))"
    using assms PersistentReplayIdle by (intro accept_buffered_ok) simp_all
  with assms(1) PersistentReplayIdle show ?thesis by (simp add: accept_def accept_idle_def)
next
  case (PersistentReplayBuffered b)
  with assms accept_buffered_ok [of w b p r] show ?thesis by (simp add: accept_def)
qed (use assms in \<open>simp add: accept_def accept_no_session_def\<close>)

lemma accept_limits:
  "ib_buffer_size (snd (accept p r w)) = ib_buffer_size w
   \<and> ib_receive_maximum (snd (accept p r w)) = ib_receive_maximum w
   \<and> ib_maxsize (snd (accept p r w)) = ib_maxsize w
   \<and> ib_unacknowledged (snd (accept p r w)) = ib_unacknowledged w
   \<and> ib_queues (snd (accept p r w)) = ib_queues w"
proof -
  have b: "ib_buffer_size (snd (accept_buffered p r b w)) = ib_buffer_size w
     \<and> ib_receive_maximum (snd (accept_buffered p r b w)) = ib_receive_maximum w
     \<and> ib_maxsize (snd (accept_buffered p r b w)) = ib_maxsize w
     \<and> ib_unacknowledged (snd (accept_buffered p r b w)) = ib_unacknowledged w
     \<and> ib_queues (snd (accept_buffered p r b w)) = ib_queues w" for b w
    by (cases rule: accept_buffered_cases [of p r b w]) (simp_all add: emit_def)
  show ?thesis by (cases "ib_replay w") (simp_all add: accept_def accept_no_session_def accept_idle_def b)
qed

section \<open>The invariant of the flow\<close>

text \<open>
  While the read loop lives: the replay buffer is consistent and within its limit, no bounded
  queue is over its bound, the unacknowledged messages are within the receive maximum, and a buffer
  is without a task only when the failure of its task has aborted the connection.
\<close>

definition expiry_ok :: "inbound \<Rightarrow> bool" where
  "expiry_ok w \<longleftrightarrow>
     (\<forall>b. ib_replay w = PersistentReplayBuffered b \<longrightarrow> rb_expiration b \<or> Aborted None \<in> set (ib_events w))"

definition core_ok :: "inbound \<Rightarrow> bool" where
  "core_ok w \<longleftrightarrow> ib_buffer_size w \<ge> 0 \<and> buffer_ok (ib_buffer_size w) (ib_timers w) (ib_replay w) \<and> within_bounds w
     \<and> finite (ib_unacknowledged w) \<and> expiry_ok w"

definition quota_ok :: "inbound \<Rightarrow> bool" where
  "quota_ok w \<longleftrightarrow>
     (\<forall>limit. ib_receive_maximum w = Some limit \<longrightarrow> int (card (ib_unacknowledged w)) \<le> limit)"

lemma tame_ok:
  assumes "tame w w'" and "core_ok w"
  shows "core_ok w'" and "quota_ok w \<Longrightarrow> quota_ok w'"
proof -
  have s: "ib_unacknowledged w' \<subseteq> ib_unacknowledged w" "finite (ib_unacknowledged w)"
    using assms by (simp_all add: tame_def core_ok_def)
  then show "core_ok w'" using assms finite_subset by (auto simp: tame_def core_ok_def expiry_ok_def)
  show "quota_ok w'" if "quota_ok w"
    using that assms(1) card_mono [OF s(2,1)] by (auto simp: tame_def quota_ok_def split: option.splits)
qed

lemma accept_buffered_expiry: "expiry_ok w \<Longrightarrow> expiry_ok (snd (accept_buffered p r b w))"
  by (cases rule: accept_buffered_cases [of p r b w]) (auto simp: expiry_ok_def start_expiration_def emit_def)

lemma accept_expiry: "expiry_ok w \<Longrightarrow> expiry_ok (snd (accept p r w))"
  using accept_buffered_expiry [of "w\<lparr>ib_next_buffer := ib_next_buffer w + 1\<rparr>"] accept_buffered_expiry [of w]
  by (auto simp: accept_def accept_no_session_def accept_idle_def expiry_ok_def split: replay.split)

lemma accept_core:
  assumes "core_ok w" and "replayable p"
  shows "core_ok (snd (accept p r w))" and "quota_ok w \<Longrightarrow> quota_ok (snd (accept p r w))"
  using assms accept_limits [of p r w] accept_ok [of w p r] accept_expiry [of w p r]
  by (simp_all add: core_ok_def quota_ok_def within_bounds_def)

lemma with_recipient_ok:
  assumes k: "\<And>r w. tame w (snd (k r w))" and w: "core_ok w" "quota_ok w" and p: "replayable p"
  shows "core_ok (snd (with_recipient p k w)) \<and> quota_ok (snd (with_recipient p k w))"
proof -
  obtain r w1 where sel: "select_recipient p w = (r, w1)" by (metis prod.exhaust)
  have "tame w w1" using tame_select [of w p] sel by simp
  then have w1: "core_ok w1" "quota_ok w1" using tame_ok w by blast+
  obtain x w2 where acc: "accept p r w1 = (x, w2)" by (metis prod.exhaust)
  then have w2: "core_ok w2" "quota_ok w2" using accept_core [OF w1(1) p, of r] w1(2) by simp_all
  have wr: "snd (with_recipient p k w) = (case x of Inr (Some r') \<Rightarrow> snd (k r' w2) | _ \<Rightarrow> w2)"
    by (simp add: with_recipient_def select_recipient_or_buffer_def sel acc split: sum.split option.split)
  show ?thesis unfolding wr using w2 tame_ok [OF k] by (auto split: sum.split option.split)
qed

lemma hold_quota_ok:
  assumes "hold_receive_quota pid w = (e, w1)" and "core_ok w"
  shows "core_ok w1" and "e = None \<Longrightarrow> quota_ok w1"
  using assms
  by (auto simp: hold_receive_quota_def Let_def core_ok_def expiry_ok_def quota_ok_def within_bounds_def emit_def
      split: if_splits option.splits)

lemma handle_qos1_ok:
  assumes "handle_qos1_publish p w = (st, w')" and "core_ok w" and "quota_ok w"
  shows "core_ok w' \<and> ((\<forall>e. st \<noteq> Raised e) \<longrightarrow> quota_ok w')"
proof (cases "pub_packet_id p")
  case None
  then show ?thesis using assms by (auto simp: handle_qos1_publish_def)
next
  case (Some pid)
  obtain e w1 where h: "hold_receive_quota pid w = (e, w1)" by (metis prod.exhaust)
  note ok = hold_quota_ok [OF h assms(2)]
  have p: "replayable p" using Some by (simp add: replayable_def)
  show ?thesis
  proof (cases e)
    case None
    then show ?thesis
      using assms(1) ok h Some with_recipient_ok [of "deliver_qos1_publish p" w1 p, OF tame_deliver_qos1 _ _ p]
      by (auto simp: handle_qos1_publish_def split: if_splits)
  qed (use assms(1) ok h Some in \<open>auto simp: handle_qos1_publish_def\<close>)
qed

lemma handle_qos2_ok:
  assumes "handle_qos2_publish p w = (st, w')" and "core_ok w" and "quota_ok w"
  shows "core_ok w' \<and> ((\<forall>e. st \<noteq> Raised e) \<longrightarrow> quota_ok w')"
proof (cases "pub_packet_id p")
  case None
  then show ?thesis using assms by (auto simp: handle_qos2_publish_def)
next
  case (Some pid)
  obtain e w1 where h: "hold_receive_quota pid w = (e, w1)" by (metis prod.exhaust)
  note ok = hold_quota_ok [OF h assms(2)]
  have p: "replayable p" using Some by (simp add: replayable_def)
  show ?thesis
  proof (cases e)
    case None
    then show ?thesis
      using assms(1) ok h Some with_recipient_ok [of "accept_qos2_publish p" w1 p, OF tame_accept_qos2 _ _ p]
        tame_ok [OF tame_frame(1) ok(1)]
      by (auto simp: handle_qos2_publish_def split: if_splits)
  qed (use assms(1) ok h Some in \<open>auto simp: handle_qos2_publish_def\<close>)
qed

lemma handle_publish_ok:
  assumes "handle_publish p w = (st, w')" and "core_ok w" and "quota_ok w"
  shows "core_ok w' \<and> ((\<forall>e. st \<noteq> Raised e) \<longrightarrow> quota_ok w')"
  using assms handle_qos1_ok [of p w st w'] handle_qos2_ok [of p w st w']
    with_recipient_ok [of "\<lambda>r. deliver_then r None None" w p, OF tame_deliver_then]
  by (cases "pub_qos p") (auto simp: handle_publish_def replayable_def)

lemma subseq_length_int: "subseq ks ps \<Longrightarrow> int (length ks) \<le> int (length ps)"
  using list_emb_length by fastforce

lemma quota_replay [simp]: "quota_ok (w\<lparr>ib_replay := rp\<rparr>) = quota_ok w"
  by (simp add: quota_ok_def)

text \<open>A pass over a buffer ends, or is cut short by a send that raises, and leaves it consistent.\<close>

lemma pass_ok:
  assumes "core_ok w" and "ib_replay w = PersistentReplayBuffered b"
  obtains st b' w' where "deliver_pending fails (rb_publishes b) [] b w = (st, b', w')"
    and "st = Done \<or> st = Raised SendError \<and> rb_publishes b' \<noteq> []" and "tame w w'"
    and "holds_ok (ib_buffer_size w) b'" and "rb_message_count b' = int (length (rb_publishes b'))"
    and "rb_id b' = rb_id b" and "rb_expiration b' = rb_expiration b"
proof -
  have b: "holds_ok (ib_buffer_size w) b"
    using assms by (simp_all add: core_ok_def)
  then have "fst (deliver_pending fails (rb_publishes b) [] b w) \<in> {Done, Raised SendError}"
    by (intro deliver_pending_done) (simp add: holds_ok_def)
  then obtain st b' w' where pass: "deliver_pending fails (rb_publishes b) [] b w = (st, b', w')"
    and st: "st = Done \<or> st = Raised SendError"
    by (cases "deliver_pending fails (rb_publishes b) [] b w") auto
  have t: "tame w w'" using tame_deliver_pending [of w fails "rb_publishes b" "[]" b] pass by simp
  have d: "describes b' (rb_publishes b')" "subseq (rb_publishes b') (rb_publishes b)"
    using deliver_pending_describes [OF pass] b by (auto simp: holds_ok_def)
  have "set (rb_publishes b') \<subseteq> set (rb_publishes b)" using list_emb_set [OF d(2)] by blast
  with b d subseq_length_int [OF d(2)] have "holds_ok (ib_buffer_size w) b'" by (fastforce simp: holds_ok_def)
  then show ?thesis
    using that pass t st d(1) deliver_pending_task [OF pass] by (auto simp: describes_def)
qed

lemma drain_ok:
  assumes "core_ok w"
  shows "fst (drain fails w) \<in> {Done, Raised SendError} \<and> core_ok (snd (drain fails w))
    \<and> (quota_ok w \<longrightarrow> quota_ok (snd (drain fails w)))"
proof (cases "ib_replay w")
  case (PersistentReplayBuffered b)
  from assms this obtain st b' w' where pass: "deliver_pending fails (rb_publishes b) [] b w = (st, b', w')"
    "st = Done \<or> st = Raised SendError \<and> rb_publishes b' \<noteq> []" "tame w w'"
    "holds_ok (ib_buffer_size w) b'" "rb_message_count b' = int (length (rb_publishes b'))"
    "rb_id b' = rb_id b" "rb_expiration b' = rb_expiration b" by (rule pass_ok)
  have w': "core_ok w'" "quota_ok w \<longrightarrow> quota_ok w'" "ib_replay w' = PersistentReplayBuffered b"
    "ib_buffer_size w' = ib_buffer_size w" "ib_timers w' = ib_timers w"
    using tame_ok [OF pass(3) assms] pass(3) PersistentReplayBuffered by (simp_all add: tame_def)
  show ?thesis
  proof (cases "st = Done \<and> rb_message_count b' = 0")
    case True
    then have "drain fails w = (Done, (snd (cancel_expiration b' w'))\<lparr>ib_replay := PersistentReplayIdle\<rparr>)"
      using pass(1) PersistentReplayBuffered by (simp add: drain_def buffered_drain_def split: prod.split)
    then show ?thesis
      using w' pass(6,7)
      by (auto simp: cancel_expiration_def core_ok_def expiry_ok_def quota_ok_def within_bounds_def split: if_splits)
  next
    case False
    then have "drain fails w = (st, w'\<lparr>ib_replay := PersistentReplayBuffered b'\<rparr>)"
      using pass(1,2) PersistentReplayBuffered by (auto simp: drain_def buffered_drain_def)
    moreover have "rb_publishes b' \<noteq> []" using False pass(2,5) by auto
    ultimately show ?thesis
      using w' pass(2,4,6,7) by (auto simp: core_ok_def expiry_ok_def quota_ok_def within_bounds_def)
  qed
qed (use assms in \<open>simp_all add: drain_def no_session_drain_def idle_drain_def core_ok_def expiry_ok_def quota_ok_def within_bounds_def\<close>)

lemma clear_ok:
  assumes "core_ok w"
  shows "core_ok (begin_session sp w) \<and> core_ok (inbound_clear w)
    \<and> (quota_ok w \<longrightarrow> quota_ok (begin_session sp w) \<and> quota_ok (inbound_clear w))"
  using assms
  by (cases "ib_replay w")
    (simp_all add: begin_session_def inbound_clear_def replay_clear_def no_session_clear_def idle_clear_def
      buffered_clear_def cancel_expiration_def drop_pending_def core_ok_def expiry_ok_def quota_ok_def within_bounds_def)

text \<open>
  When its time is up the buffer is gone: nothing is held any more and there is no task, or a send has
  failed and the connection is aborted.
\<close>

lemma expire_ok:
  assumes "core_ok w" and "n \<in> ib_timers w"
  shows "core_ok (expire_after_timeout fails n w) \<and> (quota_ok w \<longrightarrow> quota_ok (expire_after_timeout fails n w))
    \<and> (ib_replay (expire_after_timeout fails n w) \<in> {NoSessionReplay, PersistentReplayIdle}
       \<or> Aborted None \<in> set (ib_events (expire_after_timeout fails n w)))"
proof (cases "ib_replay w")
  case (PersistentReplayBuffered b)
  then have n: "n = rb_id b" "rb_expiration b" using assms by (simp_all add: core_ok_def split: if_splits)
  from assms(1) PersistentReplayBuffered obtain st b' w' where
    pass: "deliver_pending fails (rb_publishes b) [] b w = (st, b', w')"
    "st = Done \<or> st = Raised SendError \<and> rb_publishes b' \<noteq> []" "tame w w'"
    "holds_ok (ib_buffer_size w) b'" "rb_message_count b' = int (length (rb_publishes b'))"
    "rb_id b' = rb_id b" "rb_expiration b' = rb_expiration b" by (rule pass_ok)
  have w': "core_ok w'" "quota_ok w \<longrightarrow> quota_ok w'" "ib_replay w' = PersistentReplayBuffered b"
    "ib_buffer_size w' = ib_buffer_size w" "ib_timers w' = {rb_id b}"
    using tame_ok [OF pass(3) assms(1)] pass(3) PersistentReplayBuffered n assms(1)
    by (simp_all add: tame_def core_ok_def)
  show ?thesis
  proof (cases "st = Done")
    case True
    define rp where "rp = (if rb_message_count b' \<noteq> 0 then NoSessionReplay else PersistentReplayIdle)"
    have "expire_after_timeout fails n w = w'\<lparr>ib_timers := {}, ib_replay := rp\<rparr>"
      using True pass(1) PersistentReplayBuffered n(1) w'(5)
      by (simp add: expire_after_timeout_def expire_replay_def buffered_expire_def drop_pending_def
          expiration_ended_def rp_def)
    moreover have "rp \<in> {NoSessionReplay, PersistentReplayIdle}" by (simp add: rp_def)
    ultimately show ?thesis using w' by (auto simp: core_ok_def expiry_ok_def quota_ok_def within_bounds_def)
  next
    case False
    with pass(1,2,6) PersistentReplayBuffered n(1) w'(5)
    have "expire_after_timeout fails n w = (emit (Aborted None) w')\<lparr>ib_timers := {},
        ib_replay := PersistentReplayBuffered (b'\<lparr>rb_expiration := False\<rparr>)\<rparr>"
      by (auto simp: expire_after_timeout_def expire_replay_def buffered_expire_def expiration_ended_def emit_def)
    moreover have "holds_ok (ib_buffer_size w) (b'\<lparr>rb_expiration := False\<rparr>)"
      using pass(4) by (simp add: holds_ok_def describes_def)
    ultimately show ?thesis
      using w' pass(2) False
      by (auto simp: core_ok_def expiry_ok_def quota_ok_def within_bounds_def emit_def)
  qed
qed (use assms in \<open>simp_all add: core_ok_def\<close>)

text \<open>
  The steps: packets are handled while the read loop is at rest; a blocked delivery continues
  when there is room; the application, new subscriptions, a detached one, reconnecting requests,
  \<open>drain\<close> and the expiry of the replay buffer come at any time.  A send of a handler may raise instead
  of ending it, and so may the sends of a drain or an expiry, in whatever messages \<open>fails\<close> says.
\<close>

type_synonym flow = "inbound \<times> status \<times> QueuedMessage list"

inductive istep :: "flow \<Rightarrow> flow \<Rightarrow> bool" where
  publish: "handle_publish p w = (st, w') \<Longrightarrow> istep (w, Done, ms) (w', st, ms)"
| publish_cut: "handle_publish p w = (Done, w') \<Longrightarrow> ib_events w' \<noteq> ib_events w \<Longrightarrow>
    istep (w, Done, ms) (w', Raised SendError, ms)"
| pubrel: "handle_pubrel p w = (st, w') \<Longrightarrow> istep (w, Done, ms) (w', st, ms)"
| pubrel_cut: "handle_pubrel_cut p w = (st, w') \<Longrightarrow> istep (w, Done, ms) (w', st, ms)"
| resume: "(\<And>flt entry. ir_subscription r = Some (flt, entry) \<Longrightarrow> \<not> queue_full (se_queue entry) w) \<Longrightarrow>
    istep (w, Blocked r cb puback, ms) (resume r cb puback w, Done, ms)"
| take_message: "queue_get q w = Some (m, w') \<Longrightarrow> istep (w, st, ms) (w', st, ms @ [m])"
| ack: "i < length ms \<Longrightarrow> message_ack (ms ! i) w = (m', w') \<Longrightarrow> istep (w, st, ms) (w', st, ms[i := m'])"
| subscriptions: "istep (w, st, ms) (w\<lparr>ib_subscriptions := ix\<rparr>, st, ms)"
| detach: "istep (w, st, ms) (w\<lparr>ib_detached := insert r (ib_detached w)\<rparr>, st, ms)"
| requests: "istep (w, st, ms) (w\<lparr>ib_router := d\<rparr>, st, ms)"
| drain: "drain fails w = (st', w') \<Longrightarrow> istep (w, st, ms) (w', st, ms)"
| expire: "n \<in> ib_timers w \<Longrightarrow> istep (w, st, ms) (expire_after_timeout fails n w, st, ms)"
| session: "istep (w, st, ms) (begin_session sp w, st, ms)"
| clear: "istep (w, st, ms) (inbound_clear w, st, ms)"

definition flow_inv :: "flow \<Rightarrow> bool" where
  "flow_inv f \<longleftrightarrow> (case f of (w, st, ms) \<Rightarrow> core_ok w \<and> ((\<forall>e. st \<noteq> Raised e) \<longrightarrow> quota_ok w))"

lemma tame_flow: "tame w w' \<Longrightarrow> flow_inv (w, st, ms) \<Longrightarrow> flow_inv (w', st, ms')"
  by (auto simp: flow_inv_def tame_ok)

lemma istep_inv: "istep f f' \<Longrightarrow> flow_inv f \<Longrightarrow> flow_inv f'"
proof (induction rule: istep.induct)
  case (publish p w st w' ms)
  then show ?case using handle_publish_ok by (auto simp: flow_inv_def)
next
  case (publish_cut p w w' ms)
  then show ?case using handle_publish_ok by (auto simp: flow_inv_def)
next
  case (pubrel p w st w' ms)
  then show ?case using tame_handle_pubrel [of w p] tame_ok [of w w'] by (auto simp: flow_inv_def)
next
  case (pubrel_cut p w st w' ms)
  then show ?case using tame_pubrel_cut [of w p] tame_ok [of w w'] by (auto simp: flow_inv_def)
next
  case (resume r w cb puback ms)
  then have "tame w (resume r cb puback w)" by (intro tame_resume) auto
  then show ?case using resume.prems tame_ok by (auto simp: flow_inv_def)
next
  case (take_message q w m w' st ms)
  then show ?case using tame_flow [OF tame_queue_get] by blast
next
  case (ack i ms w m' w' st)
  then show ?case using tame_flow [of w w'] tame_message_ack [of w "ms ! i"] by auto
next
  case (drain fails w st' w' st ms)
  then show ?case using drain_ok [of w fails] by (auto simp: flow_inv_def)
next
  case (expire n w st ms fails)
  then show ?case using expire_ok [of w n fails] by (auto simp: flow_inv_def)
next
  case (session w st ms sp)
  then show ?case using clear_ok by (auto simp: flow_inv_def)
next
  case (clear w st ms)
  then show ?case using clear_ok by (auto simp: flow_inv_def)
qed (blast intro: tame_flow tame_frame)+

section \<open>Properties\<close>

text \<open>
  The branches of \<open>_dispatch\<close> that lead to this flow, run over the packets of the read loop.  The
  other packets do not touch the state of the flow.
\<close>

definition dispatch_inbound :: "packet \<Rightarrow> inbound \<Rightarrow> status \<times> inbound" where
  "dispatch_inbound packet w =
     (case packet of
        Publish p \<Rightarrow> handle_publish p w
      | PubRel p \<Rightarrow> handle_pubrel p w
      | _ \<Rightarrow> (Done, w))"

fun dispatch_all :: "packet list \<Rightarrow> inbound \<Rightarrow> status \<times> inbound" where
  "dispatch_all [] w = (Done, w)"
| "dispatch_all (packet # packets) w =
     (case dispatch_inbound packet w of
        (Done, w') \<Rightarrow> dispatch_all packets w'
      | (st, w') \<Rightarrow> (st, w'))"

lemma dispatch_all_append:
  "dispatch_all (ps @ qs) w = (case dispatch_all ps w of (Done, w') \<Rightarrow> dispatch_all qs w' | (st, w') \<Rightarrow> (st, w'))"
  by (induction ps arbitrary: w) (auto split: prod.split status.split)

text \<open>
  No session is replayed, no request waits for the publish, and the subscription it selects is
  attached and has room; the quota has room for \<open>pid\<close>.
\<close>

definition unclaimed :: "Publish \<Rightarrow> inbound \<Rightarrow> bool" where
  "unclaimed p w \<longleftrightarrow> (\<forall>d. ib_router w = Some d \<longrightarrow> claim (make_message p) d = (None, d))"

definition subscriber_of :: "Publish \<Rightarrow> inbound \<Rightarrow> item option" where
  "subscriber_of p w = sel_recipient (select_subscription p (ib_subscriptions w))"

definition selects :: "Publish \<Rightarrow> item \<Rightarrow> inbound \<Rightarrow> bool" where
  "selects p it w \<longleftrightarrow> ib_replay w = NoSessionReplay \<and> unclaimed p w \<and> subscriber_of p w = Some it"

definition routed_to :: "Publish \<Rightarrow> item \<Rightarrow> inbound \<Rightarrow> bool" where
  "routed_to p it w \<longleftrightarrow> selects p it w
     \<and> se_ref (snd it) \<notin> ib_detached w \<and> \<not> queue_full (se_queue (snd it)) w"

definition room_for :: "int \<Rightarrow> inbound \<Rightarrow> bool" where
  "room_for pid w \<longleftrightarrow>
     (\<forall>limit. ib_receive_maximum w = Some limit \<longrightarrow> int (card (insert pid (ib_unacknowledged w))) \<le> limit)"

definition recipient_of :: "Publish \<Rightarrow> item \<Rightarrow> InboundRecipient" where
  "recipient_of p it = \<lparr>ir_message = make_message p, ir_request = None, ir_subscription = Some it\<rparr>"

definition queued :: "Publish \<Rightarrow> ack_callback option \<Rightarrow> QueuedMessage" where
  "queued p cb = \<lparr>qm_message = make_message p, qm_ack_callback = cb, qm_resolved = False\<rparr>"

lemma recipient_of_simps [simp]:
  "ir_message (recipient_of p it) = make_message p" "ir_request (recipient_of p it) = None"
  "ir_subscription (recipient_of p it) = Some it"
  "recipient_auto_ack (recipient_of p it) = se_auto_ack (snd it)"
  by (simp_all add: recipient_of_def recipient_auto_ack_def)

lemma unclaimed_select:
  assumes "unclaimed p w"
  shows "select_recipient p w =
    (\<lparr>ir_message = make_message p, ir_request = None, ir_subscription = subscriber_of p w\<rparr>, w)"
proof (cases "ib_router w")
  case (Some d)
  then have "w\<lparr>ib_router := Some d\<rparr> = w" by simp
  with assms Some show ?thesis by (simp add: select_recipient_def Let_def unclaimed_def subscriber_of_def)
qed (simp add: select_recipient_def Let_def subscriber_of_def)

lemma selects_recipient:
  assumes "selects p it w"
  shows "select_recipient_or_buffer p w = (Inr (Some (recipient_of p it)), w)"
  using assms
  by (simp add: select_recipient_or_buffer_def selects_def unclaimed_select accept_def accept_no_session_def recipient_of_def)

lemma selects_unack [simp]: "selects p it (w\<lparr>ib_unacknowledged := u\<rparr>) = selects p it w"
  by (simp add: selects_def unclaimed_def subscriber_of_def)

lemma routed_unack [simp]: "routed_to p it (w\<lparr>ib_unacknowledged := u\<rparr>) = routed_to p it w"
  by (simp add: routed_to_def queue_full_def)

lemma selects_with:
  "selects p it w \<Longrightarrow> with_recipient p k (w\<lparr>ib_unacknowledged := u\<rparr>) =
     k (recipient_of p it) (w\<lparr>ib_unacknowledged := u\<rparr>)"
  using selects_recipient [of p it "w\<lparr>ib_unacknowledged := u\<rparr>"] by (simp add: with_recipient_def)

lemma selects_not_held: "selects p it w \<Longrightarrow> \<not> contains_packet_id pid (ib_replay w)"
  by (simp add: selects_def contains_packet_id_def)

lemma hold_quota_room:
  assumes "room_for pid w"
  shows "hold_receive_quota pid w = (None, w\<lparr>ib_unacknowledged := insert pid (ib_unacknowledged w)\<rparr>)"
  using assms by (auto simp: hold_receive_quota_def room_for_def Let_def split: option.splits)

lemma put_deliver:
  assumes "se_ref entry \<notin> ib_detached w" and "\<not> queue_full (se_queue entry) w"
  shows "deliver_then (recipient_of p (flt, entry)) cb puback w =
    (Done, after_delivery puback True (w\<lparr>ib_queues := (ib_queues w)(se_queue entry :=
       ib_queues w (se_queue entry) @ [queued p (if se_auto_ack entry then None else cb)])\<rparr>))"
  using assms by (simp add: deliver_then_def deliver_def put_message_def Let_def queued_def)

lemma qos2_first:
  assumes "pub_qos p = EXACTLY_ONCE" and "pub_packet_id p = Some pid" and "routed_to p it w" and "room_for pid w"
    and "map_of (ib_inflight_qos2_in w) pid = None" and "pid \<notin> ib_pending_ack_qos2_in w"
  shows "handle_publish p w =
    accept_qos2_publish p (recipient_of p it) (w\<lparr>ib_unacknowledged := insert pid (ib_unacknowledged w)\<rparr>)"
  using assms selects_not_held [of p it w pid] selects_with [of p it w]
  by (simp add: routed_to_def handle_publish_def handle_qos2_publish_def hold_quota_room)

lemma qos2_duplicate:
  assumes "pub_qos p = EXACTLY_ONCE" and "pub_packet_id p = Some pid" and "room_for pid w"
    and "pid \<in> ib_unacknowledged w"
  shows "map_of (ib_inflight_qos2_in w) pid \<noteq> None \<Longrightarrow>
      handle_publish p w = (Done, emit (Sent (PubRec (ack_packet pid 0))) w)"
    and "map_of (ib_inflight_qos2_in w) pid = None \<Longrightarrow> pid \<in> ib_pending_ack_qos2_in w \<Longrightarrow>
      handle_publish p w = (Done, w)"
proof -
  have "w\<lparr>ib_unacknowledged := insert pid (ib_unacknowledged w)\<rparr> = w" using assms(4) by (simp add: insert_absorb)
  note q = hold_quota_room [OF assms(3), unfolded this]
  show "map_of (ib_inflight_qos2_in w) pid \<noteq> None \<Longrightarrow>
      handle_publish p w = (Done, emit (Sent (PubRec (ack_packet pid 0))) w)"
    using assms(1,2) q by (auto simp: handle_publish_def handle_qos2_publish_def)
  show "map_of (ib_inflight_qos2_in w) pid = None \<Longrightarrow> pid \<in> ib_pending_ack_qos2_in w \<Longrightarrow>
      handle_publish p w = (Done, w)"
    using assms(1,2) q by (auto simp: handle_publish_def handle_qos2_publish_def)
qed

lemma emit_simps [simp]:
  "room_for pid (emit e w) = room_for pid w" "ib_unacknowledged (emit e w) = ib_unacknowledged w"
  "ib_inflight_qos2_in (emit e w) = ib_inflight_qos2_in w" "ib_events (emit e w) = ib_events w @ [e]"
  "ib_queues (emit e w) = ib_queues w" "ib_pending_ack_qos2_in (emit e w) = ib_pending_ack_qos2_in w"
  "ib_maxsize (emit e w) = ib_maxsize w" "ib_detached (emit e w) = ib_detached w"
  by (simp_all add: emit_def room_for_def)

definition says :: "event list \<Rightarrow> inbound \<Rightarrow> inbound" where
  "says es w = w\<lparr>ib_events := ib_events w @ es\<rparr>"

lemma says_simps [simp]: "says [] w = w" "says es (emit e w) = says (e # es) w" "emit e (says es w) = says (es @ [e]) w"
  by (simp_all add: says_def emit_def)

text \<open>Duplicates of a publish while its handshake is open.\<close>

lemma qos2_duplicates:
  assumes "\<And>p. p \<in> set ps \<Longrightarrow> pub_qos p = EXACTLY_ONCE \<and> pub_packet_id p = Some pid"
    and "room_for pid w" and "pid \<in> ib_unacknowledged w"
  shows "map_of (ib_inflight_qos2_in w) pid \<noteq> None \<Longrightarrow> dispatch_all (map Publish ps) w =
      (Done, says (replicate (length ps) (Sent (PubRec (ack_packet pid 0)))) w)"
    and "map_of (ib_inflight_qos2_in w) pid = None \<Longrightarrow> pid \<in> ib_pending_ack_qos2_in w \<Longrightarrow>
      dispatch_all (map Publish ps) w = (Done, w)"
  using assms
  by (induction ps arbitrary: w) (simp_all add: dispatch_inbound_def qos2_duplicate)

lemma pubrel_unknown:
  assumes "\<And>r. r \<in> set rels \<Longrightarrow> pav_packet_id r = pid" and "map_of (ib_inflight_qos2_in w) pid = None"
  shows "dispatch_all (map PubRel rels) w =
      (Done, says (replicate (length rels) (Sent (PubComp (ack_packet pid 0x92)))) w)"
  using assms
  by (induction rels arbitrary: w)
    (simp_all add: dispatch_inbound_def handle_pubrel_def PACKET_IDENTIFIER_NOT_FOUND_def)

text \<open>
  C4: exactly once.  A QoS 2 publish that goes to a subscription with automatic acknowledgement,
  followed by any number of duplicates of it and then by any number of PUBRELs, puts the message
  into the subscriber's queue once; every PUBLISH is answered by a PUBREC, the first PUBREL by a
  PUBCOMP and the others by PUBCOMP 0x92; the packet id is free again and its unit of the receive
  quota is returned.
\<close>

theorem qos2_exactly_once:
  assumes "pub_qos p = EXACTLY_ONCE" and "pub_packet_id p = Some pid"
    and "routed_to p (flt, entry) w" and "se_auto_ack entry" and "room_for pid w"
    and "map_of (ib_inflight_qos2_in w) pid = None" and "pid \<notin> ib_pending_ack_qos2_in w"
    and "\<forall>dup \<in> set dups. pub_qos dup = EXACTLY_ONCE \<and> pub_packet_id dup = Some pid"
    and "\<forall>r \<in> set (rel # rels). pav_packet_id r = pid"
  shows "\<exists>w'. dispatch_all (map Publish (p # dups) @ map PubRel (rel # rels)) w = (Done, w')
    \<and> ib_queues w' = (ib_queues w)(se_queue entry := ib_queues w (se_queue entry) @ [queued p None])
    \<and> ib_events w' = ib_events w @ replicate (Suc (length dups)) (Sent (PubRec (ack_packet pid 0)))
        @ Sent (PubComp (ack_packet pid 0)) # replicate (length rels) (Sent (PubComp (ack_packet pid 0x92)))
    \<and> map_of (ib_inflight_qos2_in w') pid = None \<and> ib_unacknowledged w' = ib_unacknowledged w - {pid}"
proof -
  let ?r = "recipient_of p (flt, entry)" and ?q = "se_queue entry"
  have open_queue: "se_ref entry \<notin> ib_detached w" "\<not> queue_full ?q w" using assms(3) by (simp_all add: routed_to_def)
  define w1 where "w1 = start_flight pid ?r False (w\<lparr>ib_unacknowledged := insert pid (ib_unacknowledged w)\<rparr>)"
  have w1: "handle_publish p w = (Done, w1)"
    using qos2_first [OF assms(1,2,3,5,6,7)] assms(2,4) open_queue by (simp add: accept_qos2_publish_def w1_def)
  have "room_for pid w1" "pid \<in> ib_unacknowledged w1" "map_of (ib_inflight_qos2_in w1) pid \<noteq> None"
    using assms(5) by (simp_all add: w1_def start_flight_def emit_def room_for_def AList.update_conv')
  then have "dispatch_all (map Publish dups) w1 =
      (Done, says (replicate (length dups) (Sent (PubRec (ack_packet pid 0)))) w1)"
    using qos2_duplicates(1) assms(8) by blast
  moreover define w2 where "w2 = says (replicate (length dups) (Sent (PubRec (ack_packet pid 0)))) w1"
  ultimately have publishes: "dispatch_all (map Publish (p # dups)) w = (Done, w2)"
    using w1 by (simp add: dispatch_inbound_def)
  define w3 where "w3 = complete_ack (PubComp (ack_packet pid 0)) pid
    (w2\<lparr>ib_inflight_qos2_in := AList.delete pid (ib_inflight_qos2_in w2)\<rparr>)"
  define w4 where "w4 = w3\<lparr>ib_queues := (ib_queues w)(?q := ib_queues w ?q @ [queued p None])\<rparr>"
  have flight: "map_of (ib_inflight_qos2_in w2) pid = Some (qos2_flight pid ?r False)"
    by (simp add: w2_def w1_def says_def start_flight_def AList.update_conv')
  have w3: "se_ref entry \<notin> ib_detached w3" "\<not> queue_full ?q w3" "ib_queues w3 = ib_queues w"
    using open_queue
    by (simp_all add: w3_def w2_def w1_def says_def start_flight_def complete_ack_def emit_def queue_full_def)
  have "handle_pubrel rel w2 = deliver_then ?r None None w3"
    using flight assms(9) by (simp add: handle_pubrel_def Let_def w3_def qos2_flight_def)
  also have "\<dots> = (Done, w4)"
    unfolding put_deliver [OF w3(1,2)] by (simp add: after_delivery_def w3(3) w4_def assms(4))
  finally have "dispatch_all (map PubRel (rel # rels)) w2 = dispatch_all (map PubRel rels) w4"
    by (simp add: dispatch_inbound_def)
  moreover have gone: "map_of (ib_inflight_qos2_in w4) pid = None"
    by (simp add: w4_def w3_def complete_ack_def AList.delete_conv')
  moreover have "\<And>r. r \<in> set rels \<Longrightarrow> pav_packet_id r = pid" using assms(9) by simp
  ultimately have pubrels: "dispatch_all (map PubRel (rel # rels)) w2 =
      (Done, says (replicate (length rels) (Sent (PubComp (ack_packet pid 0x92)))) w4)"
    using pubrel_unknown [of rels pid w4] by simp
  show ?thesis
    unfolding dispatch_all_append publishes
    using pubrels gone
    by (simp add: w4_def w3_def w2_def w1_def says_def start_flight_def complete_ack_def emit_def)
qed

definition sample_inbound :: "bool \<Rightarrow> inbound" where
  "sample_inbound auto_ack =
     \<lparr>ib_subscriptions = index_add (str_lit ''a'') ((sample_entry 0 [])\<lparr>se_auto_ack := auto_ack\<rparr>) SubscriptionIndex_init,
      ib_router = None, ib_inflight_qos2_in = [], ib_pending_ack_qos2_in = {}, ib_replay = NoSessionReplay,
      ib_next_buffer = 0, ib_timers = {}, ib_buffer_size = 2, ib_receive_maximum = Some 1, ib_unacknowledged = {}, ib_detached = {},
      ib_queues = (\<lambda>q. []), ib_maxsize = (\<lambda>q. 1), ib_events = []\<rparr>"

definition sample_publish :: "QoS \<Rightarrow> int option \<Rightarrow> Publish" where
  "sample_publish q pid =
     \<lparr>pub_topic = str_lit ''a'', pub_payload = [], pub_qos = q, pub_retain = False, pub_dup = False,
      pub_packet_id = pid, pub_properties = None\<rparr>"

lemma sample_routed:
  "routed_to (sample_publish q pid) (str_lit ''a'', (sample_entry 0 [])\<lparr>se_auto_ack := a\<rparr>) (sample_inbound a)"
proof -
  have "\<forall>a. sel_recipient (index_select (str_lit ''a'')
      (index_add (str_lit ''a'') ((sample_entry 0 [])\<lparr>se_auto_ack := a\<rparr>) SubscriptionIndex_init)) =
      Some (str_lit ''a'', (sample_entry 0 [])\<lparr>se_auto_ack := a\<rparr>)"
    by code_simp
  then show ?thesis
    by (simp add: routed_to_def selects_def unclaimed_def subscriber_of_def sample_inbound_def sample_publish_def
        select_subscription_def queue_full_def)
qed

lemma sample_inbound_simps [simp]:
  "room_for pid (sample_inbound a)" "ib_inflight_qos2_in (sample_inbound a) = []"
  "ib_pending_ack_qos2_in (sample_inbound a) = {}" "ib_queues (sample_inbound a) = (\<lambda>q. [])"
  "ib_unacknowledged (sample_inbound a) = {}" "ib_events (sample_inbound a) = []"
  "ib_maxsize (sample_inbound a) = (\<lambda>q. 1)" "ib_replay (sample_inbound a) = NoSessionReplay"
  "ib_timers (sample_inbound a) = {}"
  "ib_receive_maximum (sample_inbound a) = Some 1" "ib_buffer_size (sample_inbound a) = 2"
  by (simp_all add: room_for_def sample_inbound_def)

lemma sample_publish_simps [simp]:
  "pub_qos (sample_publish q pid) = q" "pub_packet_id (sample_publish q pid) = pid"
  by (simp_all add: sample_publish_def)

theorem qos2_exactly_once_witness:
  "\<exists>w'. dispatch_all [Publish (sample_publish EXACTLY_ONCE (Some 7)), Publish (sample_publish EXACTLY_ONCE (Some 7)),
        PubRel (ack_packet 7 0), PubRel (ack_packet 7 0)] (sample_inbound True) = (Done, w')
     \<and> ib_events w' = [Sent (PubRec (ack_packet 7 0)), Sent (PubRec (ack_packet 7 0)),
        Sent (PubComp (ack_packet 7 0)), Sent (PubComp (ack_packet 7 0x92))]"
proof -
  let ?p = "sample_publish EXACTLY_ONCE (Some 7)" and ?r = "ack_packet 7 0"
  from qos2_exactly_once [OF _ _ sample_routed [of EXACTLY_ONCE "Some 7" True], of 7 "[?p]" ?r "[?r]"]
  show ?thesis by (auto simp: ack_packet_def)
qed

text \<open>
  When the PUBCOMP cannot be sent, the message of the flight is not delivered, neither then nor when
  the broker repeats its PUBREL: the flight is gone.
\<close>

lemma qos2_pubcomp_lost:
  assumes "map_of (ib_inflight_qos2_in w) (pav_packet_id rel) = Some flight"
    and "handle_pubrel_cut rel w = (st, w')"
  shows "st = Raised SendError" and "ib_queues w' = ib_queues w"
    and "handle_pubrel rel w' = (Done, emit (Sent (PubComp (ack_packet (pav_packet_id rel) 0x92))) w')"
  using assms by (auto simp: handle_pubrel_cut_def handle_pubrel_def Let_def complete_ack_def
      AList.delete_conv' PACKET_IDENTIFIER_NOT_FOUND_def)

text \<open>
  C30: with manual acknowledgement a QoS 2 message is queued once however often the broker repeats
  it, and nothing is sent until the application acknowledges it.  \<open>ack()\<close> sends one PUBREC, a second
  \<open>ack()\<close> nothing; the PUBREL that follows is completed without delivering the message again.
\<close>

theorem qos2_manual_ack:
  assumes "pub_qos p = EXACTLY_ONCE" and "pub_packet_id p = Some pid"
    and "routed_to p (flt, entry) w" and "\<not> se_auto_ack entry" and "room_for pid w"
    and "map_of (ib_inflight_qos2_in w) pid = None" and "pid \<notin> ib_pending_ack_qos2_in w"
    and "\<forall>dup \<in> set dups. pub_qos dup = EXACTLY_ONCE \<and> pub_packet_id dup = Some pid"
    and "pav_packet_id rel = pid"
  shows "\<exists>w1 m. dispatch_all (map Publish (p # dups)) w = (Done, w1)
    \<and> ib_queues w1 = (ib_queues w)(se_queue entry := ib_queues w (se_queue entry) @ [m])
    \<and> qm_message m = make_message p \<and> ib_events w1 = ib_events w
    \<and> (let (m2, w2) = message_ack m w1; w3 = snd (handle_pubrel rel w2) in
        ib_events w2 = ib_events w @ [Sent (PubRec (ack_packet pid 0))] \<and> message_ack m2 w2 = (m2, w2)
        \<and> ib_events w3 = ib_events w2 @ [Sent (PubComp (ack_packet pid 0))]
        \<and> ib_queues w3 = ib_queues w1 \<and> ib_unacknowledged w3 = ib_unacknowledged w - {pid})"
proof -
  let ?r = "recipient_of p (flt, entry)" and ?q = "se_queue entry"
  let ?m = "queued p (Some (PubrecCallback pid ?r))"
  have open_queue: "se_ref entry \<notin> ib_detached w" "\<not> queue_full ?q w" using assms(3) by (simp_all add: routed_to_def)
  define w0 where "w0 = w\<lparr>ib_unacknowledged := insert pid (ib_unacknowledged w),
    ib_pending_ack_qos2_in := insert pid (ib_pending_ack_qos2_in w)\<rparr>"
  define w1 where "w1 = w0\<lparr>ib_queues := (ib_queues w)(?q := ib_queues w ?q @ [?m])\<rparr>"
  have w0: "se_ref entry \<notin> ib_detached w0" "\<not> queue_full ?q w0" "ib_queues w0 = ib_queues w"
    using open_queue by (simp_all add: w0_def queue_full_def)
  have "handle_publish p w = deliver_then ?r (Some (PubrecCallback pid ?r)) None w0"
    using qos2_first [OF assms(1,2,3,5,6,7)] assms(2,4) open_queue by (simp add: accept_qos2_publish_def w0_def)
  also have "\<dots> = (Done, w1)"
    unfolding put_deliver [OF w0(1,2)] by (simp add: after_delivery_def w0(3) w1_def assms(4))
  finally have first: "handle_publish p w = (Done, w1)" .
  have "room_for pid w1" "pid \<in> ib_unacknowledged w1" "map_of (ib_inflight_qos2_in w1) pid = None"
    "pid \<in> ib_pending_ack_qos2_in w1"
    using assms(5,6) by (simp_all add: w1_def w0_def room_for_def)
  then have "dispatch_all (map Publish dups) w1 = (Done, w1)" using qos2_duplicates(2) assms(8) by blast
  with first have "dispatch_all (map Publish (p # dups)) w = (Done, w1)" by (simp add: dispatch_inbound_def)
  then show ?thesis
    using assms(9)
    by (intro exI [of _ w1] exI [of _ ?m])
      (simp add: message_ack_def handle_pubrel_def Let_def w1_def w0_def queued_def start_flight_def
        complete_ack_def qos2_flight_def AList.update_conv')
qed

theorem qos2_manual_ack_witness:
  "\<exists>w1 m. dispatch_all [Publish (sample_publish EXACTLY_ONCE (Some 7)),
        Publish (sample_publish EXACTLY_ONCE (Some 7))] (sample_inbound False) = (Done, w1)
     \<and> ib_queues w1 0 = [m] \<and> ib_events w1 = []
     \<and> ib_events (snd (message_ack m w1)) = [Sent (PubRec (ack_packet 7 0))]"
proof -
  let ?p = "sample_publish EXACTLY_ONCE (Some 7)" and ?r = "ack_packet 7 0"
  from qos2_manual_ack [OF _ _ sample_routed [of EXACTLY_ONCE "Some 7" False], of 7 "[?p]" ?r]
  show ?thesis by (fastforce simp: ack_packet_def sample_entry_def Let_def split_beta)
qed

text \<open>
  C31: at least once.  A QoS 1 publish for an attached subscription with room is queued, and with
  automatic acknowledgement the PUBACK is sent and the quota returned at once; with manual
  acknowledgement \<open>ack()\<close> sends it.  For a full queue the handler waits and does both when there is
  room.  A message whose subscription has been detached, before it is handled or while it waits for
  room, is never acknowledged, and in the second case it is not left in the queue if the queue was
  emptied.  A publish no subscription matches, and no request waits for, is acknowledged and dropped,
  outside a resumed session.  (Sends do not fail here.)
\<close>

theorem qos1_acknowledged:
  fixes entry pid p w
  defines "cb \<equiv> (if se_auto_ack entry then None else Some (PubackCallback pid))"
    and "puback \<equiv> [Sent (PubAck (ack_packet pid 0))]"
    and "q \<equiv> se_queue entry"
  assumes "pub_qos p = AT_LEAST_ONCE" and "pub_packet_id p = Some pid"
    and "ib_replay w = NoSessionReplay" and "unclaimed p w" and "room_for pid w"
  shows "(subscriber_of p w = None \<longrightarrow> (\<exists>w'. handle_publish p w = (Done, w') \<and> ib_queues w' = ib_queues w
      \<and> ib_events w' = ib_events w @ puback \<and> pid \<notin> ib_unacknowledged w'))
    \<and> (subscriber_of p w = Some (flt, entry) \<longrightarrow> (\<exists>st w'. handle_publish p w = (st, w')
    \<and> (if se_ref entry \<in> ib_detached w
       then st = Done \<and> ib_queues w' = ib_queues w \<and> ib_events w' = ib_events w
       else if queue_full q w
       then ib_queues w' = ib_queues w \<and> ib_events w' = ib_events w
         \<and> (\<exists>r c k. st = Blocked r c k \<and> (\<forall>v. se_ref entry \<notin> ib_detached v \<longrightarrow>
              ib_queues (resume r c k v) = (ib_queues v)(q := ib_queues v q @ [queued p cb])
              \<and> ib_events (resume r c k v) = ib_events v @ (if se_auto_ack entry then puback else []))
            \<and> (\<forall>v. se_ref entry \<in> ib_detached v \<longrightarrow> ib_events (resume r c k v) = ib_events v
              \<and> ib_unacknowledged (resume r c k v) = ib_unacknowledged v
              \<and> ib_queues (resume r c k v) = (ib_queues v)(q := tl (ib_queues v q @ [queued p cb]))))
       else st = Done \<and> ib_queues w' = (ib_queues w)(q := ib_queues w q @ [queued p cb])
         \<and> ib_events w' = ib_events w @ (if se_auto_ack entry then puback else [])
         \<and> (pid \<in> ib_unacknowledged w' \<longleftrightarrow> \<not> se_auto_ack entry))))
    \<and> (\<forall>v. ib_events (snd (message_ack (queued p (Some (PubackCallback pid))) v)) = ib_events v @ puback)"
proof -
  let ?w0 = "w\<lparr>ib_unacknowledged := insert pid (ib_unacknowledged w)\<rparr>"
  let ?k = "if se_auto_ack entry then Some pid else None"
  let ?r = "recipient_of p (flt, entry)"
  have full: "queue_full q ?w0 = queue_full q w" by (simp add: queue_full_def)
  have ack: "ib_events (snd (message_ack (queued p (Some (PubackCallback pid))) v)) = ib_events v @ puback" for v
    by (simp add: message_ack_def queued_def complete_ack_def puback_def)
  have none: "\<exists>w'. handle_publish p w = (Done, w') \<and> ib_queues w' = ib_queues w
      \<and> ib_events w' = ib_events w @ puback \<and> pid \<notin> ib_unacknowledged w'" if "subscriber_of p w = None"
    using that assms(4-8) unclaimed_select [of p ?w0]
    by (simp add: handle_publish_def handle_qos1_publish_def hold_quota_room contains_packet_id_def
        with_recipient_def select_recipient_or_buffer_def accept_def accept_no_session_def unclaimed_def
        subscriber_of_def deliver_qos1_publish_def recipient_auto_ack_def deliver_then_def deliver_def
        after_delivery_def complete_ack_def puback_def)
  have some: "\<exists>st w'. handle_publish p w = (st, w')
    \<and> (if se_ref entry \<in> ib_detached w
       then st = Done \<and> ib_queues w' = ib_queues w \<and> ib_events w' = ib_events w
       else if queue_full q w
       then ib_queues w' = ib_queues w \<and> ib_events w' = ib_events w
         \<and> (\<exists>r c k. st = Blocked r c k \<and> (\<forall>v. se_ref entry \<notin> ib_detached v \<longrightarrow>
              ib_queues (resume r c k v) = (ib_queues v)(q := ib_queues v q @ [queued p cb])
              \<and> ib_events (resume r c k v) = ib_events v @ (if se_auto_ack entry then puback else []))
            \<and> (\<forall>v. se_ref entry \<in> ib_detached v \<longrightarrow> ib_events (resume r c k v) = ib_events v
              \<and> ib_unacknowledged (resume r c k v) = ib_unacknowledged v
              \<and> ib_queues (resume r c k v) = (ib_queues v)(q := tl (ib_queues v q @ [queued p cb]))))
       else st = Done \<and> ib_queues w' = (ib_queues w)(q := ib_queues w q @ [queued p cb])
         \<and> ib_events w' = ib_events w @ (if se_auto_ack entry then puback else [])
         \<and> (pid \<in> ib_unacknowledged w' \<longleftrightarrow> \<not> se_auto_ack entry))"
    if sub: "subscriber_of p w = Some (flt, entry)"
  proof -
    have sel: "selects p (flt, entry) w" using assms(6,7) sub by (simp add: selects_def)
    have h: "handle_publish p w = deliver_then ?r cb ?k ?w0"
      using assms(4,5,8) selects_not_held [OF sel] selects_with [OF sel]
      by (simp add: handle_publish_def handle_qos1_publish_def hold_quota_room deliver_qos1_publish_def cb_def)
    consider "se_ref entry \<in> ib_detached w" | "se_ref entry \<notin> ib_detached w" "queue_full q w"
      | "se_ref entry \<notin> ib_detached w" "\<not> queue_full q w" by blast
    then show ?thesis
    proof cases
      case 1
      then show ?thesis unfolding h by (simp add: deliver_then_def deliver_def after_delivery_def)
    next
      case 2
      then show ?thesis unfolding h
        by (simp add: full q_def [symmetric] deliver_then_def deliver_def)
          (simp add: resume_def Let_def put_message_def q_def cb_def puback_def after_delivery_def
            complete_ack_def queued_def)
    next
      case 3
      then have "handle_publish p w = (Done, after_delivery ?k True
          (?w0\<lparr>ib_queues := (ib_queues w)(q := ib_queues w q @ [queued p cb])\<rparr>))"
        unfolding h using put_deliver [of entry ?w0 p flt cb ?k] full by (simp add: q_def cb_def)
      then show ?thesis using 3 by (simp add: after_delivery_def complete_ack_def puback_def)
    qed
  qed
  show ?thesis using none some ack by simp
qed

theorem qos1_acknowledged_witness:
  "\<exists>w'. handle_publish (sample_publish AT_LEAST_ONCE (Some 3)) (sample_inbound True) = (Done, w')
     \<and> ib_events w' = [Sent (PubAck (ack_packet 3 0))]"
proof -
  have r: "routed_to (sample_publish AT_LEAST_ONCE (Some 3))
      (str_lit ''a'', (sample_entry 0 [])\<lparr>se_auto_ack := True\<rparr>) (sample_inbound True)" by (rule sample_routed)
  then have "selects (sample_publish AT_LEAST_ONCE (Some 3))
      (str_lit ''a'', (sample_entry 0 [])\<lparr>se_auto_ack := True\<rparr>) (sample_inbound True)" by (simp add: routed_to_def)
  from qos1_acknowledged [of "sample_publish AT_LEAST_ONCE (Some 3)" 3 "sample_inbound True" "str_lit ''a''"
      "(sample_entry 0 [])\<lparr>se_auto_ack := True\<rparr>"] this r show ?thesis by (auto simp: routed_to_def selects_def)
qed

text \<open>
  C32: a broker that leaves more QoS 1 and 2 messages unacknowledged than the client's Receive
  Maximum is disconnected with reason 0x93 before anything of the message is processed; a repeated
  packet id takes no second unit, so a broker within the limit may repeat what it likes.
\<close>

theorem receive_maximum_enforced:
  assumes "pub_qos p \<noteq> AT_MOST_ONCE" and "pub_packet_id p = Some pid" and "ib_receive_maximum w = Some limit"
  shows "(int (card (insert pid (ib_unacknowledged w))) > limit \<longrightarrow>
      (\<exists>m. handle_publish p w = (Raised (MQTTProtocolError m),
         w\<lparr>ib_unacknowledged := insert pid (ib_unacknowledged w),
           ib_events := ib_events w @ [Aborted (Some 0x93)]\<rparr>)))
    \<and> (pid \<in> ib_unacknowledged w \<longrightarrow> int (card (ib_unacknowledged w)) \<le> limit \<longrightarrow>
      hold_receive_quota pid w = (None, w))"
proof
  show "int (card (insert pid (ib_unacknowledged w))) > limit \<longrightarrow>
      (\<exists>m. handle_publish p w = (Raised (MQTTProtocolError m),
         w\<lparr>ib_unacknowledged := insert pid (ib_unacknowledged w),
           ib_events := ib_events w @ [Aborted (Some 0x93)]\<rparr>))"
    using assms
    by (cases "pub_qos p") (auto simp: handle_publish_def handle_qos1_publish_def handle_qos2_publish_def
        hold_receive_quota_def emit_def RECEIVE_MAXIMUM_EXCEEDED_def Let_def)
  show "pid \<in> ib_unacknowledged w \<longrightarrow> int (card (ib_unacknowledged w)) \<le> limit \<longrightarrow>
      hold_receive_quota pid w = (None, w)"
    using hold_quota_room [of pid w] assms(3) by (auto simp: room_for_def insert_absorb)
qed

theorem receive_maximum_enforced_witness:
  "\<exists>m w'. handle_publish (sample_publish EXACTLY_ONCE (Some 2)) ((sample_inbound True)\<lparr>ib_unacknowledged := {1}\<rparr>)
     = (Raised (MQTTProtocolError m), w') \<and> ib_events w' = [Aborted (Some 0x93)]"
  using receive_maximum_enforced [of "sample_publish EXACTLY_ONCE (Some 2)" 2
      "(sample_inbound True)\<lparr>ib_unacknowledged := {1}\<rparr>" 1] by auto

text \<open>The receive maximum is fixed for the life of the flow.\<close>

lemma tame_maximum: "tame w w' \<Longrightarrow> ib_receive_maximum w' = ib_receive_maximum w"
  by (simp add: tame_def)

lemma hold_quota_maximum: "ib_receive_maximum (snd (hold_receive_quota pid w)) = ib_receive_maximum w"
  by (simp add: hold_receive_quota_def Let_def emit_def)

lemma with_recipient_maximum:
  assumes "\<And>r w. tame w (snd (k r w))"
  shows "ib_receive_maximum (snd (with_recipient p k w)) = ib_receive_maximum w"
proof -
  obtain r w1 where sel: "select_recipient p w = (r, w1)" by (metis prod.exhaust)
  obtain x w2 where acc: "accept p r w1 = (x, w2)" by (metis prod.exhaust)
  have w2: "ib_receive_maximum w2 = ib_receive_maximum w"
    using tame_maximum [OF tame_select [of w p]] accept_limits [of p r w1] sel acc by simp
  have "snd (with_recipient p k w) = (case x of Inr (Some r') \<Rightarrow> snd (k r' w2) | _ \<Rightarrow> w2)"
    by (simp add: with_recipient_def select_recipient_or_buffer_def sel acc split: sum.split option.split)
  then show ?thesis using w2 tame_maximum [OF assms] by (auto split: sum.split option.split)
qed

lemma handle_publish_maximum: "ib_receive_maximum (snd (handle_publish p w)) = ib_receive_maximum w"
proof -
  have h: "ib_receive_maximum w1 = ib_receive_maximum w" if "hold_receive_quota pid w = (e, w1)" for pid e w1
    using hold_quota_maximum [of pid w] that by simp
  show ?thesis
    by (auto simp: handle_publish_def handle_qos1_publish_def handle_qos2_publish_def with_recipient_maximum
        tame_deliver_then tame_deliver_qos1 tame_accept_qos2 h tame_maximum [OF tame_frame(1)]
        split: QoS.split option.split prod.split)
qed

lemma drain_maximum:
  "ib_receive_maximum (snd (drain fails w)) = ib_receive_maximum w"
  "ib_receive_maximum (expire_after_timeout fails n w) = ib_receive_maximum w"
proof -
  have "ib_receive_maximum w' = ib_receive_maximum w" if "deliver_pending fails ps u b w = (st, b', w')"
    for ps u b st b' w'
    using tame_maximum [OF tame_deliver_pending [of w fails ps u b]] that by simp
  then show "ib_receive_maximum (snd (drain fails w)) = ib_receive_maximum w"
    "ib_receive_maximum (expire_after_timeout fails n w) = ib_receive_maximum w"
    by (auto simp: drain_def no_session_drain_def idle_drain_def buffered_drain_def cancel_expiration_def
        expire_after_timeout_def expire_replay_def buffered_expire_def drop_pending_def expiration_ended_def emit_def
        split: replay.split prod.split status.split)
qed

lemma istep_maximum: "istep f f' \<Longrightarrow> ib_receive_maximum (fst f') = ib_receive_maximum (fst f)"
proof (induction rule: istep.induct)
  case (publish p w st w' ms)
  then show ?case using handle_publish_maximum [of p w] by simp
next
  case (publish_cut p w w' ms)
  then show ?case using handle_publish_maximum [of p w] by simp
next
  case (pubrel p w st w' ms)
  then show ?case using tame_maximum [OF tame_handle_pubrel [of w p]] by simp
next
  case (pubrel_cut p w st w' ms)
  then show ?case using tame_maximum [OF tame_pubrel_cut [of w p]] by simp
next
  case (resume r w cb puback ms)
  then show ?case using tame_maximum [OF tame_resume] by simp
next
  case (take_message q w m w' st ms)
  then show ?case using tame_maximum [OF tame_queue_get] by simp
next
  case (ack i ms w m' w' st)
  then show ?case using tame_maximum [OF tame_message_ack [of w "ms ! i"]] by simp
next
  case (drain fails w st' w' st ms)
  then show ?case using drain_maximum(1) [of fails w] by simp
next
  case (expire n w st ms fails)
  then show ?case using drain_maximum(2) [of fails n w] by simp
qed simp_all

interpretation flow_run: step_invariant istep flow_inv
  by unfold_locales (rule istep_inv)

text \<open>
  C28: the limits hold in every interleaving of packets, application, subscriptions, drains and
  expiry, whichever sends fail: no bounded queue exceeds its size; the replay buffer in use is never
  empty, never holds more than its limit nor one packet id twice, and its counters (messages, packet
  ids, messages per topic) are exact; a task to expire it waits, and the messages are held no longer
  than until its time is up, unless an acknowledgement sent at the expiry failed and the connection
  was aborted.  With a Receive Maximum, the unacknowledged messages stay within it until an error is
  raised.
\<close>

theorem flow_limits:
  assumes "istep\<^sup>*\<^sup>* (w0, Done, []) (w, st, ms)"
    and "ib_replay w0 = NoSessionReplay" and "ib_timers w0 = {}" and "ib_queues w0 = (\<lambda>q. [])" and "ib_unacknowledged w0 = {}"
    and "ib_buffer_size w0 \<ge> 0" and "\<forall>limit. ib_receive_maximum w0 = Some limit \<longrightarrow> limit \<ge> 0"
  shows "(\<forall>q. 0 < ib_maxsize w q \<longrightarrow> length (ib_queues w q) \<le> ib_maxsize w q)
    \<and> (\<forall>b. ib_replay w = PersistentReplayBuffered b \<longrightarrow>
         rb_publishes b \<noteq> [] \<and> rb_message_count b = int (length (rb_publishes b))
         \<and> (ib_buffer_size w \<noteq> 0 \<longrightarrow> int (length (rb_publishes b)) \<le> ib_buffer_size w)
         \<and> distinct (held_pids (rb_publishes b)) \<and> rb_packet_ids b = set (held_pids (rb_publishes b))
         \<and> (\<forall>t. map_of (rb_topics b) t = (if t \<in> pub_topic ` set (rb_publishes b)
              then Some (int (length (filter (\<lambda>p. pub_topic p = t) (rb_publishes b)))) else None))
         \<and> (ib_timers w = {rb_id b} \<or> ib_timers w = {} \<and> Aborted None \<in> set (ib_events w)))
    \<and> ((\<forall>b. ib_replay w \<noteq> PersistentReplayBuffered b) \<longrightarrow> ib_timers w = {})
    \<and> (\<forall>n \<in> ib_timers w. \<forall>fails. ib_replay (expire_after_timeout fails n w) \<in> {NoSessionReplay, PersistentReplayIdle}
         \<or> Aborted None \<in> set (ib_events (expire_after_timeout fails n w)))
    \<and> (\<forall>limit. ib_receive_maximum w0 = Some limit \<longrightarrow> (\<forall>e. st \<noteq> Raised e) \<longrightarrow>
         int (card (ib_unacknowledged w)) \<le> limit)"
proof -
  have limit: "ib_receive_maximum (fst f) = ib_receive_maximum w0" if "istep\<^sup>*\<^sup>* (w0, Done, []) f" for f
    using that by (induction rule: rtranclp_induct) (auto dest: istep_maximum)
  have "flow_inv (w0, Done, [])"
    using assms(2-7) by (simp add: flow_inv_def core_ok_def expiry_ok_def quota_ok_def within_bounds_def)
  with flow_run.steps_kept [OF assms(1)] have inv: "flow_inv (w, st, ms)" .
  then have core: "core_ok w" by (simp add: flow_inv_def)
  have "(\<forall>b. ib_replay w \<noteq> PersistentReplayBuffered b) \<longrightarrow> ib_timers w = {}"
    using core by (cases "ib_replay w") (simp_all add: core_ok_def)
  moreover have "\<forall>b. ib_replay w = PersistentReplayBuffered b \<longrightarrow>
      holds_ok (ib_buffer_size w) b \<and> rb_publishes b \<noteq> []
      \<and> (ib_timers w = {rb_id b} \<or> ib_timers w = {} \<and> Aborted None \<in> set (ib_events w))"
    using core by (auto simp: core_ok_def expiry_ok_def split: if_splits)
  moreover have "\<forall>n \<in> ib_timers w. \<forall>fails.
      ib_replay (expire_after_timeout fails n w) \<in> {NoSessionReplay, PersistentReplayIdle}
      \<or> Aborted None \<in> set (ib_events (expire_after_timeout fails n w))"
    using expire_ok [OF core] by blast
  moreover have "\<forall>limit. ib_receive_maximum w0 = Some limit \<longrightarrow> (\<forall>e. st \<noteq> Raised e) \<longrightarrow>
      int (card (ib_unacknowledged w)) \<le> limit"
    using inv limit [OF assms(1)] by (auto simp: flow_inv_def quota_ok_def)
  moreover have "\<forall>q. 0 < ib_maxsize w q \<longrightarrow> length (ib_queues w q) \<le> ib_maxsize w q"
    using core by (simp add: core_ok_def within_bounds_def)
  ultimately show ?thesis by (simp add: holds_ok_def describes_def)
qed

text \<open>A message of a resumed session for which there is no subscription yet.\<close>

lemma sample_held_step:
  defines "p \<equiv> (sample_publish AT_MOST_ONCE None)\<lparr>pub_topic := str_lit ''b''\<rparr>"
  shows "istep (begin_session True (sample_inbound True), Done, [])
    (start_expiration (hold p (new_buffer 0)) ((begin_session True (sample_inbound True))\<lparr>ib_next_buffer := 1\<rparr>), Done, [])"
proof (rule istep.publish)
  let ?w = "begin_session True (sample_inbound True)"
  have w: "?w = (sample_inbound True)\<lparr>ib_replay := PersistentReplayIdle\<rparr>"
    by (simp add: begin_session_def replay_clear_def no_session_clear_def)
  have "sel_recipient (index_select (str_lit ''b'') (index_add (str_lit ''a'')
      ((sample_entry 0 [])\<lparr>se_auto_ack := True\<rparr>) SubscriptionIndex_init)) = None"
    by code_simp
  then have "subscriber_of p ?w = None" and "unclaimed p ?w"
    unfolding w by (simp_all add: subscriber_of_def unclaimed_def p_def sample_inbound_def sample_publish_def
        select_subscription_def)
  moreover have "ib_next_buffer ?w = 0" "pub_packet_id p = None" "rb_message_count (new_buffer 0) = 0"
    "pub_qos p = AT_MOST_ONCE" "ib_buffer_size ?w = 2" "ib_replay ?w = PersistentReplayIdle"
    unfolding w by (simp_all add: sample_inbound_def p_def new_buffer_def)
  ultimately show "handle_publish p ?w =
      (Done, start_expiration (hold p (new_buffer 0)) (?w\<lparr>ib_next_buffer := 1\<rparr>))"
    by (simp add: handle_publish_def with_recipient_def select_recipient_or_buffer_def unclaimed_select accept_def
        accept_idle_def accept_buffered_def)
qed

theorem flow_limits_witness:
  "\<exists>w b. istep\<^sup>*\<^sup>* (sample_inbound True, Done, []) (w, Done, []) \<and> ib_replay w = PersistentReplayBuffered b
     \<and> length (rb_publishes b) = 1 \<and> ib_timers w = {rb_id b} \<and> card (ib_unacknowledged w) \<le> 1
     \<and> (ib_replay (expire_after_timeout (\<lambda>p. False) (rb_id b) w) \<in> {NoSessionReplay, PersistentReplayIdle}
        \<or> Aborted None \<in> set (ib_events (expire_after_timeout (\<lambda>p. False) (rb_id b) w)))"
proof -
  let ?p = "(sample_publish AT_MOST_ONCE None)\<lparr>pub_topic := str_lit ''b''\<rparr>"
  define w where "w = start_expiration (hold ?p (new_buffer 0))
    ((begin_session True (sample_inbound True))\<lparr>ib_next_buffer := 1\<rparr>)"
  define b where "b = (hold ?p (new_buffer 0))\<lparr>rb_expiration := True\<rparr>"
  have steps: "istep\<^sup>*\<^sup>* (sample_inbound True, Done, []) (w, Done, [])"
    unfolding w_def using sample_held_step istep.session
    by (meson converse_rtranclp_into_rtranclp r_into_rtranclp)
  have held: "ib_replay w = PersistentReplayBuffered b" and one: "length (rb_publishes b) = 1"
    by (simp_all add: w_def b_def start_expiration_def hold_def new_buffer_def)
  have timer: "ib_timers w = {rb_id b}"
    by (simp add: w_def b_def start_expiration_def hold_def new_buffer_def begin_session_def replay_clear_def
        no_session_clear_def)
  from flow_limits [OF steps] held one timer steps show ?thesis by (intro exI [of _ w] exI [of _ b]) simp
qed

section \<open>Passes over the replay buffer\<close>

text \<open>
  The messages of the held publishes \<open>ps\<close> that are meant for queue \<open>q\<close>, and how many of them the queue
  has room for.
\<close>

definition replayed :: "Publish \<Rightarrow> SubscriptionEntry \<Rightarrow> QueuedMessage" where
  "replayed p entry = queued p (if se_auto_ack entry \<or> pub_qos p = AT_MOST_ONCE then None
     else map_option PubackCallback (pub_packet_id p))"

definition meant_for :: "nat \<Rightarrow> (Publish \<Rightarrow> item option) \<Rightarrow> Publish list \<Rightarrow> QueuedMessage list" where
  "meant_for q sub ps = List.map_filter (\<lambda>p. case sub p of None \<Rightarrow> None
     | Some it \<Rightarrow> if se_queue (snd it) = q then Some (replayed p (snd it)) else None) ps"

definition queue_takes :: "nat \<Rightarrow> inbound \<Rightarrow> 'a list \<Rightarrow> 'a list" where
  "queue_takes q w xs = (if ib_maxsize w q = 0 then xs else take (ib_maxsize w q - length (ib_queues w q)) xs)"

definition queue_leaves :: "nat \<Rightarrow> inbound \<Rightarrow> 'a list \<Rightarrow> 'a list" where
  "queue_leaves q w xs = (if ib_maxsize w q = 0 then [] else drop (ib_maxsize w q - length (ib_queues w q)) xs)"

lemma takes_full: "queue_full q w \<Longrightarrow> queue_takes q w xs = [] \<and> queue_leaves q w xs = xs"
  by (simp add: queue_takes_def queue_leaves_def queue_full_def)

lemma takes_same:
  "ib_maxsize w' = ib_maxsize w \<Longrightarrow> ib_queues w' q = ib_queues w q \<Longrightarrow> queue_takes q w' xs = queue_takes q w xs \<and> queue_leaves q w' xs = queue_leaves q w xs"
  by (simp add: queue_takes_def queue_leaves_def)

lemma takes_put:
  assumes "\<not> queue_full q w" and "ib_maxsize w' = ib_maxsize w" and "ib_queues w' q = ib_queues w q @ [m]"
  shows "queue_takes q w (m # xs) = m # queue_takes q w' xs" and "queue_leaves q w (m # xs) = queue_leaves q w' xs"
proof -
  have "ib_maxsize w q - length (ib_queues w q) = Suc (ib_maxsize w q - length (ib_queues w' q))"
    if "ib_maxsize w q \<noteq> 0" using assms(1,3) that by (auto simp: queue_full_def)
  then show "queue_takes q w (m # xs) = m # queue_takes q w' xs" "queue_leaves q w (m # xs) = queue_leaves q w' xs"
    using assms(2) by (simp_all add: queue_takes_def queue_leaves_def)
qed

definition plain_publish :: "Publish \<Rightarrow> bool" where
  "plain_publish p \<longleftrightarrow> pub_qos p = AT_MOST_ONCE \<or> pub_qos p = AT_LEAST_ONCE \<and> pub_packet_id p \<noteq> None"

lemma meant_for_simps [simp]:
  "meant_for q sub [] = []"
  "meant_for q sub (p # ps) = (case sub p of None \<Rightarrow> meant_for q sub ps
     | Some it \<Rightarrow> if se_queue (snd it) = q then replayed p (snd it) # meant_for q sub ps else meant_for q sub ps)"
  "meant_for q sub (ps @ qs) = meant_for q sub ps @ meant_for q sub qs"
  by (simp_all add: meant_for_def List.map_filter_def split: option.split)

definition same_routing :: "inbound \<Rightarrow> inbound \<Rightarrow> bool" where
  "same_routing w w' \<longleftrightarrow> ib_router w' = ib_router w \<and> ib_subscriptions w' = ib_subscriptions w
     \<and> ib_detached w' = ib_detached w \<and> ib_maxsize w' = ib_maxsize w"

lemma deliver_replay_plain:
  assumes "plain_publish p" and "se_ref entry \<notin> ib_detached w" and "\<not> queue_full (se_queue entry) w"
  shows "\<exists>w'. deliver_replay p (recipient_of p (flt, entry)) w = (Done, w') \<and> same_routing w w'
    \<and> ib_queues w' = (ib_queues w)(se_queue entry := ib_queues w (se_queue entry) @ [replayed p entry])"
  using assms(1) put_deliver [OF assms(2,3)]
  by (auto simp: plain_publish_def deliver_replay_def deliver_qos1_publish_def after_delivery_def
      complete_ack_def replayed_def same_routing_def emit_def)

definition pass_done :: "(Publish \<Rightarrow> item option) \<Rightarrow> Publish list \<Rightarrow> Publish list \<Rightarrow> inbound \<Rightarrow> Publish list \<Rightarrow> inbound \<Rightarrow> bool"
  where
  "pass_done sub u ps w kept w' \<longleftrightarrow> same_routing w w'
     \<and> (\<forall>q. ib_queues w' q = ib_queues w q @ queue_takes q w (meant_for q sub ps)
          \<and> meant_for q sub kept = meant_for q sub u @ queue_leaves q w (meant_for q sub ps))
     \<and> filter (\<lambda>p. sub p = None) kept = filter (\<lambda>p. sub p = None) (u @ ps)"

lemma same_routing_unclaimed:
  "same_routing w w' \<Longrightarrow> unclaimed p w' = unclaimed p w \<and> subscriber_of p w' = subscriber_of p w"
  by (simp add: same_routing_def unclaimed_def subscriber_of_def)

lemma pass_done_skip:
  assumes "pass_done sub (u @ [p]) ps w kept w'"
    and "\<And>flt entry. sub p = Some (flt, entry) \<Longrightarrow> queue_full (se_queue entry) w"
  shows "pass_done sub u (p # ps) w kept w'"
proof (cases "sub p")
  case (Some it)
  then have "queue_full (se_queue (snd it)) w" using assms(2) by (cases it) simp
  with Some assms(1) show ?thesis by (auto simp: pass_done_def takes_full)
qed (use assms(1) in \<open>simp add: pass_done_def\<close>)

lemma pass_done_put:
  assumes "pass_done sub u ps w1 kept w'" and "sub p = Some (flt, entry)"
    and "\<not> queue_full (se_queue entry) w" and "same_routing w w1"
    and "ib_queues w1 = (ib_queues w)(se_queue entry := ib_queues w (se_queue entry) @ [replayed p entry])"
  shows "pass_done sub u (p # ps) w kept w'"
proof -
  have m: "ib_maxsize w1 = ib_maxsize w" using assms(4) by (simp add: same_routing_def)
  have "ib_queues w' q = ib_queues w q @ queue_takes q w (meant_for q sub (p # ps))
      \<and> meant_for q sub kept = meant_for q sub u @ queue_leaves q w (meant_for q sub (p # ps))" for q
  proof (cases "q = se_queue entry")
    case True
    then show ?thesis
      using assms(1,2,5) takes_put [OF assms(3) m, of "replayed p entry" "meant_for q sub ps"]
      by (simp add: pass_done_def)
  next
    case False
    then have "ib_queues w1 q = ib_queues w q" using assms(5) by simp
    from takes_same [OF m this] this False show ?thesis using assms(1,2) by (auto simp: pass_done_def)
  qed
  then show ?thesis using assms(1,2,4) by (simp add: pass_done_def same_routing_def)
qed

text \<open>
  A pass cut short: \<open>p\<close> has been put into its queue, its acknowledgement raised, and it stays, before
  those that were still to be looked at.
\<close>

definition pass_cut :: "(Publish \<Rightarrow> bool) \<Rightarrow> (Publish \<Rightarrow> item option) \<Rightarrow> Publish list \<Rightarrow> Publish list \<Rightarrow> inbound
    \<Rightarrow> Publish list \<Rightarrow> inbound \<Rightarrow> bool" where
  "pass_cut fails sub u ps w kept w' \<longleftrightarrow>
     (\<exists>ps1 p ps2 k w1 flt entry. ps = ps1 @ p # ps2 \<and> kept = k @ p # ps2 \<and> fails p \<and> pub_qos p = AT_LEAST_ONCE
        \<and> pass_done sub u ps1 w k w1 \<and> sub p = Some (flt, entry)
        \<and> ib_queues w' = (ib_queues w1)(se_queue entry := ib_queues w1 (se_queue entry) @ [replayed p entry]))"

lemma pass_cut_skip:
  assumes "pass_cut fails sub (u @ [p]) ps w kept w'"
    and "\<And>flt entry. sub p = Some (flt, entry) \<Longrightarrow> queue_full (se_queue entry) w"
  shows "pass_cut fails sub u (p # ps) w kept w'"
proof -
  from assms(1) obtain ps1 x ps2 k w1 flt entry where c: "ps = ps1 @ x # ps2" "kept = k @ x # ps2" "fails x"
    "pub_qos x = AT_LEAST_ONCE" "pass_done sub (u @ [p]) ps1 w k w1" "sub x = Some (flt, entry)"
    "ib_queues w' = (ib_queues w1)(se_queue entry := ib_queues w1 (se_queue entry) @ [replayed x entry])"
    unfolding pass_cut_def by blast
  have "pass_done sub u (p # ps1) w k w1" using c(5) assms(2) by (rule pass_done_skip)
  moreover have "p # ps = (p # ps1) @ x # ps2" using c(1) by simp
  ultimately show ?thesis using c(2-4,6,7) unfolding pass_cut_def by blast
qed

lemma pass_cut_put:
  assumes "pass_cut fails sub u ps w1 kept w'" and "sub p = Some (flt, entry)"
    and "\<not> queue_full (se_queue entry) w" and "same_routing w w1"
    and "ib_queues w1 = (ib_queues w)(se_queue entry := ib_queues w (se_queue entry) @ [replayed p entry])"
  shows "pass_cut fails sub u (p # ps) w kept w'"
proof -
  from assms(1) obtain ps1 x ps2 k w2 flt' entry' where c: "ps = ps1 @ x # ps2" "kept = k @ x # ps2" "fails x"
    "pub_qos x = AT_LEAST_ONCE" "pass_done sub u ps1 w1 k w2" "sub x = Some (flt', entry')"
    "ib_queues w' = (ib_queues w2)(se_queue entry' := ib_queues w2 (se_queue entry') @ [replayed x entry'])"
    unfolding pass_cut_def by blast
  have "pass_done sub u (p # ps1) w k w2" using c(5) assms(2-5) by (rule pass_done_put)
  moreover have "p # ps = (p # ps1) @ x # ps2" using c(1) by simp
  ultimately show ?thesis using c(2-4,6,7) unfolding pass_cut_def by blast
qed

lemma await_replay_plain:
  assumes "plain_publish p" and "se_ref entry \<notin> ib_detached w" and "\<not> queue_full (se_queue entry) w"
  obtains st w' where "await_replay fails p (recipient_of p (flt, entry)) w = (st, w')" and "same_routing w w'"
    and "ib_queues w' = (ib_queues w)(se_queue entry := ib_queues w (se_queue entry) @ [replayed p entry])"
    and "st = Done \<or> st = Raised SendError \<and> fails p \<and> pub_qos p = AT_LEAST_ONCE"
proof -
  obtain w' where w': "deliver_replay p (recipient_of p (flt, entry)) w = (Done, w')" "same_routing w w'"
    "ib_queues w' = (ib_queues w)(se_queue entry := ib_queues w (se_queue entry) @ [replayed p entry])"
    using deliver_replay_plain [OF assms] by blast
  have "ib_events w' = ib_events w" if "pub_qos p = AT_MOST_ONCE"
    using that w'(1) put_deliver [OF assms(2,3)] by (auto simp: deliver_replay_def after_delivery_def)
  with w' assms(1) that show ?thesis by (auto simp: await_replay_def plain_publish_def split: if_splits)
qed

lemma pass_in_order:
  assumes "\<And>p. p \<in> set ps \<Longrightarrow> plain_publish p \<and> unclaimed p w" and "ib_detached w = {}"
    and "\<And>p. sub p = subscriber_of p w"
  shows "\<exists>st b' w'. deliver_pending fails ps u b w = (st, b', w')
    \<and> (st = Done \<and> pass_done sub u ps w (rb_publishes b') w'
       \<or> st = Raised SendError \<and> pass_cut fails sub u ps w (rb_publishes b') w')"
  using assms
proof (induction ps arbitrary: u b w)
  case Nil
  then show ?case by (simp add: pass_done_def same_routing_def queue_takes_def queue_leaves_def)
next
  case (Cons p ps)
  have sel: "select_recipient p w = (\<lparr>ir_message = make_message p, ir_request = None, ir_subscription = sub p\<rparr>, w)"
    using unclaimed_select [of p w] Cons.prems by simp
  show ?case
  proof (cases "\<exists>flt entry. sub p = Some (flt, entry) \<and> \<not> queue_full (se_queue entry) w")
    case False
    then have skip: "\<And>flt entry. sub p = Some (flt, entry) \<Longrightarrow> queue_full (se_queue entry) w" by blast
    have "\<exists>st b' w'. deliver_pending fails ps (u @ [p]) b w = (st, b', w')
        \<and> (st = Done \<and> pass_done sub (u @ [p]) ps w (rb_publishes b') w'
           \<or> st = Raised SendError \<and> pass_cut fails sub (u @ [p]) ps w (rb_publishes b') w')"
      by (rule Cons.IH) (use Cons.prems in auto)
    moreover have "deliver_pending fails (p # ps) u b w = deliver_pending fails ps (u @ [p]) b w"
      using skip by (auto simp: sel undeliverable_def split: option.split)
    moreover have "pass_done sub (u @ [p]) ps w kept v \<Longrightarrow> pass_done sub u (p # ps) w kept v"
      "pass_cut fails sub (u @ [p]) ps w kept v \<Longrightarrow> pass_cut fails sub u (p # ps) w kept v" for kept v
      using skip by (blast intro: pass_done_skip pass_cut_skip)+
    ultimately show ?thesis by auto
  next
    case True
    then obtain flt entry where it: "sub p = Some (flt, entry)" "\<not> queue_full (se_queue entry) w" by blast
    have "plain_publish p" "se_ref entry \<notin> ib_detached w" using Cons.prems by simp_all
    from await_replay_plain [OF this it(2), of fails flt] obtain st w1 where
      w1: "await_replay fails p (recipient_of p (flt, entry)) w = (st, w1)" "same_routing w w1"
      "ib_queues w1 = (ib_queues w)(se_queue entry := ib_queues w (se_queue entry) @ [replayed p entry])"
      and st: "st = Done \<or> st = Raised SendError \<and> fails p \<and> pub_qos p = AT_LEAST_ONCE" .
    have step: "deliver_pending fails (p # ps) u b w = (if st = Done
        then deliver_pending fails ps u (discard p b) w1 else (st, b\<lparr>rb_publishes := u @ [p] @ ps\<rparr>, w1))"
      using it w1(1) by (cases st) (simp_all add: sel undeliverable_def recipient_of_def)
    show ?thesis
    proof (cases "st = Done")
      case True
      have "\<exists>st b' w'. deliver_pending fails ps u (discard p b) w1 = (st, b', w')
          \<and> (st = Done \<and> pass_done sub u ps w1 (rb_publishes b') w'
             \<or> st = Raised SendError \<and> pass_cut fails sub u ps w1 (rb_publishes b') w')"
        by (rule Cons.IH)
          (use Cons.prems same_routing_unclaimed [OF w1(2)] w1(2) in \<open>auto simp: same_routing_def\<close>)
      then obtain st' b' w' where d: "deliver_pending fails (p # ps) u b w = (st', b', w')"
        "st' = Done \<and> pass_done sub u ps w1 (rb_publishes b') w'
         \<or> st' = Raised SendError \<and> pass_cut fails sub u ps w1 (rb_publishes b') w'"
        using step True by auto
      have "pass_done sub u ps w1 kept v \<Longrightarrow> pass_done sub u (p # ps) w kept v"
        "pass_cut fails sub u ps w1 kept v \<Longrightarrow> pass_cut fails sub u (p # ps) w kept v" for kept v
        using it w1(2,3) by (blast intro: pass_done_put pass_cut_put)+
      with d show ?thesis by blast
    next
      case False
      have "pass_done sub u [] w u w"
        by (simp add: pass_done_def same_routing_def queue_takes_def queue_leaves_def)
      then have "pass_cut fails sub u (p # ps) w (u @ p # ps) w1"
        using st False it(1) w1(3) unfolding pass_cut_def by blast
      then show ?thesis using step st False by auto
    qed
  qed
qed

text \<open>
  C29: draining a resumed session whose held messages are of QoS 0 or 1, when none of them answers a
  pending request, no subscription is detached, and no send makes the drain wait.  Every held message
  that has a subscription now is put into that subscriber's queue, in the order the broker sent them,
  as far as the queue has room; the messages that do not fit stay held in their order and none
  overtakes another; those without a subscription stay, in order.  The drain never waits for room in
  a queue.  It raises only when sending the PUBACK of a message raises: then the messages before it
  are treated as said, it is in its queue and is still held, before all those not yet looked at,
  which stay as they were.
\<close>

theorem drain_in_order:
  assumes "ib_replay w = PersistentReplayBuffered b" and "describes b (rb_publishes b)"
    and "\<forall>p \<in> set (rb_publishes b). plain_publish p \<and> unclaimed p w" and "ib_detached w = {}"
  shows "\<exists>st w' kept ps1 ps2. drain fails w = (st, w')
    \<and> (if kept = [] then ib_replay w' = PersistentReplayIdle
       else \<exists>b'. ib_replay w' = PersistentReplayBuffered b' \<and> rb_publishes b' = kept)
    \<and> rb_publishes b = ps1 @ ps2 \<and> subseq kept (rb_publishes b)
    \<and> (\<exists>k. kept = k @ ps2
       \<and> (\<forall>q. meant_for q (\<lambda>p. subscriber_of p w) k = queue_leaves q w (meant_for q (\<lambda>p. subscriber_of p w) ps1))
       \<and> filter (\<lambda>p. subscriber_of p w = None) k = filter (\<lambda>p. subscriber_of p w = None) ps1)
    \<and> (st = Done \<and> ps2 = []
         \<and> (\<forall>q. ib_queues w' q = ib_queues w q @ queue_takes q w (meant_for q (\<lambda>p. subscriber_of p w) ps1))
       \<or> st = Raised SendError \<and> (\<exists>p ps3 flt entry. ps2 = p # ps3 \<and> fails p \<and> pub_qos p = AT_LEAST_ONCE
         \<and> subscriber_of p w = Some (flt, entry)
         \<and> (\<forall>q. ib_queues w' q = ib_queues w q @ queue_takes q w (meant_for q (\<lambda>p. subscriber_of p w) ps1)
              @ (if q = se_queue entry then [replayed p entry] else []))))"
proof -
  let ?sub = "\<lambda>p. subscriber_of p w"
  obtain st b' w' where pass: "deliver_pending fails (rb_publishes b) [] b w = (st, b', w')"
    and res: "st = Done \<and> pass_done ?sub [] (rb_publishes b) w (rb_publishes b') w'
       \<or> st = Raised SendError \<and> pass_cut fails ?sub [] (rb_publishes b) w (rb_publishes b') w'"
    using pass_in_order [of "rb_publishes b" w ?sub fails "[]" b] assms(3,4) by blast
  have kept: "describes b' (rb_publishes b')" "subseq (rb_publishes b') (rb_publishes b)"
    using deliver_pending_describes [OF pass] assms(2) by auto
  then have count: "rb_message_count b' \<noteq> 0 \<longleftrightarrow> rb_publishes b' \<noteq> []" by (simp add: describes_def)
  from res show ?thesis
  proof
    assume over: "st = Done \<and> pass_done ?sub [] (rb_publishes b) w (rb_publishes b') w'"
    define v where "v = (if rb_publishes b' \<noteq> [] then w' else snd (cancel_expiration b' w'))"
    have "drain fails w = (Done, v\<lparr>ib_replay := (if rb_publishes b' \<noteq> [] then PersistentReplayBuffered b'
        else PersistentReplayIdle)\<rparr>)"
      using pass count over assms(1) by (simp add: drain_def buffered_drain_def v_def split: prod.split)
    moreover have "ib_queues v = ib_queues w'" by (simp add: v_def cancel_expiration_def)
    ultimately show ?thesis
      using kept(2) over
      by (intro exI [of _ Done] exI [of _ "v\<lparr>ib_replay := (if rb_publishes b' \<noteq> [] then PersistentReplayBuffered b'
          else PersistentReplayIdle)\<rparr>"] exI [of _ "rb_publishes b'"] exI [of _ "rb_publishes b"] exI [of _ "[]"])
        (simp add: pass_done_def)
  next
    assume cut: "st = Raised SendError \<and> pass_cut fails ?sub [] (rb_publishes b) w (rb_publishes b') w'"
    then obtain ps1 p ps2 k w1 flt entry where c: "rb_publishes b = ps1 @ p # ps2" "rb_publishes b' = k @ p # ps2"
      "fails p" "pub_qos p = AT_LEAST_ONCE" "pass_done ?sub [] ps1 w k w1" "subscriber_of p w = Some (flt, entry)"
      "ib_queues w' = (ib_queues w1)(se_queue entry := ib_queues w1 (se_queue entry) @ [replayed p entry])"
      unfolding pass_cut_def by blast
    have "drain fails w = (Raised SendError, w'\<lparr>ib_replay := PersistentReplayBuffered b'\<rparr>)"
      using pass cut assms(1) by (simp add: drain_def buffered_drain_def)
    then show ?thesis
      using kept(2) c
      by (intro exI [of _ "Raised SendError"] exI [of _ "w'\<lparr>ib_replay := PersistentReplayBuffered b'\<rparr>"]
          exI [of _ "rb_publishes b'"] exI [of _ ps1] exI [of _ "p # ps2"]) (simp add: pass_done_def)
  qed
qed

theorem drain_in_order_witness:
  "\<exists>w'. drain (\<lambda>p. False) ((sample_inbound True)\<lparr>ib_replay := PersistentReplayBuffered
       (hold (sample_publish AT_MOST_ONCE None) (hold (sample_publish AT_LEAST_ONCE (Some 5)) (new_buffer 0)))\<rparr>)
       = (Done, w')
     \<and> ib_queues w' 0 = [queued (sample_publish AT_LEAST_ONCE (Some 5)) None]"
proof -
  let ?b = "hold (sample_publish AT_MOST_ONCE None) (hold (sample_publish AT_LEAST_ONCE (Some 5)) (new_buffer 0))"
  let ?w = "(sample_inbound True)\<lparr>ib_replay := PersistentReplayBuffered ?b\<rparr>"
  have ps: "rb_publishes ?b = [sample_publish AT_LEAST_ONCE (Some 5), sample_publish AT_MOST_ONCE None]"
    by (simp add: hold_def new_buffer_def)
  have d: "describes ?b (rb_publishes ?b)"
    by (simp add: describes_def hold_def new_buffer_def topic_count_def sample_publish_def)
  have u: "\<forall>p \<in> set (rb_publishes ?b). plain_publish p \<and> unclaimed p ?w"
    unfolding ps by (simp add: plain_publish_def unclaimed_def sample_inbound_def)
  have sub: "subscriber_of (sample_publish q pid) ?w =
      Some (str_lit ''a'', (sample_entry 0 [])\<lparr>se_auto_ack := True\<rparr>)" for q pid
    using sample_routed [of q pid True] by (simp add: routed_to_def selects_def subscriber_of_def)
  have "meant_for 0 (\<lambda>p. subscriber_of p ?w) (rb_publishes ?b) =
      [queued (sample_publish AT_LEAST_ONCE (Some 5)) None, queued (sample_publish AT_MOST_ONCE None) None]"
    unfolding ps by (simp add: sub replayed_def sample_entry_def)
  moreover have "ib_detached ?w = {}" by (simp add: sample_inbound_def)
  ultimately show ?thesis
    using drain_in_order [OF _ d u, of "\<lambda>p. False"] by (fastforce simp: queue_takes_def)
qed

end
