(* ===== verification/Subscription_Guards.thy ===== *)
theory Subscription_Guards
  imports Mqtt_Prelude "HOL-Library.List_Lexorder"
begin

text \<open>
  The subscription guards of \<open>protocol.py\<close>: changes of a topic filter's ownership are serialized by
  one \<open>asyncio.Lock\<close> per filter in use.  A guard is an object, referred to by number, in the heap of
  \<open>SubscriptionGuards\<close>.  \<open>hold\<close> is cut at its awaits; \<open>gstep\<close> interleaves the tasks that run it, and a
  task may leave its body, or be cancelled while it waits, at any time.

  A lock is what \<open>asyncio.Lock\<close> documents: acquiring a free lock that nobody waits for takes it at
  once, otherwise the task queues up; a free lock goes to the first of the queue.
\<close>

section \<open>Definitions\<close>

record SubscriptionGuard =
  sg_holder :: "nat option"
  sg_waiters :: "nat list"
  sg_users :: int

record SubscriptionGuards =
  gs_guards :: "(pystr \<times> nat) list"
  gs_heap :: "nat \<Rightarrow> SubscriptionGuard"
  gs_fresh :: nat

definition SubscriptionGuard_init :: SubscriptionGuard where
  "SubscriptionGuard_init = \<lparr>sg_holder = None, sg_waiters = [], sg_users = 0\<rparr>"

definition SubscriptionGuards_init :: SubscriptionGuards where
  "SubscriptionGuards_init = \<lparr>gs_guards = [], gs_heap = \<lambda>_. SubscriptionGuard_init, gs_fresh = 0\<rparr>"

text \<open>\<open>self._guards.setdefault(filter_, _SubscriptionGuard())\<close>.\<close>

definition guard_setdefault :: "pystr \<Rightarrow> SubscriptionGuards \<Rightarrow> nat \<times> SubscriptionGuards" where
  "guard_setdefault flt s =
     (case map_of (gs_guards s) flt of
        Some g \<Rightarrow> (g, s)
      | None \<Rightarrow>
          let g = gs_fresh s in
          (g, s\<lparr>gs_guards := AList.update flt g (gs_guards s),
                gs_heap := (gs_heap s)(g := SubscriptionGuard_init), gs_fresh := Suc g\<rparr>))"

definition guard_update :: "nat \<Rightarrow> (SubscriptionGuard \<Rightarrow> SubscriptionGuard) \<Rightarrow> SubscriptionGuards \<Rightarrow> SubscriptionGuards" where
  "guard_update g f s = s\<lparr>gs_heap := (gs_heap s)(g := f (gs_heap s g))\<rparr>"

definition add_users :: "int \<Rightarrow> SubscriptionGuard \<Rightarrow> SubscriptionGuard" where
  "add_users n guard = guard\<lparr>sg_users := sg_users guard + n\<rparr>"

text \<open>The loop that registers the filters, in sorted order.\<close>

fun enter_guards :: "pystr list \<Rightarrow> SubscriptionGuards \<Rightarrow> (pystr \<times> nat) list \<times> SubscriptionGuards" where
  "enter_guards [] s = ([], s)"
| "enter_guards (flt # flts) s =
     (let (g, s1) = guard_setdefault flt s;
          (entries, s2) = enter_guards flts (guard_update g (add_users 1) s1)
      in ((flt, g) # entries, s2))"

definition hold_begin :: "pystr list \<Rightarrow> SubscriptionGuards \<Rightarrow> (pystr \<times> nat) list \<times> SubscriptionGuards" where
  "hold_begin filters s = enter_guards (sorted_list_of_set (set filters)) s"

text \<open>\<open>Lock.acquire\<close> of the task \<open>i\<close>: the flag says whether it has the lock; otherwise it waits.\<close>

definition lock_acquire :: "nat \<Rightarrow> SubscriptionGuard \<Rightarrow> bool \<times> SubscriptionGuard" where
  "lock_acquire i guard =
     (if sg_holder guard = None \<and> sg_waiters guard = [] then (True, guard\<lparr>sg_holder := Some i\<rparr>)
      else (False, guard\<lparr>sg_waiters := sg_waiters guard @ [i]\<rparr>))"

definition lock_wake :: "nat \<Rightarrow> SubscriptionGuard \<Rightarrow> SubscriptionGuard" where
  "lock_wake i guard = guard\<lparr>sg_holder := Some i, sg_waiters := tl (sg_waiters guard)\<rparr>"

definition lock_release :: "SubscriptionGuard \<Rightarrow> SubscriptionGuard" where
  "lock_release guard = guard\<lparr>sg_holder := None\<rparr>"

definition lock_cancel :: "nat \<Rightarrow> SubscriptionGuard \<Rightarrow> SubscriptionGuard" where
  "lock_cancel i guard = guard\<lparr>sg_waiters := removeAll i (sg_waiters guard)\<rparr>"

text \<open>The \<open>finally\<close> block.\<close>

definition leave_guard :: "pystr \<times> nat \<Rightarrow> SubscriptionGuards \<Rightarrow> SubscriptionGuards" where
  "leave_guard e s =
     (case e of (flt, g) \<Rightarrow>
        let s1 = guard_update g (add_users (-1)) s in
        if sg_users (gs_heap s1 g) = 0 then s1\<lparr>gs_guards := AList.delete flt (gs_guards s1)\<rparr> else s1)"

definition hold_end :: "(pystr \<times> nat) list \<Rightarrow> nat \<Rightarrow> SubscriptionGuards \<Rightarrow> SubscriptionGuards" where
  "hold_end entries acquired s =
     fold leave_guard entries (fold (\<lambda>(flt, g). guard_update g lock_release) (rev (take acquired entries)) s)"

section \<open>Interleavings\<close>

text \<open>
  A task of \<open>hold\<close>: the entries it registered, how many locks it has, and whether it waits for the
  next one.  A task that has left has no entries.
\<close>

record holding =
  hl_entries :: "(pystr \<times> nat) list"
  hl_acquired :: nat
  hl_waiting :: bool

definition left :: holding where
  "left = \<lparr>hl_entries = [], hl_acquired = 0, hl_waiting = False\<rparr>"

definition next_guard :: "holding \<Rightarrow> nat" where
  "next_guard h = snd (hl_entries h ! hl_acquired h)"

type_synonym gs_state = "SubscriptionGuards \<times> holding list"

inductive gstep :: "gs_state \<Rightarrow> gs_state \<Rightarrow> bool" where
  enter: "hold_begin filters s = (entries, s') \<Longrightarrow>
    gstep (s, ts) (s', ts @ [\<lparr>hl_entries = entries, hl_acquired = 0, hl_waiting = False\<rparr>])"
| acquire: "i < length ts \<Longrightarrow> h = ts ! i \<Longrightarrow> \<not> hl_waiting h \<Longrightarrow> hl_acquired h < length (hl_entries h) \<Longrightarrow>
    lock_acquire i (gs_heap s (next_guard h)) = (got, guard) \<Longrightarrow>
    gstep (s, ts) (guard_update (next_guard h) (\<lambda>_. guard) s,
      ts[i := if got then h\<lparr>hl_acquired := Suc (hl_acquired h)\<rparr> else h\<lparr>hl_waiting := True\<rparr>])"
| wake: "i < length ts \<Longrightarrow> h = ts ! i \<Longrightarrow> hl_waiting h \<Longrightarrow> sg_holder (gs_heap s (next_guard h)) = None \<Longrightarrow>
    sg_waiters (gs_heap s (next_guard h)) = i # ws \<Longrightarrow>
    gstep (s, ts) (guard_update (next_guard h) (lock_wake i) s,
      ts[i := h\<lparr>hl_acquired := Suc (hl_acquired h), hl_waiting := False\<rparr>])"
| leave: "i < length ts \<Longrightarrow> h = ts ! i \<Longrightarrow> \<not> hl_waiting h \<Longrightarrow> hl_acquired h = length (hl_entries h) \<Longrightarrow>
    gstep (s, ts) (hold_end (hl_entries h) (hl_acquired h) s, ts[i := left])"
| cancelled: "i < length ts \<Longrightarrow> h = ts ! i \<Longrightarrow> hl_waiting h \<Longrightarrow>
    gstep (s, ts) (hold_end (hl_entries h) (hl_acquired h) (guard_update (next_guard h) (lock_cancel i) s),
      ts[i := left])"

section \<open>The invariant\<close>

definition users_of :: "pystr \<Rightarrow> holding list \<Rightarrow> int" where
  "users_of flt ts = (\<Sum>h\<leftarrow>ts. if flt \<in> fst ` set (hl_entries h) then 1 else 0)"

definition holds :: "holding \<Rightarrow> nat set" where
  "holds h = snd ` set (take (hl_acquired h) (hl_entries h))"

definition dict_ok :: "SubscriptionGuards \<Rightarrow> bool" where
  "dict_ok s \<longleftrightarrow> distinct (map fst (gs_guards s)) \<and> distinct (map snd (gs_guards s))
     \<and> (\<forall>g \<in> snd ` set (gs_guards s). g < gs_fresh s)
     \<and> (\<forall>g. gs_fresh s \<le> g \<longrightarrow> sg_holder (gs_heap s g) = None \<and> sg_waiters (gs_heap s g) = [])"

definition task_ok :: "(pystr \<times> nat) set \<Rightarrow> holding \<Rightarrow> bool" where
  "task_ok G h \<longleftrightarrow> sorted_wrt (<) (map fst (hl_entries h)) \<and> set (hl_entries h) \<subseteq> G
     \<and> hl_acquired h \<le> length (hl_entries h) \<and> (hl_waiting h \<longrightarrow> hl_acquired h < length (hl_entries h))"

definition locks_ok :: "(nat \<Rightarrow> SubscriptionGuard) \<Rightarrow> holding list \<Rightarrow> bool" where
  "locks_ok hp ts \<longleftrightarrow>
     (\<forall>g i. sg_holder (hp g) = Some i \<longleftrightarrow> i < length ts \<and> g \<in> holds (ts ! i))
     \<and> (\<forall>g i. i \<in> set (sg_waiters (hp g)) \<longleftrightarrow> i < length ts \<and> hl_waiting (ts ! i) \<and> next_guard (ts ! i) = g)
     \<and> (\<forall>g. distinct (sg_waiters (hp g)))"

definition users_ok :: "SubscriptionGuards \<Rightarrow> holding list \<Rightarrow> bool" where
  "users_ok s ts \<longleftrightarrow> (\<forall>(flt, g) \<in> set (gs_guards s).
     sg_users (gs_heap s g) = users_of flt ts \<and> 0 < users_of flt ts)"

definition guards_inv :: "gs_state \<Rightarrow> bool" where
  "guards_inv st \<longleftrightarrow> (case st of (s, ts) \<Rightarrow> dict_ok s \<and> users_ok s ts \<and> locks_ok (gs_heap s) ts
     \<and> (\<forall>h \<in> set ts. task_ok (set (gs_guards s)) h))"

lemma dict_okD:
  assumes "dict_ok s" and "(flt, g) \<in> set (gs_guards s)"
  shows "map_of (gs_guards s) flt = Some g" and "g < gs_fresh s"
    and "(flt', g) \<in> set (gs_guards s) \<longleftrightarrow> flt' = flt" and "(flt, g') \<in> set (gs_guards s) \<longleftrightarrow> g' = g"
  using assms by (force simp: dict_ok_def distinct_map inj_on_def)+

lemma guard_update_simps [simp]:
  "gs_guards (guard_update g f s) = gs_guards s" "gs_fresh (guard_update g f s) = gs_fresh s"
  "gs_heap (guard_update g f s) = (gs_heap s)(g := f (gs_heap s g))"
  by (simp_all add: guard_update_def)

lemma add_users_simps [simp]:
  "sg_holder (add_users n guard) = sg_holder guard" "sg_waiters (add_users n guard) = sg_waiters guard"
  "sg_users (add_users n guard) = sg_users guard + n"
  by (simp_all add: add_users_def)

text \<open>What a change of the users leaves alone.\<close>

definition same_locks :: "SubscriptionGuards \<Rightarrow> SubscriptionGuards \<Rightarrow> bool" where
  "same_locks s s' \<longleftrightarrow> (\<forall>g. sg_holder (gs_heap s' g) = sg_holder (gs_heap s g)
     \<and> sg_waiters (gs_heap s' g) = sg_waiters (gs_heap s g))"

lemma same_locks_ok: "same_locks s s' \<Longrightarrow> locks_ok (gs_heap s') ts = locks_ok (gs_heap s) ts"
  by (simp add: same_locks_def locks_ok_def)

lemma dict_ok_users: "dict_ok (guard_update g (add_users n) s) = dict_ok s"
  by (auto simp: dict_ok_def)

lemma setdefault_spec:
  assumes "dict_ok s" and "guard_setdefault flt s = (g, s')"
  shows "dict_ok s' \<and> same_locks s s' \<and> (flt, g) \<in> set (gs_guards s')
    \<and> set (gs_guards s') = insert (flt, g) (set (gs_guards s))
    \<and> (\<forall>g'. sg_users (gs_heap s' g') = (if g' = g \<and> (flt, g) \<notin> set (gs_guards s) then 0 else sg_users (gs_heap s g')))"
proof (cases "map_of (gs_guards s) flt")
  case None
  then have new: "flt \<notin> fst ` set (gs_guards s)" by (simp add: map_of_eq_None_iff)
  have g: "g = gs_fresh s" and s': "s' = s\<lparr>gs_guards := gs_guards s @ [(flt, g)],
      gs_heap := (gs_heap s)(g := SubscriptionGuard_init), gs_fresh := Suc g\<rparr>"
    using assms(2) AList_update_new [OF new] None by (auto simp: guard_setdefault_def Let_def)
  have old: "g \<notin> snd ` set (gs_guards s)" "sg_holder (gs_heap s g) = None" "sg_waiters (gs_heap s g) = []"
    using assms(1) g by (auto simp: dict_ok_def)
  have "dict_ok s'" using assms(1) new old g by (auto simp: dict_ok_def s' SubscriptionGuard_init_def)
  moreover have "same_locks s s'" using old by (simp add: same_locks_def s' SubscriptionGuard_init_def)
  ultimately show ?thesis using new by (force simp: s' SubscriptionGuard_init_def)
next
  case (Some g0)
  then have "(flt, g0) \<in> set (gs_guards s)" by (rule map_of_SomeD)
  with Some assms show ?thesis by (auto simp: guard_setdefault_def same_locks_def)
qed

lemma enter_spec:
  assumes "enter_guards flts s = (es, s')" and "distinct flts" and "dict_ok s"
  shows "map fst es = flts \<and> dict_ok s' \<and> same_locks s s'
    \<and> set (gs_guards s') = set (gs_guards s) \<union> set es
    \<and> (\<forall>flt g. (flt, g) \<in> set (gs_guards s') \<longrightarrow> sg_users (gs_heap s' g) =
         (if (flt, g) \<in> set (gs_guards s) then sg_users (gs_heap s g) else 0) + (if flt \<in> set flts then 1 else 0))"
  using assms
proof (induction flts s arbitrary: es s' rule: enter_guards.induct)
  case (1 s)
  then show ?case by (auto simp: same_locks_def)
next
  case (2 flt flts s)
  obtain g s1 where sd: "guard_setdefault flt s = (g, s1)" by (metis prod.exhaust)
  let ?s1 = "guard_update g (add_users 1) s1"
  obtain es2 s2 where rest: "enter_guards flts ?s1 = (es2, s2)" by (metis prod.exhaust)
  have es: "es = (flt, g) # es2" "s' = s2" using "2.prems"(1) sd rest by auto
  note one = setdefault_spec [OF "2.prems"(3) sd]
  then have ok: "dict_ok ?s1" by (simp add: dict_ok_users)
  note IH = "2.IH" [OF sd [symmetric] refl rest _ ok]
  have locks: "same_locks s ?s1" using one by (simp add: same_locks_def)
  have d: "distinct flts" "flt \<notin> set flts" using "2.prems"(2) by auto
  have users: "sg_users (gs_heap s2 g') = (if (f, g') \<in> set (gs_guards s) then sg_users (gs_heap s g') else 0)
      + (if f \<in> set (flt # flts) then 1 else 0)" if "(f, g') \<in> set (gs_guards s2)" for f g'
  proof -
    have u: "sg_users (gs_heap s2 g') = (if (f, g') \<in> set (gs_guards ?s1) then sg_users (gs_heap ?s1 g') else 0)
        + (if f \<in> set flts then 1 else 0)"
      using IH [OF d(1)] that by blast
    have "(flt, g) \<in> set (gs_guards s2)" "dict_ok s2" using IH [OF d(1)] one by auto
    then have "f = flt \<longleftrightarrow> g' = g" using dict_okD(3,4) [of s2 flt g] that by blast
    then show ?thesis using u one d(2) by auto
  qed
  from IH d one locks users show ?case by (auto simp: es same_locks_def)
qed

lemma leave_spec:
  assumes "dict_ok s" and "set es \<subseteq> set (gs_guards s)" and "distinct (map fst es)"
  shows "dict_ok (fold leave_guard es s) \<and> same_locks s (fold leave_guard es s)
    \<and> set (gs_guards (fold leave_guard es s)) =
        {e \<in> set (gs_guards s). e \<in> set es \<longrightarrow> sg_users (gs_heap s (snd e)) \<noteq> 1}
    \<and> (\<forall>e \<in> set (gs_guards (fold leave_guard es s)). sg_users (gs_heap (fold leave_guard es s) (snd e)) =
         sg_users (gs_heap s (snd e)) - (if e \<in> set es then 1 else 0))"
  using assms
proof (induction es arbitrary: s)
  case Nil
  then show ?case by (auto simp: same_locks_def)
next
  case (Cons e es)
  obtain flt g where e: "e = (flt, g)" by (cases e)
  let ?s1 = "leave_guard e s"
  have mem: "(flt, g) \<in> set (gs_guards s)" using Cons.prems(2) e by simp
  note uniq = dict_okD(3,4) [OF Cons.prems(1) mem]
  have new: "(flt, g) \<notin> set es" using Cons.prems(3) e by force
  have heap: "gs_heap ?s1 = (gs_heap s)(g := add_users (-1) (gs_heap s g))" "gs_fresh ?s1 = gs_fresh s"
    by (simp_all add: leave_guard_def e Let_def)
  have keys: "set (gs_guards ?s1) = {e' \<in> set (gs_guards s). e' = e \<longrightarrow> sg_users (gs_heap s g) \<noteq> 1}"
    using uniq by (auto simp: leave_guard_def e Let_def AList.delete_eq)
  have "dict_ok ?s1"
    using Cons.prems(1) unfolding dict_ok_def heap
    by (auto simp: leave_guard_def e Let_def AList.delete_eq distinct_map_filter)
  moreover have "set es \<subseteq> set (gs_guards ?s1)" using Cons.prems(2) new e unfolding keys by auto
  ultimately have IH: "dict_ok (fold leave_guard es ?s1) \<and> same_locks ?s1 (fold leave_guard es ?s1)
    \<and> set (gs_guards (fold leave_guard es ?s1)) =
        {e \<in> set (gs_guards ?s1). e \<in> set es \<longrightarrow> sg_users (gs_heap ?s1 (snd e)) \<noteq> 1}
    \<and> (\<forall>e \<in> set (gs_guards (fold leave_guard es ?s1)). sg_users (gs_heap (fold leave_guard es ?s1) (snd e)) =
         sg_users (gs_heap ?s1 (snd e)) - (if e \<in> set es then 1 else 0))"
    using Cons.IH [of ?s1] Cons.prems(3) by simp
  have locks: "same_locks s ?s1" by (simp add: same_locks_def heap)
  have other: "gs_heap ?s1 (snd e') = gs_heap s (snd e')" if "e' \<in> set (gs_guards s)" "e' \<noteq> e" for e'
  proof -
    obtain f' g' where e': "e' = (f', g')" by (cases e')
    then have "g' \<noteq> g" using that uniq(1) [of f'] e by blast
    then show ?thesis by (simp add: heap e')
  qed
  have "same_locks s (fold leave_guard es ?s1)" using locks IH by (simp add: same_locks_def)
  moreover have "e' \<in> set (gs_guards (fold leave_guard es ?s1)) \<longleftrightarrow>
      e' \<in> {e' \<in> set (gs_guards s). e' \<in> set (e # es) \<longrightarrow> sg_users (gs_heap s (snd e')) \<noteq> 1}" for e'
    using IH keys other [of e'] new e by (cases "e' = e") auto
  then have "set (gs_guards (fold leave_guard es ?s1)) =
      {e' \<in> set (gs_guards s). e' \<in> set (e # es) \<longrightarrow> sg_users (gs_heap s (snd e')) \<noteq> 1}" by blast
  moreover have "sg_users (gs_heap (fold leave_guard es ?s1) (snd e')) =
      sg_users (gs_heap s (snd e')) - (if e' \<in> set (e # es) then 1 else 0)"
    if "e' \<in> set (gs_guards (fold leave_guard es ?s1))" for e'
  proof -
    have "sg_users (gs_heap (fold leave_guard es ?s1) (snd e')) =
        sg_users (gs_heap ?s1 (snd e')) - (if e' \<in> set es then 1 else 0)"
      using IH that by blast
    moreover have "e' \<in> set (gs_guards s)" using IH that keys by blast
    ultimately show ?thesis using other [of e'] new heap e by (cases "e' = e") auto
  qed
  ultimately show ?case using IH by simp
qed

lemma users_of_simps:
  "users_of flt [] = 0"
  "users_of flt (ts @ [h]) = users_of flt ts + (if flt \<in> fst ` set (hl_entries h) then 1 else 0)"
  by (simp_all add: users_of_def)

lemma users_of_update:
  "i < length ts \<Longrightarrow> users_of flt (ts[i := h]) = users_of flt ts
     - (if flt \<in> fst ` set (hl_entries (ts ! i)) then 1 else 0) + (if flt \<in> fst ` set (hl_entries h) then 1 else 0)"
  by (induction ts arbitrary: i) (auto simp: users_of_def split: nat.split)

lemma users_of_nonneg: "0 \<le> users_of flt ts"
  by (induction ts) (auto simp: users_of_def)

lemma users_of_pos: "0 < users_of flt ts \<longleftrightarrow> (\<exists>h \<in> set ts. flt \<in> fst ` set (hl_entries h))"
proof (induction ts)
  case (Cons h ts)
  have "0 \<le> users_of flt ts" by (rule users_of_nonneg)
  with Cons show ?case by (auto simp: users_of_def)
qed (simp add: users_of_def)

lemma release_heap:
  "gs_guards (fold (\<lambda>(flt, g). guard_update g lock_release) es s) = gs_guards s
   \<and> gs_fresh (fold (\<lambda>(flt, g). guard_update g lock_release) es s) = gs_fresh s
   \<and> gs_heap (fold (\<lambda>(flt, g). guard_update g lock_release) es s) =
       (\<lambda>g. if g \<in> snd ` set es then lock_release (gs_heap s g) else gs_heap s g)"
  by (induction es arbitrary: s) (auto simp: fun_eq_iff lock_release_def)

text \<open>A task that ends, from its locks to its entries.\<close>

lemma hold_end_spec:
  assumes "dict_ok s" and "task_ok (set (gs_guards s)) h"
  shows "dict_ok (hold_end (hl_entries h) (hl_acquired h) s)
    \<and> (\<forall>g. sg_holder (gs_heap (hold_end (hl_entries h) (hl_acquired h) s) g) =
          (if g \<in> holds h then None else sg_holder (gs_heap s g))
        \<and> sg_waiters (gs_heap (hold_end (hl_entries h) (hl_acquired h) s) g) = sg_waiters (gs_heap s g))
    \<and> set (gs_guards (hold_end (hl_entries h) (hl_acquired h) s)) =
        {e \<in> set (gs_guards s). e \<in> set (hl_entries h) \<longrightarrow> sg_users (gs_heap s (snd e)) \<noteq> 1}
    \<and> (\<forall>e \<in> set (gs_guards (hold_end (hl_entries h) (hl_acquired h) s)).
         sg_users (gs_heap (hold_end (hl_entries h) (hl_acquired h) s) (snd e)) =
         sg_users (gs_heap s (snd e)) - (if e \<in> set (hl_entries h) then 1 else 0))"
proof -
  let ?s1 = "fold (\<lambda>(flt, g). guard_update g lock_release) (rev (take (hl_acquired h) (hl_entries h))) s"
  note r = release_heap [of "rev (take (hl_acquired h) (hl_entries h))" s]
  have "dict_ok ?s1" using assms(1) r by (simp add: dict_ok_def lock_release_def)
  moreover have "set (hl_entries h) \<subseteq> set (gs_guards ?s1)" using assms(2) r by (simp add: task_ok_def)
  moreover have "distinct (map fst (hl_entries h))"
    using assms(2) by (simp add: task_ok_def strict_sorted_iff)
  ultimately have l: "dict_ok (fold leave_guard (hl_entries h) ?s1)
    \<and> same_locks ?s1 (fold leave_guard (hl_entries h) ?s1)
    \<and> set (gs_guards (fold leave_guard (hl_entries h) ?s1)) =
        {e \<in> set (gs_guards ?s1). e \<in> set (hl_entries h) \<longrightarrow> sg_users (gs_heap ?s1 (snd e)) \<noteq> 1}
    \<and> (\<forall>e \<in> set (gs_guards (fold leave_guard (hl_entries h) ?s1)).
         sg_users (gs_heap (fold leave_guard (hl_entries h) ?s1) (snd e)) =
         sg_users (gs_heap ?s1 (snd e)) - (if e \<in> set (hl_entries h) then 1 else 0))"
    by (rule leave_spec)
  have u: "sg_users (gs_heap ?s1 g) = sg_users (gs_heap s g)" for g using r by (simp add: lock_release_def)
  show ?thesis
    using l r u unfolding hold_end_def
    by (auto simp: same_locks_def holds_def lock_release_def)
qed

lemma holds_next:
  "hl_acquired h < length (hl_entries h) \<Longrightarrow>
     holds (h\<lparr>hl_acquired := Suc (hl_acquired h)\<rparr>) = insert (next_guard h) (holds h)"
  "hl_acquired h < length (hl_entries h) \<Longrightarrow>
     holds (h\<lparr>hl_acquired := Suc (hl_acquired h), hl_waiting := b\<rparr>) = insert (next_guard h) (holds h)"
  by (simp_all add: holds_def next_guard_def take_Suc_conv_app_nth)

lemma holds_simps [simp]:
  "holds (h\<lparr>hl_waiting := b\<rparr>) = holds h" "holds left = {}"
  "next_guard (h\<lparr>hl_waiting := b\<rparr>) = next_guard h"
  by (simp_all add: holds_def next_guard_def left_def)

lemma task_ok_mono: "task_ok G h \<Longrightarrow> set (hl_entries h) \<subseteq> G' \<Longrightarrow> task_ok G' h"
  by (simp add: task_ok_def)

lemma left_ok [simp]: "task_ok G left" "hl_entries left = []" "\<not> hl_waiting left"
  by (simp_all add: task_ok_def left_def)

lemma locks_ok_take:
  assumes "locks_ok hp ts" and "i < length ts" and "hl_acquired (ts ! i) < length (hl_entries (ts ! i))"
    and "g = next_guard (ts ! i)" and "sg_holder (hp g) = None"
    and "sg_holder guard = Some i" and "set (sg_waiters guard) = set (sg_waiters (hp g)) - {i}"
    and "distinct (sg_waiters guard)"
    and "h' = (ts ! i)\<lparr>hl_acquired := Suc (hl_acquired (ts ! i)), hl_waiting := False\<rparr>"
  shows "locks_ok (hp(g := guard)) (ts[i := h'])"
proof -
  note lk = assms(1) [unfolded locks_ok_def]
  have h': "holds h' = insert g (holds (ts ! i))" "\<not> hl_waiting h'"
    using holds_next(2) [OF assms(3)] assms(4,9) by simp_all
  have "sg_holder ((hp(g := guard)) g') = Some j \<longleftrightarrow>
      j < length (ts[i := h']) \<and> g' \<in> holds (ts[i := h'] ! j)" for g' j
  proof (cases "g' = g \<and> j \<noteq> i")
    case True
    then have "\<not> (j < length ts \<and> g \<in> holds (ts ! j))" using lk assms(5) by (metis option.distinct(1))
    with True show ?thesis using assms(6) by auto
  next
    case False
    then show ?thesis using lk assms(2,6) h' by (auto simp: nth_list_update)
  qed
  moreover have "j \<in> set (sg_waiters ((hp(g := guard)) g')) \<longleftrightarrow>
      j < length (ts[i := h']) \<and> hl_waiting (ts[i := h'] ! j) \<and> next_guard (ts[i := h'] ! j) = g'" for g' j
    using lk assms(2,4,7) h' by (auto simp: nth_list_update)
  ultimately show ?thesis using lk assms(8) by (simp add: locks_ok_def)
qed

lemma locks_ok_wait:
  assumes "locks_ok hp ts" and "i < length ts" and "\<not> hl_waiting (ts ! i)" and "g = next_guard (ts ! i)"
    and "guard = (hp g)\<lparr>sg_waiters := sg_waiters (hp g) @ [i]\<rparr>"
  shows "locks_ok (hp(g := guard)) (ts[i := (ts ! i)\<lparr>hl_waiting := True\<rparr>])"
  using assms by (auto simp: locks_ok_def nth_list_update)

lemma locks_ok_leave:
  assumes "locks_ok hp ts" and "i < length ts"
    and "\<And>g. sg_holder (hp' g) = (if g \<in> holds (ts ! i) then None else sg_holder (hp g))"
    and "\<And>g. sg_waiters (hp' g) = removeAll i (sg_waiters (hp g))"
  shows "locks_ok hp' (ts[i := left])"
proof -
  note lk = assms(1) [unfolded locks_ok_def]
  have "sg_holder (hp' g) = Some j \<longleftrightarrow> j < length ts \<and> g \<in> holds (ts[i := left] ! j)" for g j
  proof (cases "g \<in> holds (ts ! i)")
    case True
    then have "sg_holder (hp g) = Some i" using lk assms(2) by blast
    then have "g \<notin> holds (ts ! j)" if "j < length ts" "j \<noteq> i"
      using lk that by (metis option.inject)
    with True show ?thesis using assms(2,3) by (auto simp: nth_list_update)
  next
    case False
    then show ?thesis using lk assms(2,3) by (auto simp: nth_list_update)
  qed
  moreover have "j \<in> set (sg_waiters (hp' g)) \<longleftrightarrow>
      j < length ts \<and> hl_waiting (ts[i := left] ! j) \<and> next_guard (ts[i := left] ! j) = g" for g j
    using lk assms(2,4) by (auto simp: nth_list_update)
  ultimately show ?thesis using lk assms(4) by (simp add: locks_ok_def distinct_removeAll)
qed

lemma leave_inv:
  assumes "guards_inv (s, ts)" and "i < length ts" and "h = ts ! i"
    and "dict_ok s0" "gs_guards s0 = gs_guards s" and "\<And>g. sg_users (gs_heap s0 g) = sg_users (gs_heap s g)"
    and "\<And>g. sg_holder (gs_heap s0 g) = sg_holder (gs_heap s g)"
    and "\<And>g. sg_waiters (gs_heap s0 g) = removeAll i (sg_waiters (gs_heap s g))"
  shows "guards_inv (hold_end (hl_entries h) (hl_acquired h) s0, ts[i := left])"
proof -
  let ?s' = "hold_end (hl_entries h) (hl_acquired h) s0"
  have inv: "dict_ok s" "users_ok s ts" "locks_ok (gs_heap s) ts" "\<forall>h \<in> set ts. task_ok (set (gs_guards s)) h"
    using assms(1) by (simp_all add: guards_inv_def)
  have h: "task_ok (set (gs_guards s0)) h" using inv(4) assms(2,3,5) by simp
  note e = hold_end_spec [OF assms(4) h]
  have "locks_ok (gs_heap ?s') (ts[i := left])"
    using e assms(3,7,8) by (intro locks_ok_leave [OF inv(3) assms(2)]) simp_all
  moreover have "users_ok ?s' (ts[i := left])"
  proof -
    have "sg_users (gs_heap ?s' g) = users_of flt (ts[i := left]) \<and> 0 < users_of flt (ts[i := left])"
      if mem: "(flt, g) \<in> set (gs_guards ?s')" for flt g
    proof -
      have mem_s: "(flt, g) \<in> set (gs_guards s)" using e mem assms(5) by auto
      then have u: "sg_users (gs_heap s g) = users_of flt ts" "0 < users_of flt ts"
        using inv(2) by (auto simp: users_ok_def)
      have in_h: "(flt, g) \<in> set (hl_entries h) \<longleftrightarrow> flt \<in> fst ` set (hl_entries h)"
        using h dict_okD(4) [OF inv(1) mem_s] assms(5) by (force simp: task_ok_def)
      have "sg_users (gs_heap ?s' g) = sg_users (gs_heap s g) - (if (flt, g) \<in> set (hl_entries h) then 1 else 0)"
        using e mem assms(6) by force
      moreover have "(flt, g) \<in> set (hl_entries h) \<longrightarrow> sg_users (gs_heap s g) \<noteq> 1"
        using e mem assms(6) by auto
      ultimately show ?thesis using u in_h users_of_update [OF assms(2), of flt left] assms(3) by auto
    qed
    then show ?thesis by (auto simp: users_ok_def)
  qed
  moreover have "task_ok (set (gs_guards ?s')) h'" if "h' \<in> set (ts[i := left])" for h'
  proof (cases "h' = left")
    case False
    then have h': "task_ok (set (gs_guards s)) h'" using that inv(4) set_update_subset_insert [of ts i left] by auto
    have "(flt, g) \<in> set (gs_guards ?s')" if mem: "(flt, g) \<in> set (hl_entries h')" for flt g
    proof -
      have mem_s: "(flt, g) \<in> set (gs_guards s)" using h' mem by (auto simp: task_ok_def)
      then have u: "sg_users (gs_heap s g) = users_of flt ts" using inv(2) by (auto simp: users_ok_def)
      have "0 < users_of flt (ts[i := left])"
        unfolding users_of_pos using mem \<open>h' \<in> set (ts[i := left])\<close> by force
      then have "(flt, g) \<in> set (hl_entries h) \<longrightarrow> users_of flt ts \<noteq> 1"
        using users_of_update [OF assms(2), of flt left] assms(3) by (force split: if_splits)
      with e mem_s u assms(5,6) show ?thesis by auto
    qed
    then have "set (hl_entries h') \<subseteq> set (gs_guards ?s')" by (rule subrelI)
    then show ?thesis by (rule task_ok_mono [OF h'])
  qed simp
  ultimately show ?thesis using e by (simp add: guards_inv_def)
qed

lemma enter_inv:
  assumes "guards_inv (s, ts)" and "hold_begin filters s = (es, s')"
  shows "guards_inv (s', ts @ [\<lparr>hl_entries = es, hl_acquired = 0, hl_waiting = False\<rparr>])"
proof -
  let ?h = "\<lparr>hl_entries = es, hl_acquired = 0, hl_waiting = False\<rparr>"
  have inv: "dict_ok s" "users_ok s ts" "locks_ok (gs_heap s) ts" "\<forall>h \<in> set ts. task_ok (set (gs_guards s)) h"
    using assms(1) by (simp_all add: guards_inv_def)
  note e = enter_spec [OF assms(2) [unfolded hold_begin_def] distinct_sorted_list_of_set inv(1)]
  then have keys: "fst ` set es = set filters" by (metis List.finite_set list.set_map set_sorted_list_of_set)
  have "users_ok s' (ts @ [?h])"
  proof -
    have "sg_users (gs_heap s' g) = users_of flt (ts @ [?h]) \<and> 0 < users_of flt (ts @ [?h])"
      if mem: "(flt, g) \<in> set (gs_guards s')" for flt g
    proof (cases "(flt, g) \<in> set (gs_guards s)")
      case True
      then have "sg_users (gs_heap s g) = users_of flt ts" "0 < users_of flt ts"
        using inv(2) by (auto simp: users_ok_def)
      with True e mem keys show ?thesis by (auto simp: users_of_simps)
    next
      case False
      then have "(flt, g) \<in> set es" using e mem by auto
      then have f: "flt \<in> set filters" using keys by force
      have "flt \<notin> fst ` set (hl_entries h)" if "h \<in> set ts" for h
      proof
        assume "flt \<in> fst ` set (hl_entries h)"
        then obtain g' where "(flt, g') \<in> set (hl_entries h)" by auto
        moreover have "set (hl_entries h) \<subseteq> set (gs_guards s)" using inv(4) that by (simp add: task_ok_def)
        ultimately have "(flt, g') \<in> set (gs_guards s)" by blast
        with False e mem dict_okD(4) [of s' flt g g'] show False by auto
      qed
      then have "\<not> 0 < users_of flt ts" unfolding users_of_pos by blast
      then have "users_of flt ts = 0" using users_of_nonneg [of flt ts] by simp
      with False e mem keys f show ?thesis by (auto simp: users_of_simps)
    qed
    then show ?thesis by (auto simp: users_ok_def)
  qed
  moreover have "locks_ok (gs_heap s') (ts @ [?h])"
    using inv(3) same_locks_ok [of s s' ts] e
    by (auto simp: locks_ok_def nth_append holds_def less_Suc_eq)
  moreover have "task_ok (set (gs_guards s')) ?h"
    using e strict_sorted_list_of_set [of "set filters"] by (auto simp: task_ok_def)
  moreover have "task_ok (set (gs_guards s')) h" if "h \<in> set ts" for h
    using inv(4) that e task_ok_mono [of "set (gs_guards s)" h "set (gs_guards s')"] by (auto simp: task_ok_def)
  ultimately show ?thesis using e by (simp add: guards_inv_def)
qed

text \<open>Steps that change the locks of one guard and the position of one task.\<close>

lemma lock_step_inv:
  assumes "guards_inv (s, ts)" and "i < length ts" and "locks_ok ((gs_heap s)(g := guard)) (ts[i := h'])"
    and "g \<in> snd ` set (gs_guards s)" and "sg_users guard = sg_users (gs_heap s g)"
    and "hl_entries h' = hl_entries (ts ! i)" and "task_ok (set (gs_guards s)) h'"
  shows "guards_inv (guard_update g (\<lambda>_. guard) s, ts[i := h'])"
proof -
  have inv: "dict_ok s" "users_ok s ts" "\<forall>h \<in> set ts. task_ok (set (gs_guards s)) h"
    using assms(1) by (simp_all add: guards_inv_def)
  have "dict_ok (guard_update g (\<lambda>_. guard) s)" using inv(1) assms(4) by (fastforce simp: dict_ok_def)
  moreover have "users_of flt (ts[i := h']) = users_of flt ts" for flt
    using users_of_update [OF assms(2), of flt h'] assms(6) by simp
  then have "users_ok (guard_update g (\<lambda>_. guard) s) (ts[i := h'])"
    using inv(2) assms(5) by (auto simp: users_ok_def)
  moreover have "\<forall>h \<in> set (ts[i := h']). task_ok (set (gs_guards s)) h"
    using inv(3) assms(7) set_update_subset_insert [of ts i h'] by blast
  ultimately show ?thesis using assms(3) by (simp add: guards_inv_def)
qed

lemma next_guard_mem:
  assumes "guards_inv (s, ts)" and "i < length ts" and "hl_acquired (ts ! i) < length (hl_entries (ts ! i))"
  shows "next_guard (ts ! i) \<in> snd ` set (gs_guards s)"
proof -
  have "task_ok (set (gs_guards s)) (ts ! i)" using assms(1,2) by (simp add: guards_inv_def)
  then have "hl_entries (ts ! i) ! hl_acquired (ts ! i) \<in> set (gs_guards s)"
    using nth_mem [OF assms(3)] by (auto simp: task_ok_def)
  then show ?thesis by (simp add: next_guard_def)
qed

lemma gstep_inv: "gstep st st' \<Longrightarrow> guards_inv st \<Longrightarrow> guards_inv st'"
proof (induction rule: gstep.induct)
  case (enter filters s entries s' ts)
  then show ?case using enter_inv by blast
next
  case (acquire i ts h s got guard)
  have ok: "task_ok (set (gs_guards s)) (ts ! i)" "locks_ok (gs_heap s) ts"
    using acquire by (auto simp: guards_inv_def)
  have mem: "next_guard h \<in> snd ` set (gs_guards s)" using next_guard_mem acquire by blast
  show ?case
  proof (cases got)
    case True
    then have g: "sg_holder (gs_heap s (next_guard h)) = None" "sg_waiters (gs_heap s (next_guard h)) = []"
      "guard = (gs_heap s (next_guard h))\<lparr>sg_holder := Some i\<rparr>"
      using acquire.hyps(5) by (auto simp: lock_acquire_def split: if_splits)
    have h': "h\<lparr>hl_acquired := Suc (hl_acquired h)\<rparr> = h\<lparr>hl_acquired := Suc (hl_acquired h), hl_waiting := False\<rparr>"
      using acquire.hyps(3) by simp
    have "locks_ok ((gs_heap s)(next_guard h := guard)) (ts[i := h\<lparr>hl_acquired := Suc (hl_acquired h)\<rparr>])"
      by (rule locks_ok_take [OF ok(2)]) (use acquire.hyps g h' in auto)
    then show ?thesis using True acquire mem g ok(1)
      by (auto intro!: lock_step_inv simp: task_ok_def)
  next
    case False
    then have g: "guard = (gs_heap s (next_guard h))\<lparr>sg_waiters := sg_waiters (gs_heap s (next_guard h)) @ [i]\<rparr>"
      using acquire.hyps(5) by (auto simp: lock_acquire_def split: if_splits)
    have "locks_ok ((gs_heap s)(next_guard h := guard)) (ts[i := h\<lparr>hl_waiting := True\<rparr>])"
      using locks_ok_wait [OF ok(2)] acquire.hyps g by simp
    then show ?thesis using False acquire mem g ok(1)
      by (auto intro!: lock_step_inv simp: task_ok_def)
  qed
next
  case (wake i ts h s ws)
  have ok: "task_ok (set (gs_guards s)) (ts ! i)" "locks_ok (gs_heap s) ts"
    using wake by (auto simp: guards_inv_def)
  then have lt: "hl_acquired h < length (hl_entries h)" using wake.hyps by (simp add: task_ok_def)
  let ?guard = "lock_wake i (gs_heap s (next_guard h))"
  have "distinct (i # ws)" using ok(2) wake.hyps(5) by (metis locks_ok_def)
  then have "locks_ok ((gs_heap s)(next_guard h := ?guard))
      (ts[i := h\<lparr>hl_acquired := Suc (hl_acquired h), hl_waiting := False\<rparr>])"
    by (intro locks_ok_take [OF ok(2)]) (use wake.hyps lt in \<open>auto simp: lock_wake_def\<close>)
  moreover have "next_guard h \<in> snd ` set (gs_guards s)"
    using next_guard_mem [OF wake.prems wake.hyps(1)] wake.hyps(2) lt by simp
  moreover have "task_ok (set (gs_guards s)) (h\<lparr>hl_acquired := Suc (hl_acquired h), hl_waiting := False\<rparr>)"
    using ok(1) lt wake.hyps(2) by (simp add: task_ok_def)
  ultimately have "guards_inv (guard_update (next_guard h) (\<lambda>_. ?guard) s,
      ts[i := h\<lparr>hl_acquired := Suc (hl_acquired h), hl_waiting := False\<rparr>])"
    using lock_step_inv [OF wake.prems wake.hyps(1)] wake.hyps(2) by (simp add: lock_wake_def)
  then show ?case by (simp add: guard_update_def)
next
  case (leave i ts h s)
  then have inv: "dict_ok s" "locks_ok (gs_heap s) ts" by (simp_all add: guards_inv_def)
  have "i \<notin> set (sg_waiters (gs_heap s g))" for g using inv(2) leave.hyps by (simp add: locks_ok_def)
  with leave inv show ?case by (intro leave_inv [of s]) (auto simp: removeAll_id)
next
  case (cancelled i ts h s)
  then have inv: "dict_ok s" "locks_ok (gs_heap s) ts" by (simp_all add: guards_inv_def)
  have w: "i \<in> set (sg_waiters (gs_heap s g)) \<longleftrightarrow> g = next_guard h" for g
    using inv(2) cancelled.hyps by (auto simp: locks_ok_def)
  have lt: "hl_acquired h < length (hl_entries h)"
    using cancelled by (auto simp: guards_inv_def task_ok_def)
  let ?s0 = "guard_update (next_guard h) (lock_cancel i) s"
  have "dict_ok ?s0" using inv(1) by (auto simp: dict_ok_def lock_cancel_def)
  then show ?case using cancelled w by (intro leave_inv [of s]) (auto simp: lock_cancel_def removeAll_id)
qed

interpretation guards_run: step_invariant gstep guards_inv
  by unfold_locales (rule gstep_inv)

lemmas gsteps_inv = guards_run.steps_kept

lemma guards_inv_init: "guards_inv (SubscriptionGuards_init, [])"
  by (simp add: guards_inv_def dict_ok_def users_ok_def locks_ok_def SubscriptionGuards_init_def SubscriptionGuard_init_def)

section \<open>Properties\<close>

lemma held_filter:
  assumes "flt \<in> fst ` set (take (hl_acquired h) (hl_entries h))"
  shows "\<exists>g. (flt, g) \<in> set (hl_entries h) \<and> g \<in> holds h"
  using assms set_take_subset [of "hl_acquired h" "hl_entries h"] by (force simp: holds_def)

text \<open>
  C24: at most one task at a time holds a topic filter, whatever sets of filters the tasks ask for and
  however they are interleaved or cancelled; and there is a guard for a filter exactly as long as
  some task uses it, so that none is left behind.
\<close>

theorem guards_exclusive:
  assumes "gstep\<^sup>*\<^sup>* (SubscriptionGuards_init, []) (s, ts)"
  shows "(\<forall>i < length ts. \<forall>j < length ts. \<forall>flt.
      flt \<in> fst ` set (take (hl_acquired (ts ! i)) (hl_entries (ts ! i))) \<longrightarrow>
      flt \<in> fst ` set (take (hl_acquired (ts ! j)) (hl_entries (ts ! j))) \<longrightarrow> i = j)
    \<and> fst ` set (gs_guards s) = (\<Union>h \<in> set ts. fst ` set (hl_entries h))"
proof -
  have "guards_inv (s, ts)" using gsteps_inv [OF assms guards_inv_init] .
  then have inv: "dict_ok s" "users_ok s ts" "locks_ok (gs_heap s) ts" "\<forall>h \<in> set ts. task_ok (set (gs_guards s)) h"
    by (simp_all add: guards_inv_def)
  have excl: "i = j" if i: "i < length ts" "flt \<in> fst ` set (take (hl_acquired (ts ! i)) (hl_entries (ts ! i)))"
    and j: "j < length ts" "flt \<in> fst ` set (take (hl_acquired (ts ! j)) (hl_entries (ts ! j)))" for i j flt
  proof -
    obtain g g' where g: "(flt, g) \<in> set (hl_entries (ts ! i))" "g \<in> holds (ts ! i)"
      "(flt, g') \<in> set (hl_entries (ts ! j))" "g' \<in> holds (ts ! j)"
      using held_filter [OF i(2)] held_filter [OF j(2)] by blast
    have "set (hl_entries (ts ! k)) \<subseteq> set (gs_guards s)" if "k < length ts" for k
      using inv(4) that by (simp add: task_ok_def)
    then have "g' = g" using dict_okD(4) [OF inv(1), of flt g] g i(1) j(1) by blast
    then have "sg_holder (gs_heap s g) = Some i" "sg_holder (gs_heap s g) = Some j"
      using inv(3) g i(1) j(1) by (simp_all add: locks_ok_def)
    then show "i = j" by simp
  qed
  have keys: "flt \<in> fst ` set (gs_guards s) \<longleftrightarrow> (\<exists>h \<in> set ts. flt \<in> fst ` set (hl_entries h))" for flt
  proof
    assume "flt \<in> fst ` set (gs_guards s)"
    then have "0 < users_of flt ts" using inv(2) by (auto simp: users_ok_def)
    then show "\<exists>h \<in> set ts. flt \<in> fst ` set (hl_entries h)" by (simp add: users_of_pos)
  next
    assume "\<exists>h \<in> set ts. flt \<in> fst ` set (hl_entries h)"
    then obtain h where "h \<in> set ts" "flt \<in> fst ` set (hl_entries h)" by blast
    then show "flt \<in> fst ` set (gs_guards s)" using inv(4) by (auto simp: task_ok_def)
  qed
  show ?thesis
  proof (intro conjI allI impI)
    show "fst ` set (gs_guards s) = (\<Union>h \<in> set ts. fst ` set (hl_entries h))" using keys by blast
  qed (rule excl)
qed

definition sample_holding :: "nat \<Rightarrow> bool \<Rightarrow> holding" where
  "sample_holding n w = \<lparr>hl_entries = [([97], 0)], hl_acquired = n, hl_waiting = w\<rparr>"

text \<open>Two tasks ask for the filter \<open>a\<close>: the first gets it, the second waits.\<close>

lemma sample_guards:
  "\<exists>s. gstep\<^sup>*\<^sup>* (SubscriptionGuards_init, []) (s, [sample_holding 1 False, sample_holding 0 True])"
proof -
  let ?s = "\<lambda>holder ws n. \<lparr>gs_guards = [([97], 0)],
    gs_heap = (\<lambda>_. SubscriptionGuard_init)(0 := \<lparr>sg_holder = holder, sg_waiters = ws, sg_users = n\<rparr>), gs_fresh = 1\<rparr>"
  let ?t = sample_holding
  have "hold_begin [[97]] SubscriptionGuards_init = ([([97], 0)], ?s None [] 1)"
    by (simp add: hold_begin_def guard_setdefault_def SubscriptionGuards_init_def SubscriptionGuard_init_def
        guard_update_def add_users_def Let_def)
  then have 1: "gstep (SubscriptionGuards_init, []) (?s None [] 1, [?t 0 False])"
    using gstep.enter [of "[[97]]" SubscriptionGuards_init _ _ "[]"] by (simp add: sample_holding_def)
  have 2: "gstep (?s None [] 1, [?t 0 False]) (?s (Some 0) [] 1, [?t 1 False])"
    using gstep.acquire [of 0 "[?t 0 False]" "?t 0 False" "?s None [] 1" True "\<lparr>sg_holder = Some 0, sg_waiters = [], sg_users = 1\<rparr>"]
    by (simp add: sample_holding_def next_guard_def lock_acquire_def guard_update_def)
  have "hold_begin [[97]] (?s (Some 0) [] 1) = ([([97], 0)], ?s (Some 0) [] 2)"
    by (simp add: hold_begin_def guard_setdefault_def guard_update_def add_users_def Let_def)
  then have 3: "gstep (?s (Some 0) [] 1, [?t 1 False]) (?s (Some 0) [] 2, [?t 1 False, ?t 0 False])"
    using gstep.enter [of "[[97]]" "?s (Some 0) [] 1" _ _ "[?t 1 False]"] by (simp add: sample_holding_def)
  have 4: "gstep (?s (Some 0) [] 2, [?t 1 False, ?t 0 False]) (?s (Some 0) [1] 2, [?t 1 False, ?t 0 True])"
    using gstep.acquire [of 1 "[?t 1 False, ?t 0 False]" "?t 0 False" "?s (Some 0) [] 2" False
        "\<lparr>sg_holder = Some 0, sg_waiters = [1], sg_users = 2\<rparr>"]
    by (simp add: sample_holding_def next_guard_def lock_acquire_def guard_update_def)
  from 1 2 3 4 have "gstep\<^sup>*\<^sup>* (SubscriptionGuards_init, []) (?s (Some 0) [1] 2, [?t 1 False, ?t 0 True])"
    by (meson converse_rtranclp_into_rtranclp rtranclp.rtrancl_refl)
  then show ?thesis by blast
qed

theorem guards_exclusive_witness:
  "\<exists>s. gstep\<^sup>*\<^sup>* (SubscriptionGuards_init, []) (s, [sample_holding 1 False, sample_holding 0 True])
     \<and> fst ` set (gs_guards s) = {[97]}"
proof -
  obtain s where s: "gstep\<^sup>*\<^sup>* (SubscriptionGuards_init, []) (s, [sample_holding 1 False, sample_holding 0 True])"
    using sample_guards by blast
  with guards_exclusive [OF s] show ?thesis by (auto simp: sample_holding_def)
qed

text \<open>
  C25: no deadlock.  Since every task takes its locks in the order of the filters, whenever a task
  waits for a filter, some task holds all it asked for or has yet to ask for the next, or else a
  waiting task has its turn on a free lock.
\<close>

theorem guards_no_deadlock:
  assumes "gstep\<^sup>*\<^sup>* (SubscriptionGuards_init, []) (s, ts)" and "h \<in> set ts" and "hl_waiting h"
  shows "(\<exists>h' \<in> set ts. hl_entries h' \<noteq> [] \<and> \<not> hl_waiting h')
    \<or> (\<exists>i ws. i < length ts \<and> hl_waiting (ts ! i) \<and> sg_holder (gs_heap s (next_guard (ts ! i))) = None
         \<and> sg_waiters (gs_heap s (next_guard (ts ! i))) = i # ws)"
proof -
  have "guards_inv (s, ts)" using gsteps_inv [OF assms(1) guards_inv_init] .
  then have inv: "dict_ok s" "locks_ok (gs_heap s) ts" "\<forall>h \<in> set ts. task_ok (set (gs_guards s)) h"
    by (simp_all add: guards_inv_def)
  define awaited where "awaited h = fst (hl_entries h ! hl_acquired h)" for h :: holding
  let ?W = "awaited ` {h \<in> set ts. hl_waiting h}"
  have W: "finite ?W" "?W \<noteq> {}" using assms(2,3) by auto
  obtain h1 where h1: "h1 \<in> set ts" "hl_waiting h1" "awaited h1 = Max ?W" using Max_in [OF W] by auto
  then obtain i where i: "i < length ts" "ts ! i = h1" by (auto simp: in_set_conv_nth)
  let ?g = "next_guard h1"
  have i_waits: "i \<in> set (sg_waiters (gs_heap s ?g))" using inv(2) h1(2) i by (simp add: locks_ok_def)
  have t1: "task_ok (set (gs_guards s)) h1" using inv(3) h1(1) by blast
  then have "hl_acquired h1 < length (hl_entries h1)" using h1(2) by (simp add: task_ok_def)
  then have e1: "(awaited h1, ?g) \<in> set (gs_guards s)"
    using nth_mem t1 unfolding task_ok_def awaited_def next_guard_def by fastforce
  show ?thesis
  proof (cases "sg_holder (gs_heap s ?g)")
    case None
    obtain j ws where j: "sg_waiters (gs_heap s ?g) = j # ws" using i_waits by (cases "sg_waiters (gs_heap s ?g)") auto
    then have "j \<in> set (sg_waiters (gs_heap s ?g))" by simp
    then have "j < length ts \<and> hl_waiting (ts ! j) \<and> next_guard (ts ! j) = ?g"
      using inv(2) unfolding locks_ok_def by blast
    with None j show ?thesis by metis
  next
    case (Some j)
    then have "j < length ts \<and> ?g \<in> holds (ts ! j)" using inv(2) unfolding locks_ok_def by blast
    then have j: "j < length ts" "?g \<in> holds (ts ! j)" by auto
    let ?h = "ts ! j"
    have tj: "task_ok (set (gs_guards s)) ?h" using inv(3) j(1) by simp
    obtain f k where k: "k < hl_acquired ?h" "k < length (hl_entries ?h)" "hl_entries ?h ! k = (f, ?g)"
      using j(2) by (auto simp: holds_def in_set_conv_nth)
    then have "(f, ?g) \<in> set (gs_guards s)" using tj nth_mem [OF k(2)] by (auto simp: task_ok_def)
    then have f: "f = awaited h1" using dict_okD(3) [OF inv(1) e1] by blast
    have "\<not> hl_waiting ?h"
    proof
      assume w: "hl_waiting ?h"
      then have "hl_acquired ?h < length (hl_entries ?h)" using tj by (simp add: task_ok_def)
      then have "map fst (hl_entries ?h) ! k < map fst (hl_entries ?h) ! hl_acquired ?h"
        using tj k(1) unfolding task_ok_def by (intro sorted_wrt_nth_less) auto
      then have "awaited h1 < awaited ?h" using k \<open>hl_acquired ?h < _\<close> f by (simp add: awaited_def)
      moreover have "awaited ?h \<le> Max ?W" using w j(1) W(1) by (intro Max_ge) auto
      ultimately show False using h1(3) by simp
    qed
    moreover have "hl_entries ?h \<noteq> []" using k(2) by auto
    ultimately show ?thesis using j(1) nth_mem by blast
  qed
qed

theorem guards_no_deadlock_witness:
  "\<exists>s. gstep\<^sup>*\<^sup>* (SubscriptionGuards_init, []) (s, [sample_holding 1 False, sample_holding 0 True])
     \<and> (sg_holder (gs_heap s 0) = None \<or> \<not> hl_waiting (sample_holding 1 False))"
proof -
  obtain s where s: "gstep\<^sup>*\<^sup>* (SubscriptionGuards_init, []) (s, [sample_holding 1 False, sample_holding 0 True])"
    using sample_guards by blast
  with guards_no_deadlock [OF s, of "sample_holding 0 True"] show ?thesis
    by (auto simp: sample_holding_def)
qed

end
