(* ===== verification/Outbound.thy ===== *)
theory Outbound
  imports Packet_Ids Codec_Correct
begin

text \<open>
  The requesting half of \<open>protocol.py\<close> with its part of \<open>SessionState\<close> (\<open>state.py\<close>): publishing with
  QoS 0, 1 and 2, SUBSCRIBE and UNSUBSCRIBE, pings, the handlers of the broker's answers, and what
  happens to those who wait when the connection ends.

  An asyncio future is a number; \<open>ob_futures\<close> gives its state.  A coroutine runs up to its await of
  the transport or of its future; what is under way then is an \<open>operation\<close>, and \<open>ostep\<close> interleaves
  activities with the packets of the broker, cancellations, failing writes and the end of the
  connection.  \<open>Wire_Error\<close> wraps what the codec raises; \<open>No_Return\<close> stands for the search of the id
  pool not ending, and is shown not to happen.
\<close>

section \<open>State\<close>

datatype mqtt_error =
    MQTTConnectError int "ConnAckProperties option"
  | MQTTProtocolError string
  | MQTTQoSExceededError int int
  | MQTTRetainNotAvailableError
  | MQTTDisconnectedError string
  | MQTTTimeoutError string
  | MQTTSubscribeError "(pystr \<times> int) list"
  | MQTTPublishError int "string option" "pystr option"
  | Runtime_Error pool_error
  | Wire_Error py_error
  | InvalidStateError
  | CancelledError
  | No_Return

datatype reply = Waiting | Answered packet | Failed mqtt_error | Cancelled

record QoS1Flight =
  q1_packet_id :: int
  q1_publish :: Publish
  q1_future :: nat

datatype OutboundQoS2State = PENDING_PUBREC | PENDING_PUBCOMP

record OutboundQoS2Flight =
  o2_packet_id :: int
  o2_publish :: Publish
  o2_state :: OutboundQoS2State
  o2_future :: nat

record outbound =
  ob_version :: version
  ob_packet_ids :: PacketIdPool
  ob_inflight_qos1 :: "(int \<times> QoS1Flight) list"
  ob_inflight_qos2_out :: "(int \<times> OutboundQoS2Flight) list"
  ob_pending_subs :: "(int \<times> nat) list"
  ob_pending_unsubs :: "(int \<times> nat) list"
  ob_ping_waiters :: "nat list"
  ob_futures :: "nat \<Rightarrow> reply"
  ob_fresh :: nat
  ob_dead :: bool
  ob_death_cause :: "mqtt_error option"
  ob_max_publish_qos :: QoS
  ob_retain_available :: bool
  ob_sent :: "packet list"

definition outbound_init :: "version \<Rightarrow> outbound" where
  "outbound_init version =
     \<lparr>ob_version = version, ob_packet_ids = PacketIdPool_init, ob_inflight_qos1 = [],
      ob_inflight_qos2_out = [], ob_pending_subs = [], ob_pending_unsubs = [], ob_ping_waiters = [],
      ob_futures = \<lambda>_. Cancelled, ob_fresh = 0, ob_dead = False, ob_death_cause = None,
      ob_max_publish_qos = EXACTLY_ONCE, ob_retain_available = True, ob_sent = []\<rparr>"

text \<open>\<open>SessionState.clear\<close> for the part modelled here; dropped futures keep their state.\<close>

definition session_clear :: "outbound \<Rightarrow> outbound" where
  "session_clear s =
     s\<lparr>ob_packet_ids := PacketIdPool_init, ob_inflight_qos1 := [], ob_inflight_qos2_out := [],
       ob_pending_subs := [], ob_pending_unsubs := []\<rparr>"

section \<open>Rejections\<close>

definition PUBLISH_REASON_NAMES :: "(int \<times> string) list" where
  "PUBLISH_REASON_NAMES =
     [(0x00, ''Success''), (0x10, ''No matching subscribers''), (0x80, ''Unspecified error''),
      (0x83, ''Implementation specific error''), (0x87, ''Not authorized''), (0x90, ''Topic Name invalid''),
      (0x91, ''Packet Identifier in use''), (0x97, ''Quota exceeded''), (0x99, ''Payload format invalid'')]"

definition publish_error :: "PubAckVariant \<Rightarrow> mqtt_error" where
  "publish_error packet =
     MQTTPublishError (pav_reason_code packet) (map_of PUBLISH_REASON_NAMES (pav_reason_code packet))
       (case pav_properties packet of None \<Rightarrow> None | Some p \<Rightarrow> pa_reason_string p)"

definition raise_on_rejected_puback :: "PubAckVariant \<Rightarrow> mqtt_error option" where
  "raise_on_rejected_puback puback = (if pav_reason_code puback \<ge> 0x80 then Some (publish_error puback) else None)"

definition rejected_filters :: "SubscriptionRequest list \<Rightarrow> SubAck \<Rightarrow> (pystr \<times> int) list" where
  "rejected_filters filters suback =
     fold (\<lambda>(req, code) d. if code \<ge> 0x80 then AList.update (sr_topic_filter req) code d else d)
       (zip filters (sback_return_codes suback)) []"

definition raise_on_rejected_filters :: "SubscriptionRequest list \<Rightarrow> SubAck \<Rightarrow> mqtt_error option" where
  "raise_on_rejected_filters filters suback =
     (let failures = rejected_filters filters suback in
      if failures \<noteq> [] then Some (MQTTSubscribeError failures) else None)"

definition UNSUBACK_REASON_NAMES :: "(int \<times> string) list" where
  "UNSUBACK_REASON_NAMES =
     [(0x80, ''Unspecified error''), (0x83, ''Implementation specific error''), (0x87, ''Not authorized''),
      (0x8F, ''Topic Filter invalid''), (0x91, ''Packet Identifier in use'')]"

text \<open>
  What \<open>_warn_on_rejected_unsubscribe\<close> logs, if it does: each rejected filter with its code and the name of
  the code, and the reason string unless it is missing or empty.
\<close>

definition warn_on_rejected_unsubscribe ::
  "pystr list \<Rightarrow> UnsubAck \<Rightarrow> ((pystr \<times> int \<times> string) list \<times> pystr option) option" where
  "warn_on_rejected_unsubscribe filters unsuback =
     (let rejected = map (\<lambda>(f, code). (f, code, case map_of UNSUBACK_REASON_NAMES code of None \<Rightarrow> ''Unknown'' | Some n \<Rightarrow> n))
            (filter (\<lambda>(f, code). code \<ge> 0x80) (zip filters (unsack_reason_codes unsuback)));
          reason_string = (case unsack_properties unsuback of None \<Rightarrow> None | Some p \<Rightarrow> ua_reason_string p)
      in if rejected = [] then None
         else Some (rejected, if reason_string = Some [] then None else reason_string))"

section \<open>Steps that the operations share\<close>

definition ensure_alive :: "outbound \<Rightarrow> mqtt_error option" where
  "ensure_alive s = (if ob_dead s then Some (MQTTDisconnectedError ''Connection lost'') else None)"

text \<open>\<open>_send(_encode(packet))\<close> up to the point where the bytes are with the transport.\<close>

definition send :: "packet \<Rightarrow> outbound \<Rightarrow> mqtt_error option \<times> outbound" where
  "send packet s =
     (case encode packet (ob_version s) of
        Inl e \<Rightarrow> (Some (Wire_Error e), s)
      | Inr bytes \<Rightarrow> (None, s\<lparr>ob_sent := ob_sent s @ [packet]\<rparr>))"

definition create_future :: "outbound \<Rightarrow> nat \<times> outbound" where
  "create_future s =
     (ob_fresh s, s\<lparr>ob_futures := (ob_futures s)(ob_fresh s := Waiting), ob_fresh := Suc (ob_fresh s)\<rparr>)"

definition acquire_id :: "outbound \<Rightarrow> (mqtt_error + int) \<times> outbound" where
  "acquire_id s =
     (case acquire (ob_packet_ids s) of
        None \<Rightarrow> (Inl No_Return, s)
      | Some (Inl e) \<Rightarrow> (Inl (Runtime_Error e), s)
      | Some (Inr (pid, pool)) \<Rightarrow> (Inr pid, s\<lparr>ob_packet_ids := pool\<rparr>))"

definition release_id :: "int \<Rightarrow> outbound \<Rightarrow> outbound" where
  "release_id pid s = s\<lparr>ob_packet_ids := release pid (ob_packet_ids s)\<rparr>"

text \<open>Resolve a future that may be done already, as the handlers do after \<open>if not future.done()\<close>.\<close>

definition resolve :: "nat \<Rightarrow> reply \<Rightarrow> outbound \<Rightarrow> outbound" where
  "resolve f r s = (if ob_futures s f = Waiting then s\<lparr>ob_futures := (ob_futures s)(f := r)\<rparr> else s)"

section \<open>Operations\<close>

datatype operation =
    Publishing int nat
  | Publishing2 int nat
  | Subscribing int nat "SubscriptionRequest list"
  | Unsubscribing int nat "pystr list"
  | Pinging nat

definition publish_qos0 :: "Publish \<Rightarrow> outbound \<Rightarrow> (mqtt_error + operation option) \<times> outbound" where
  "publish_qos0 packet s =
     (case send (Publish packet) s of
        (Some e, s') \<Rightarrow> (Inl e, s')
      | (None, s') \<Rightarrow> (Inr None, s'))"

definition publish_qos1 :: "Publish \<Rightarrow> outbound \<Rightarrow> (mqtt_error + operation option) \<times> outbound" where
  "publish_qos1 packet s =
     (case acquire_id s of
        (Inl e, s1) \<Rightarrow> (Inl e, s1)
      | (Inr pid, s1) \<Rightarrow>
          let packet = packet\<lparr>pub_packet_id := Some pid\<rparr>;
              (f, s2) = create_future s1;
              flight = \<lparr>q1_packet_id = pid, q1_publish = packet, q1_future = f\<rparr>;
              s3 = s2\<lparr>ob_inflight_qos1 := AList.update pid flight (ob_inflight_qos1 s2)\<rparr>
          in case send (Publish packet) s3 of
               (Some e, s4) \<Rightarrow> (Inl e, s4)
             | (None, s4) \<Rightarrow> (Inr (Some (Publishing pid f)), s4))"

definition publish_qos2 :: "Publish \<Rightarrow> outbound \<Rightarrow> (mqtt_error + operation option) \<times> outbound" where
  "publish_qos2 packet s =
     (case acquire_id s of
        (Inl e, s1) \<Rightarrow> (Inl e, s1)
      | (Inr pid, s1) \<Rightarrow>
          let packet = packet\<lparr>pub_packet_id := Some pid\<rparr>;
              (f, s2) = create_future s1;
              flight = \<lparr>o2_packet_id = pid, o2_publish = packet, o2_state = PENDING_PUBREC, o2_future = f\<rparr>;
              s3 = s2\<lparr>ob_inflight_qos2_out := AList.update pid flight (ob_inflight_qos2_out s2)\<rparr>
          in case send (Publish packet) s3 of
               (Some e, s4) \<Rightarrow> (Inl e, s4)
             | (None, s4) \<Rightarrow> (Inr (Some (Publishing2 pid f)), s4))"

definition publish :: "Publish \<Rightarrow> outbound \<Rightarrow> (mqtt_error + operation option) \<times> outbound" where
  "publish packet s =
     (case ensure_alive s of
        Some e \<Rightarrow> (Inl e, s)
      | None \<Rightarrow>
          if qos_value (pub_qos packet) > qos_value (ob_max_publish_qos s)
          then (Inl (MQTTQoSExceededError (qos_value (pub_qos packet)) (qos_value (ob_max_publish_qos s))), s)
          else if pub_retain packet \<and> \<not> ob_retain_available s then (Inl MQTTRetainNotAvailableError, s)
          else case pub_qos packet of
                 AT_MOST_ONCE \<Rightarrow> publish_qos0 packet s
               | AT_LEAST_ONCE \<Rightarrow> publish_qos1 packet s
               | EXACTLY_ONCE \<Rightarrow> publish_qos2 packet s)"

text \<open>\<open>_send_subscribe\<close> and \<open>_send_unsubscribe\<close>; \<open>sub_finally\<close> and \<open>unsub_finally\<close> are their \<open>finally\<close> blocks.\<close>

definition sub_finally :: "int \<Rightarrow> outbound \<Rightarrow> outbound" where
  "sub_finally pid s = release_id pid (s\<lparr>ob_pending_subs := AList.delete pid (ob_pending_subs s)\<rparr>)"

definition unsub_finally :: "int \<Rightarrow> outbound \<Rightarrow> outbound" where
  "unsub_finally pid s = release_id pid (s\<lparr>ob_pending_unsubs := AList.delete pid (ob_pending_unsubs s)\<rparr>)"

definition subscribe_properties :: "int option \<Rightarrow> SubscribeProperties option" where
  "subscribe_properties subscription_identifier =
     map_option (\<lambda>i. \<lparr>sp_subscription_identifier = Some i, sp_user_properties = []\<rparr>) subscription_identifier"

definition send_subscribe ::
  "SubscriptionRequest list \<Rightarrow> int option \<Rightarrow> outbound \<Rightarrow> (mqtt_error + operation) \<times> outbound" where
  "send_subscribe filters subscription_identifier s =
     (case ensure_alive s of
        Some e \<Rightarrow> (Inl e, s)
      | None \<Rightarrow>
     (case acquire_id s of
        (Inl e, s1) \<Rightarrow> (Inl e, s1)
      | (Inr pid, s1) \<Rightarrow>
          let (f, s2) = create_future s1;
              s3 = s2\<lparr>ob_pending_subs := AList.update pid f (ob_pending_subs s2)\<rparr>;
              packet = \<lparr>sub_packet_id = pid, sub_subscriptions = filters,
                        sub_properties = subscribe_properties subscription_identifier\<rparr>
          in case send (Subscribe packet) s3 of
               (Some e, s4) \<Rightarrow> (Inl e, sub_finally pid s4)
             | (None, s4) \<Rightarrow> (Inr (Subscribing pid f filters), s4)))"

definition send_unsubscribe :: "pystr list \<Rightarrow> outbound \<Rightarrow> (mqtt_error + operation) \<times> outbound" where
  "send_unsubscribe filters s =
     (case ensure_alive s of
        Some e \<Rightarrow> (Inl e, s)
      | None \<Rightarrow>
     (case acquire_id s of
        (Inl e, s1) \<Rightarrow> (Inl e, s1)
      | (Inr pid, s1) \<Rightarrow>
          let (f, s2) = create_future s1;
              s3 = s2\<lparr>ob_pending_unsubs := AList.update pid f (ob_pending_unsubs s2)\<rparr>;
              packet = \<lparr>uns_packet_id = pid, uns_topic_filters = filters, uns_properties = None\<rparr>
          in case send (Unsubscribe packet) s3 of
               (Some e, s4) \<Rightarrow> (Inl e, unsub_finally pid s4)
             | (None, s4) \<Rightarrow> (Inr (Unsubscribing pid f filters), s4)))"

definition ping :: "outbound \<Rightarrow> (mqtt_error + operation) \<times> outbound" where
  "ping s =
     (let (f, s1) = create_future s;
          s2 = s1\<lparr>ob_ping_waiters := ob_ping_waiters s1 @ [f]\<rparr>
      in case send PingReq s2 of
           (Some e, s3) \<Rightarrow> (Inl e, s3)
         | (None, s3) \<Rightarrow> (Inr (Pinging f), s3))"

definition send_auth :: "Auth \<Rightarrow> outbound \<Rightarrow> mqtt_error option \<times> outbound" where
  "send_auth packet s =
     (if ob_version s \<noteq> V50
      then (Some (Runtime_Error (RuntimeError ''Feature is not supported for mqtt protocol version'')), s)
      else send (Auth packet) s)"

text \<open>How an await of a future ends, once it is done.\<close>

definition await_reply :: "nat \<Rightarrow> outbound \<Rightarrow> (mqtt_error + packet) option" where
  "await_reply f s =
     (case ob_futures s f of
        Waiting \<Rightarrow> None
      | Answered packet \<Rightarrow> Some (Inr packet)
      | Failed e \<Rightarrow> Some (Inl e)
      | Cancelled \<Rightarrow> Some (Inl CancelledError))"

text \<open>The rest of an operation after its future is done: what it returns or raises.\<close>

definition activity_future :: "operation \<Rightarrow> nat" where
  "activity_future act =
     (case act of Publishing pid f \<Rightarrow> f | Publishing2 pid f \<Rightarrow> f | Subscribing pid f reqs \<Rightarrow> f
      | Unsubscribing pid f flts \<Rightarrow> f | Pinging f \<Rightarrow> f)"

definition check_reply :: "operation \<Rightarrow> packet \<Rightarrow> mqtt_error option" where
  "check_reply act packet =
     (case (act, packet) of
        (Publishing pid f, PubAck puback) \<Rightarrow> raise_on_rejected_puback puback
      | (Subscribing pid f filters, SubAck suback) \<Rightarrow> raise_on_rejected_filters filters suback
      | _ \<Rightarrow> None)"

definition activity_finally :: "operation \<Rightarrow> outbound \<Rightarrow> outbound" where
  "activity_finally act s =
     (case act of
        Subscribing pid f filters \<Rightarrow> sub_finally pid s
      | Unsubscribing pid f filters \<Rightarrow> unsub_finally pid s
      | _ \<Rightarrow> s)"

definition finish :: "operation \<Rightarrow> outbound \<Rightarrow> ((mqtt_error + packet) \<times> outbound) option" where
  "finish act s =
     (case await_reply (activity_future act) s of
        None \<Rightarrow> None
      | Some (Inl e) \<Rightarrow> Some (Inl e, activity_finally act s)
      | Some (Inr packet) \<Rightarrow>
          Some (case check_reply act packet of Some e \<Rightarrow> Inl e | None \<Rightarrow> Inr packet, activity_finally act s))"

text \<open>A ping that times out takes its waiter off the list; \<open>list.remove\<close> raises when it is not there.\<close>

definition ping_timeout :: "nat \<Rightarrow> outbound \<Rightarrow> mqtt_error \<times> outbound" where
  "ping_timeout f s =
     (if f \<in> set (ob_ping_waiters s)
      then (MQTTTimeoutError ''PINGRESP not received within timeout'',
            s\<lparr>ob_ping_waiters := remove1 f (ob_ping_waiters s)\<rparr>)
      else (Wire_Error (ValueError ''list.remove(x): x not in list''), s))"

section \<open>Handlers\<close>

definition unknown_id :: "string \<Rightarrow> mqtt_error" where
  "unknown_id what = MQTTProtocolError (what @ '' for unknown packet_id'')"

definition handle_puback :: "PubAckVariant \<Rightarrow> outbound \<Rightarrow> mqtt_error option \<times> outbound" where
  "handle_puback packet s =
     (let pid = pav_packet_id packet in
      case map_of (ob_inflight_qos1 s) pid of
        None \<Rightarrow> (Some (unknown_id ''PUBACK''), s)
      | Some flight \<Rightarrow>
          (None, resolve (q1_future flight) (Answered (PubAck packet))
             (release_id pid (s\<lparr>ob_inflight_qos1 := AList.delete pid (ob_inflight_qos1 s)\<rparr>))))"

definition handle_pubrec :: "PubAckVariant \<Rightarrow> outbound \<Rightarrow> mqtt_error option \<times> outbound" where
  "handle_pubrec packet s =
     (let pid = pav_packet_id packet in
      case map_of (ob_inflight_qos2_out s) pid of
        None \<Rightarrow> (Some (unknown_id ''PUBREC''), s)
      | Some flight \<Rightarrow>
          if o2_state flight \<noteq> PENDING_PUBREC then (Some (MQTTProtocolError ''PUBREC in wrong state''), s)
          else if pav_reason_code packet \<ge> 0x80
          then (None, resolve (o2_future flight) (Failed (publish_error packet))
                 (release_id pid (s\<lparr>ob_inflight_qos2_out := AList.delete pid (ob_inflight_qos2_out s)\<rparr>)))
          else send (PubRel \<lparr>pav_packet_id = pid, pav_reason_code = 0, pav_properties = None\<rparr>)
                 (s\<lparr>ob_inflight_qos2_out :=
                      AList.update pid (flight\<lparr>o2_state := PENDING_PUBCOMP\<rparr>) (ob_inflight_qos2_out s)\<rparr>))"

definition handle_pubcomp :: "PubAckVariant \<Rightarrow> outbound \<Rightarrow> mqtt_error option \<times> outbound" where
  "handle_pubcomp packet s =
     (let pid = pav_packet_id packet in
      case map_of (ob_inflight_qos2_out s) pid of
        None \<Rightarrow> (Some (unknown_id ''PUBCOMP''), s)
      | Some flight \<Rightarrow>
          (None, resolve (o2_future flight) (Answered (PubComp packet))
             (release_id pid (s\<lparr>ob_inflight_qos2_out := AList.delete pid (ob_inflight_qos2_out s)\<rparr>))))"

text \<open>\<open>future.set_result\<close>, which raises on a future that is done.\<close>

definition set_result :: "nat \<Rightarrow> packet \<Rightarrow> outbound \<Rightarrow> mqtt_error option \<times> outbound" where
  "set_result f packet s =
     (if ob_futures s f = Waiting then (None, resolve f (Answered packet) s) else (Some InvalidStateError, s))"

definition handle_suback :: "SubAck \<Rightarrow> outbound \<Rightarrow> mqtt_error option \<times> outbound" where
  "handle_suback packet s =
     (case map_of (ob_pending_subs s) (sback_packet_id packet) of
        None \<Rightarrow> (Some (unknown_id ''SUBACK''), s)
      | Some f \<Rightarrow> set_result f (SubAck packet) s)"

definition handle_unsuback :: "UnsubAck \<Rightarrow> outbound \<Rightarrow> mqtt_error option \<times> outbound" where
  "handle_unsuback packet s =
     (case map_of (ob_pending_unsubs s) (unsack_packet_id packet) of
        None \<Rightarrow> (Some (unknown_id ''UNSUBACK''), s)
      | Some f \<Rightarrow> set_result f (UnsubAck packet) s)"

definition handle_pingresp :: "outbound \<Rightarrow> outbound" where
  "handle_pingresp s =
     (case ob_ping_waiters s of
        [] \<Rightarrow> s
      | f # fs \<Rightarrow> resolve f (Answered PingResp) (s\<lparr>ob_ping_waiters := fs\<rparr>))"

text \<open>The branches of \<open>_dispatch\<close> that do not lead to the inbound flow.\<close>

definition dispatch_outbound :: "packet \<Rightarrow> outbound \<Rightarrow> mqtt_error option \<times> outbound" where
  "dispatch_outbound packet s =
     (case packet of
        PubAck p \<Rightarrow> handle_puback p s
      | PubRec p \<Rightarrow> handle_pubrec p s
      | PubComp p \<Rightarrow> handle_pubcomp p s
      | SubAck p \<Rightarrow> handle_suback p s
      | UnsubAck p \<Rightarrow> handle_unsuback p s
      | PingResp \<Rightarrow> (None, handle_pingresp s)
      | Disconnect p \<Rightarrow> (Some (MQTTDisconnectedError ''Broker sent DISCONNECT''), s)
      | Auth p \<Rightarrow>
          if ob_version s \<noteq> V50
          then (Some (MQTTProtocolError ''Received AUTH packet in MQTT 3.1.1 session''), s) else (None, s)
      | _ \<Rightarrow> (Some (MQTTProtocolError ''Unexpected packet from broker''), s))"

section \<open>The end of a connection\<close>

definition awaited_futures :: "outbound \<Rightarrow> nat list" where
  "awaited_futures s =
     map snd (ob_pending_subs s) @ map snd (ob_pending_unsubs s)
     @ map (q1_future \<circ> snd) (ob_inflight_qos1 s) @ map (o2_future \<circ> snd) (ob_inflight_qos2_out s)
     @ ob_ping_waiters s"

definition cancel_pending_replies :: "outbound \<Rightarrow> outbound" where
  "cancel_pending_replies s =
     (fold (\<lambda>f. resolve f (Failed (MQTTDisconnectedError ''Connection lost''))) (awaited_futures s) s)
       \<lparr>ob_ping_waiters := []\<rparr>"

text \<open>\<open>run\<close> when its loops have ended, with the exception that ended them, if there was one.\<close>

definition run_ends :: "mqtt_error option \<Rightarrow> outbound \<Rightarrow> outbound" where
  "run_ends cause s =
     cancel_pending_replies
       (s\<lparr>ob_death_cause := (case cause of None \<Rightarrow> ob_death_cause s | Some e \<Rightarrow> Some e), ob_dead := True\<rparr>)"

section \<open>Interleavings\<close>

type_synonym out_state = "outbound \<times> operation list"

definition is_ping :: "operation \<Rightarrow> bool" where
  "is_ping act = (case act of Pinging f \<Rightarrow> True | _ \<Rightarrow> False)"

inductive ostep :: "out_state \<Rightarrow> out_state \<Rightarrow> bool" where
  publish_waits: "publish p s = (Inr (Some act), s') \<Longrightarrow> ostep (s, acts) (s', act # acts)"
| publish_over: "publish p s = (Inr None, s') \<Longrightarrow> ostep (s, acts) (s', acts)"
| publish_fails: "publish p s = (Inl e, s') \<Longrightarrow> ostep (s, acts) (s', acts)"
| subscribe: "send_subscribe reqs ident s = (Inr act, s') \<Longrightarrow> ostep (s, acts) (s', act # acts)"
| subscribe_fails: "send_subscribe reqs ident s = (Inl e, s') \<Longrightarrow> ostep (s, acts) (s', acts)"
| unsubscribe: "send_unsubscribe flts s = (Inr act, s') \<Longrightarrow> ostep (s, acts) (s', act # acts)"
| unsubscribe_fails: "send_unsubscribe flts s = (Inl e, s') \<Longrightarrow> ostep (s, acts) (s', acts)"
| ping: "ping s = (Inr act, s') \<Longrightarrow> ostep (s, acts) (s', act # acts)"
| ping_fails: "ping s = (Inl e, s') \<Longrightarrow> ostep (s, acts) (s', acts)"
| ping_times_out: "ob_futures s f = Waiting \<Longrightarrow> ping_timeout f s = (e, s') \<Longrightarrow>
    ostep (s, as @ Pinging f # bs) (s', as @ bs)"
| write_fails: "ostep (s, as @ act # bs) (activity_finally act s, as @ bs)"
| cancelled: "\<not> is_ping act \<Longrightarrow>
    ostep (s, as @ act # bs) (resolve (activity_future act) Cancelled s, as @ act # bs)"
| ping_cancelled: "ostep (s, as @ Pinging f # bs) (s, as @ bs)"
| finished: "finish act s = Some (res, s') \<Longrightarrow> ostep (s, as @ act # bs) (s', as @ bs)"
| received: "\<not> ob_dead s \<Longrightarrow> dispatch_outbound packet s = (err, s') \<Longrightarrow> ostep (s, acts) (s', acts)"
| negotiated: "ostep (s, acts) (s\<lparr>ob_max_publish_qos := q, ob_retain_available := r\<rparr>, acts)"
| ends: "ostep (s, acts) (run_ends cause s, acts)"

section \<open>The invariant\<close>

text \<open>
  Who waits under which packet id for which future, and the answers each kind of request may get.
\<close>

datatype kind = KPublish | KPublish2 | KSubscribe | KUnsubscribe

definition waits :: "outbound \<Rightarrow> (kind \<times> int \<times> nat) set" where
  "waits s = {(k, pid, f).
       k = KPublish \<and> (\<exists>fl. (pid, fl) \<in> set (ob_inflight_qos1 s) \<and> q1_future fl = f)
     \<or> k = KPublish2 \<and> (\<exists>fl. (pid, fl) \<in> set (ob_inflight_qos2_out s) \<and> o2_future fl = f)
     \<or> k = KSubscribe \<and> (pid, f) \<in> set (ob_pending_subs s)
     \<or> k = KUnsubscribe \<and> (pid, f) \<in> set (ob_pending_unsubs s)}"

fun answers :: "kind \<Rightarrow> int \<Rightarrow> packet \<Rightarrow> bool" where
  "answers KPublish pid packet = (case packet of PubAck a \<Rightarrow> pav_packet_id a = pid | _ \<Rightarrow> False)"
| "answers KPublish2 pid packet = (case packet of PubComp a \<Rightarrow> pav_packet_id a = pid | _ \<Rightarrow> False)"
| "answers KSubscribe pid packet = (case packet of SubAck a \<Rightarrow> sback_packet_id a = pid | _ \<Rightarrow> False)"
| "answers KUnsubscribe pid packet = (case packet of UnsubAck a \<Rightarrow> unsack_packet_id a = pid | _ \<Rightarrow> False)"

fun request_of :: "operation \<Rightarrow> (kind \<times> int \<times> nat) option" where
  "request_of (Publishing pid f) = Some (KPublish, pid, f)"
| "request_of (Publishing2 pid f) = Some (KPublish2, pid, f)"
| "request_of (Subscribing pid f reqs) = Some (KSubscribe, pid, f)"
| "request_of (Unsubscribing pid f flts) = Some (KUnsubscribe, pid, f)"
| "request_of (Pinging f) = None"

definition keys_ok :: "outbound \<Rightarrow> bool" where
  "keys_ok s \<longleftrightarrow> distinct (map fst (ob_inflight_qos1 s)) \<and> distinct (map fst (ob_inflight_qos2_out s))
     \<and> distinct (map fst (ob_pending_subs s)) \<and> distinct (map fst (ob_pending_unsubs s))"

text \<open>A packet id in use has one waiter, and a future serves one id or one ping.\<close>

definition waits_ok :: "outbound \<Rightarrow> bool" where
  "waits_ok s \<longleftrightarrow>
     (\<forall>k pid f k' f'. (k, pid, f) \<in> waits s \<longrightarrow> (k', pid, f') \<in> waits s \<longrightarrow> k' = k \<and> f' = f)
     \<and> (\<forall>k pid f k' pid'. (k, pid, f) \<in> waits s \<longrightarrow> (k', pid', f) \<in> waits s \<longrightarrow> k' = k \<and> pid' = pid)
     \<and> (\<forall>k pid f. (k, pid, f) \<in> waits s \<longrightarrow> f < ob_fresh s \<and> f \<notin> set (ob_ping_waiters s))
     \<and> (\<forall>f \<in> set (ob_ping_waiters s). f < ob_fresh s) \<and> distinct (ob_ping_waiters s)"

text \<open>What an operation knows: its future is its own, and answered, if at all, by its own answer.\<close>

definition request_ok :: "outbound \<Rightarrow> kind \<Rightarrow> int \<Rightarrow> nat \<Rightarrow> bool" where
  "request_ok s k pid f \<longleftrightarrow> f < ob_fresh s \<and> f \<notin> set (ob_ping_waiters s)
     \<and> (\<forall>k' pid'. (k', pid', f) \<in> waits s \<longrightarrow> k' = k \<and> pid' = pid)
     \<and> (ob_futures s f = Waiting \<longrightarrow> (k, pid, f) \<in> waits s)
     \<and> (\<forall>packet. ob_futures s f = Answered packet \<longrightarrow> answers k pid packet)"

definition ping_ok :: "outbound \<Rightarrow> nat \<Rightarrow> bool" where
  "ping_ok s f \<longleftrightarrow> f < ob_fresh s \<and> (\<forall>k pid. (k, pid, f) \<notin> waits s)
     \<and> (ob_futures s f = Waiting \<longrightarrow> f \<in> set (ob_ping_waiters s))
     \<and> (\<forall>packet. ob_futures s f = Answered packet \<longrightarrow> packet = PingResp)"

fun activity_ok :: "outbound \<Rightarrow> operation \<Rightarrow> bool" where
  "activity_ok s (Publishing pid f) = request_ok s KPublish pid f"
| "activity_ok s (Publishing2 pid f) = request_ok s KPublish2 pid f"
| "activity_ok s (Subscribing pid f reqs) = (request_ok s KSubscribe pid f \<and> (KSubscribe, pid, f) \<in> waits s)"
| "activity_ok s (Unsubscribing pid f flts) = (request_ok s KUnsubscribe pid f \<and> (KUnsubscribe, pid, f) \<in> waits s)"
| "activity_ok s (Pinging f) = ping_ok s f"

definition out_inv :: "out_state \<Rightarrow> bool" where
  "out_inv st \<longleftrightarrow> (case st of (s, acts) \<Rightarrow>
     keys_ok s \<and> waits_ok s \<and> pool_inv (ob_packet_ids s)
     \<and> pool_in_use (ob_packet_ids s) = (fst \<circ> snd) ` waits s
     \<and> (\<forall>act \<in> set acts. activity_ok s act) \<and> distinct (map activity_future acts)
     \<and> (\<forall>pid f. (KSubscribe, pid, f) \<in> waits s \<longrightarrow> (\<exists>reqs. Subscribing pid f reqs \<in> set acts))
     \<and> (\<forall>pid f. (KUnsubscribe, pid, f) \<in> waits s \<longrightarrow> (\<exists>flts. Unsubscribing pid f flts \<in> set acts))
     \<and> (ob_dead s \<longrightarrow> (\<forall>k pid f. (k, pid, f) \<in> waits s \<longrightarrow> ob_futures s f \<noteq> Waiting)))"

lemma waits_mem:
  "(KPublish, pid, f) \<in> waits s \<longleftrightarrow> (\<exists>fl. (pid, fl) \<in> set (ob_inflight_qos1 s) \<and> q1_future fl = f)"
  "(KPublish2, pid, f) \<in> waits s \<longleftrightarrow> (\<exists>fl. (pid, fl) \<in> set (ob_inflight_qos2_out s) \<and> o2_future fl = f)"
  "(KSubscribe, pid, f) \<in> waits s \<longleftrightarrow> (pid, f) \<in> set (ob_pending_subs s)"
  "(KUnsubscribe, pid, f) \<in> waits s \<longleftrightarrow> (pid, f) \<in> set (ob_pending_unsubs s)"
  by (simp_all add: waits_def)

lemma waits_cases:
  obtains (pub) "k = KPublish" | (pub2) "k = KPublish2" | (sub) "k = KSubscribe" | (unsub) "k = KUnsubscribe"
  by (cases k) auto

lemma waits_eqI:
  assumes "\<And>k pid f. (k, pid, f) \<in> waits s \<longleftrightarrow> (k, pid, f) \<in> W"
  shows "waits s = W"
  using assms by auto

lemma out_invD:
  assumes "out_inv (s, acts)"
  shows "keys_ok s" "waits_ok s" "pool_inv (ob_packet_ids s)" "pool_in_use (ob_packet_ids s) = (fst \<circ> snd) ` waits s"
    "act \<in> set acts \<Longrightarrow> activity_ok s act" "distinct (map activity_future acts)"
    "(KSubscribe, pid, f) \<in> waits s \<Longrightarrow> \<exists>reqs. Subscribing pid f reqs \<in> set acts"
    "(KUnsubscribe, pid, f) \<in> waits s \<Longrightarrow> \<exists>flts. Unsubscribing pid f flts \<in> set acts"
    "ob_dead s \<Longrightarrow> (k, pid, f) \<in> waits s \<Longrightarrow> ob_futures s f \<noteq> Waiting"
  using assms by (simp_all add: out_inv_def)

lemma out_invI:
  assumes "keys_ok s" "waits_ok s" "pool_inv (ob_packet_ids s)" "pool_in_use (ob_packet_ids s) = (fst \<circ> snd) ` waits s"
    "\<And>act. act \<in> set acts \<Longrightarrow> activity_ok s act" "distinct (map activity_future acts)"
    "\<And>pid f. (KSubscribe, pid, f) \<in> waits s \<Longrightarrow> \<exists>reqs. Subscribing pid f reqs \<in> set acts"
    "\<And>pid f. (KUnsubscribe, pid, f) \<in> waits s \<Longrightarrow> \<exists>flts. Unsubscribing pid f flts \<in> set acts"
    "\<And>k pid f. ob_dead s \<Longrightarrow> (k, pid, f) \<in> waits s \<Longrightarrow> ob_futures s f \<noteq> Waiting"
  shows "out_inv (s, acts)"
  using assms by (simp add: out_inv_def)

lemma activity_okD:
  assumes "activity_ok s act"
  shows "request_of act = Some (k, pid, f) \<Longrightarrow> request_ok s k pid f"
    and "request_of act = None \<Longrightarrow> ping_ok s (activity_future act)"
  using assms by (cases act; auto simp: activity_future_def)+

lemma activity_future_less: "activity_ok s act \<Longrightarrow> activity_future act < ob_fresh s"
  by (cases act) (auto simp: activity_future_def request_ok_def ping_ok_def)

lemma activity_future_simps [simp]:
  "activity_future (Publishing pid f) = f" "activity_future (Publishing2 pid f) = f"
  "activity_future (Subscribing pid f reqs) = f" "activity_future (Unsubscribing pid f flts) = f"
  "activity_future (Pinging f) = f"
  by (simp_all add: activity_future_def)

lemma request_future: "request_of act = Some (k, pid, f) \<Longrightarrow> activity_future act = f"
  by (cases act) (auto simp: activity_future_def)

lemma ids_minus:
  fixes W :: "(kind \<times> int \<times> nat) set"
  assumes "(k, pid, f) \<in> W" and "\<And>k' f'. (k', pid, f') \<in> W \<Longrightarrow> k' = k \<and> f' = f"
  shows "(fst \<circ> snd) ` W - {pid} = (fst \<circ> snd) ` (W - {(k, pid, f)})"
proof -
  have mem: "p \<in> (fst \<circ> snd) ` V \<longleftrightarrow> (\<exists>k f. (k, p, f) \<in> V)" for p and V :: "(kind \<times> int \<times> nat) set"
    by (rule iffI) (elim imageE, force, elim exE, rule rev_image_eqI, assumption, simp)
  have "p \<in> (fst \<circ> snd) ` W - {pid} \<longleftrightarrow> p \<in> (fst \<circ> snd) ` (W - {(k, pid, f)})" for p
    unfolding mem Diff_iff using assms(2) by (cases "p = pid") blast+
  then show ?thesis by blast
qed

lemma wait_id:
  assumes "out_inv (s, acts)" and "(k, pid, f) \<in> waits s"
  shows "pid \<in> {1..65535}"
proof -
  have "pid \<in> pool_in_use (ob_packet_ids s)" unfolding out_invD(4) [OF assms(1)] using assms(2) by force
  then show ?thesis using pool.used_ids [OF out_invD(3) [OF assms(1)]] by blast
qed

text \<open>A new request under a free id.\<close>

lemma add_wait:
  assumes inv: "out_inv (s, acts)" and free: "pid \<notin> pool_in_use (ob_packet_ids s)" and alive: "\<not> ob_dead s"
    and s': "keys_ok s'" "waits s' = insert (k, pid, ob_fresh s) (waits s)" "pool_inv (ob_packet_ids s')"
      "pool_in_use (ob_packet_ids s') = insert pid (pool_in_use (ob_packet_ids s))"
      "ob_fresh s' = Suc (ob_fresh s)" "ob_futures s' = (ob_futures s)(ob_fresh s := Waiting)"
      "ob_ping_waiters s' = ob_ping_waiters s" "ob_dead s' = ob_dead s"
    and act: "request_of act = Some (k, pid, ob_fresh s)"
  shows "out_inv (s', act # acts)" and "k = KPublish \<or> k = KPublish2 \<Longrightarrow> out_inv (s', acts)"
proof -
  let ?f = "ob_fresh s"
  note i = out_invD [OF inv]
  have new: "(k', pid, f') \<notin> waits s" "(k', pid', ?f) \<notin> waits s" for k' f' pid'
    using free i(4) i(2) by (force, metis less_irrefl waits_ok_def)
  have lt: "g < Suc ?f \<and> g \<notin> set (ob_ping_waiters s)" if "(k', p, g) \<in> waits s" for k' p g
    using i(2) that unfolding waits_ok_def by (meson less_SucI)
  have ping: "g < Suc ?f" if "g \<in> set (ob_ping_waiters s)" for g
    using i(2) that unfolding waits_ok_def by (meson less_SucI)
  have no_ping: "?f \<notin> set (ob_ping_waiters s)" using i(2) unfolding waits_ok_def by blast
  have wok: "waits_ok s'"
    using i(2) new lt ping no_ping unfolding waits_ok_def s' by auto
  have old: "activity_ok s' a" if "activity_ok s a" for a
  proof -
    have "activity_future a \<noteq> ?f" using activity_future_less [OF that] by simp
    with that show ?thesis by (cases a) (auto simp: request_ok_def ping_ok_def s' activity_future_def)
  qed
  have "request_ok s' k pid ?f" using new no_ping by (auto simp: request_ok_def s')
  then have this_ok: "activity_ok s' act" using act by (cases act) (auto simp: s')
  have fresh: "activity_future act \<notin> activity_future ` set acts"
    using request_future [OF act] activity_future_less [OF i(5)] by fastforce
  have pool: "pool_in_use (ob_packet_ids s') = (fst \<circ> snd) ` waits s'" using s' i(4) by auto
  have act_sub: "\<exists>reqs. act = Subscribing pid ?f reqs" if "k = KSubscribe" using act that by (cases act) auto
  have act_unsub: "\<exists>flts. act = Unsubscribing pid ?f flts" if "k = KUnsubscribe" using act that by (cases act) auto
  show "out_inv (s', act # acts)"
  proof (rule out_invI)
    show "\<exists>reqs. Subscribing p g reqs \<in> set (act # acts)" if "(KSubscribe, p, g) \<in> waits s'" for p g
      using that i(7) [of p g] act_sub by (auto simp: s'(2))
    show "\<exists>flts. Unsubscribing p g flts \<in> set (act # acts)" if "(KUnsubscribe, p, g) \<in> waits s'" for p g
      using that i(8) [of p g] act_unsub by (auto simp: s'(2))
  qed (use i(5,6) wok pool this_ok old fresh s'(1,3,8) alive in auto)
  show "out_inv (s', acts)" if "k = KPublish \<or> k = KPublish2"
  proof (rule out_invI)
    show "\<exists>reqs. Subscribing p g reqs \<in> set acts" if "(KSubscribe, p, g) \<in> waits s'" for p g
      using that i(7) [of p g] \<open>k = KPublish \<or> k = KPublish2\<close> by (auto simp: s'(2))
    show "\<exists>flts. Unsubscribing p g flts \<in> set acts" if "(KUnsubscribe, p, g) \<in> waits s'" for p g
      using that i(8) [of p g] \<open>k = KPublish \<or> k = KPublish2\<close> by (auto simp: s'(2))
  qed (use i(5,6) wok pool old s'(1,3,8) alive in auto)
qed

text \<open>An answer ends a publish: its id is free and its future, if it still waited, is resolved.\<close>

lemma remove_answered:
  assumes inv: "out_inv (s, acts)" and mem: "(k, pid, f) \<in> waits s" and k: "k = KPublish \<or> k = KPublish2"
    and r: "r \<noteq> Waiting" "\<And>packet. r = Answered packet \<Longrightarrow> answers k pid packet"
    and s': "keys_ok s'" "waits s' = waits s - {(k, pid, f)}"
      "ob_packet_ids s' = release pid (ob_packet_ids s)"
      "ob_fresh s' = ob_fresh s" "ob_futures s' = (if ob_futures s f = Waiting then (ob_futures s)(f := r) else ob_futures s)"
      "ob_ping_waiters s' = ob_ping_waiters s" "ob_dead s' = ob_dead s"
  shows "out_inv (s', acts)"
proof -
  note i = out_invD [OF inv]
  have only: "k' = k \<and> f' = f" if "(k', pid, f') \<in> waits s" for k' f'
    using i(2) mem that unfolding waits_ok_def by blast
  have own: "k' = k \<and> pid' = pid" if "(k', pid', f) \<in> waits s" for k' pid'
    using i(2) mem that unfolding waits_ok_def by blast
  have not_ping: "f \<notin> set (ob_ping_waiters s)" using i(2) mem unfolding waits_ok_def by blast
  have wok: "waits_ok s'"
    using i(2) unfolding waits_ok_def s' by blast
  have pid: "pid \<in> {1..65535}" using wait_id [OF inv mem] .
  have pool: "pool_inv (ob_packet_ids s')" "pool_in_use (ob_packet_ids s') = pool_in_use (ob_packet_ids s) - {pid}"
    using pool.rel_used [OF i(3) pid] by (simp_all add: s')
  have ids: "pool_in_use (ob_packet_ids s') = (fst \<circ> snd) ` waits s'"
    unfolding pool(2) i(4) s'(2) by (rule ids_minus [OF mem]) (rule only)
  have fin: "ob_futures s' f \<noteq> Waiting" using r(1) by (simp add: s')
  have act: "activity_ok s' a" if "activity_ok s a" for a
  proof -
    have req: "request_ok s' k' pid' f'" if "request_ok s k' pid' f'" for k' pid' f'
    proof (cases "f' = f")
      case True
      then have "k' = k" "pid' = pid" using that mem unfolding request_ok_def by blast+
      then show ?thesis
        using that True fin unfolding request_ok_def s'(2,4,6)
        by (cases "ob_futures s f = Waiting") (simp_all add: s'(5) r, blast+)
    next
      case False
      then show ?thesis using that unfolding request_ok_def s'(2,4,6) by (auto simp: s'(5) split: if_splits)
    qed
    have ping: "ping_ok s' f'" if "ping_ok s f'" for f'
      using that mem unfolding ping_ok_def s' by (auto split: if_splits)
    show ?thesis using that k req ping by (cases a) (auto simp: s')
  qed
  show ?thesis
  proof (rule out_invI)
    show "ob_futures s' g \<noteq> Waiting" if "ob_dead s'" "(k', p, g) \<in> waits s'" for k' p g
      using i(9) [of k' p g] that fin by (auto simp: s')
  qed (use i(5,6) i(7) i(8) wok pool(1) ids act s'(1,2) in auto)
qed

text \<open>The end of a subscribe or unsubscribe takes its waiter and its id with it.\<close>

lemma remove_activity:
  assumes inv: "out_inv (s, as @ act # bs)" and act: "request_of act = Some (k, pid, f)" "k = KSubscribe \<or> k = KUnsubscribe"
    and s': "keys_ok s'" "waits s' = waits s - {(k, pid, f)}"
      "ob_packet_ids s' = release pid (ob_packet_ids s)"
      "ob_fresh s' = ob_fresh s" "ob_futures s' = ob_futures s"
      "ob_ping_waiters s' = ob_ping_waiters s" "ob_dead s' = ob_dead s"
  shows "out_inv (s', as @ bs)"
proof -
  note i = out_invD [OF inv]
  have mem: "(k, pid, f) \<in> waits s" using i(5) [of act] act by (cases act) auto
  have only: "k' = k \<and> f' = f" if "(k', pid, f') \<in> waits s" for k' f'
    using i(2) mem that unfolding waits_ok_def by blast
  have own: "k' = k \<and> pid' = pid" if "(k', pid', f) \<in> waits s" for k' pid'
    using i(2) mem that unfolding waits_ok_def by blast
  have wok: "waits_ok s'"
    using i(2) unfolding waits_ok_def s' by blast
  have pid: "pid \<in> {1..65535}" using wait_id [OF inv mem] .
  have pool: "pool_inv (ob_packet_ids s')" "pool_in_use (ob_packet_ids s') = pool_in_use (ob_packet_ids s) - {pid}"
    using pool.rel_used [OF i(3) pid] by (simp_all add: s')
  have ids: "pool_in_use (ob_packet_ids s') = (fst \<circ> snd) ` waits s'"
    unfolding pool(2) i(4) s'(2) by (rule ids_minus [OF mem]) (rule only)
  have fut: "activity_future act = f" using request_future [OF act(1)] .
  have ok: "activity_ok s' a" if "a \<in> set (as @ bs)" for a
  proof -
    have "activity_future a \<notin> {activity_future act}" using i(6) imageI [OF that, of activity_future] by auto
    then have "activity_future a \<noteq> f" using fut by simp
    moreover have "activity_ok s a" using i(5) that by simp
    ultimately show ?thesis by (cases a) (auto simp: s' request_ok_def ping_ok_def activity_future_def)
  qed
  have sub: "\<exists>reqs. Subscribing p g reqs \<in> set (as @ bs)" if "(KSubscribe, p, g) \<in> waits s'" for p g
    using i(7) [of p g] that act by (auto simp: s')
  have unsub: "\<exists>flts. Unsubscribing p g flts \<in> set (as @ bs)" if "(KUnsubscribe, p, g) \<in> waits s'" for p g
    using i(8) [of p g] that act by (auto simp: s')
  show ?thesis
  proof (rule out_invI)
    show "ob_futures s' g \<noteq> Waiting" if "ob_dead s'" "(k', p, g) \<in> waits s'" for k' p g
      using i(9) [of k' p g] that by (auto simp: s')
    show "distinct (map activity_future (as @ bs))" using i(6) by auto
  qed (use wok pool(1) ids ok sub unsub s'(1) in auto)
qed

lemma drop_activity:
  assumes "out_inv (s, as @ act # bs)"
    and "\<And>k pid f. request_of act = Some (k, pid, f) \<Longrightarrow> k = KPublish \<or> k = KPublish2"
  shows "out_inv (s, as @ bs)"
proof -
  note i = out_invD [OF assms(1)]
  have "act \<noteq> Subscribing p g reqs" "act \<noteq> Unsubscribing p g flts" for p g reqs flts
    using assms(2) by auto
  then show ?thesis
    unfolding out_inv_def prod.case using i by fastforce
qed

text \<open>A future is resolved while its request stays: by cancellation, by the end, by an answer.\<close>

lemma resolve_inv:
  assumes inv: "out_inv (s, acts)" and r: "r \<noteq> Waiting"
    and "\<And>packet k pid. r = Answered packet \<Longrightarrow> (k, pid, f) \<in> waits s \<Longrightarrow> answers k pid packet"
    and "\<And>packet. r = Answered packet \<Longrightarrow> f \<in> set (ob_ping_waiters s) \<Longrightarrow> packet = PingResp"
  shows "out_inv (resolve f r s, acts)"
proof (cases "ob_futures s f = Waiting")
  case True
  note i = out_invD [OF inv]
  let ?s = "s\<lparr>ob_futures := (ob_futures s)(f := r)\<rparr>"
  have w: "waits ?s = waits s" by (simp add: waits_def)
  have act: "activity_ok ?s a" if "activity_ok s a" for a
  proof -
    have req: "request_ok ?s k pid g" if "request_ok s k pid g" for k pid g
      using that True r assms(3) by (auto simp: request_ok_def w)
    have ping: "ping_ok ?s g" if "ping_ok s g" for g
      using that True r assms(4) by (auto simp: ping_ok_def w)
    show ?thesis using that req ping by (cases a) (auto simp: w)
  qed
  have "keys_ok ?s" "waits_ok ?s" using i(1,2) by (simp_all add: keys_ok_def waits_ok_def w)
  then have "out_inv (?s, acts)"
    unfolding out_inv_def prod.case using i act r by (auto simp: w)
  with True show ?thesis by (simp add: resolve_def)
qed (use inv in \<open>simp add: resolve_def\<close>)

text \<open>Changes of what the invariant does not look at.\<close>

lemma same_view_inv:
  assumes "out_inv (s, acts)" and "keys_ok s'" "waits s' = waits s" "ob_packet_ids s' = ob_packet_ids s"
    "ob_futures s' = ob_futures s" "ob_fresh s' = ob_fresh s" "ob_ping_waiters s' = ob_ping_waiters s"
    "ob_dead s' = ob_dead s"
  shows "out_inv (s', acts)"
proof -
  note i = out_invD [OF assms(1)]
  have "activity_ok s' a" if "activity_ok s a" for a
    using that by (cases a) (auto simp: request_ok_def ping_ok_def assms)
  moreover have "waits_ok s'" using i(2) by (simp add: waits_ok_def assms)
  ultimately show ?thesis unfolding out_inv_def prod.case using i assms by auto
qed

section \<open>Every step keeps the invariant\<close>

lemma set_AList_delete: "set (AList.delete k al) = {kv \<in> set al. fst kv \<noteq> k}"
  by (auto simp: AList.delete_eq)

lemma set_AList_replace:
  "distinct (map fst al) \<Longrightarrow> set (AList.update k v al) = insert (k, v) {kv \<in> set al. fst kv \<noteq> k}"
  by (induction al) (force split: if_splits)+

lemma send_inv:
  assumes "send packet s = (e, s')" and "out_inv (s, acts)"
  shows "out_inv (s', acts)"
proof -
  from assms(1) consider "s' = s" | "s' = s\<lparr>ob_sent := ob_sent s @ [packet]\<rparr>"
    by (auto simp: send_def split: sum.splits)
  then show ?thesis
  proof cases
    case 2
    then show ?thesis
      using out_invD(1) [OF assms(2)]
      by (intro same_view_inv [OF assms(2)]) (auto simp: keys_ok_def waits_def)
  qed (use assms(2) in simp)
qed

lemma acquire_id_cases:
  assumes "acquire_id s = (res, s')" and "out_inv (s, acts)"
  obtains e where "res = Inl e" "s' = s"
  | pid pool where "res = Inr pid" "s' = s\<lparr>ob_packet_ids := pool\<rparr>" "pid \<notin> pool_in_use (ob_packet_ids s)"
      "pool_in_use pool = insert pid (pool_in_use (ob_packet_ids s))" "pool_inv pool"
      "\<And>k f. (k, pid, f) \<notin> waits s"
proof -
  consider e where "res = Inl e" "s' = s"
    | pid pool where "acquire (ob_packet_ids s) = Some (Inr (pid, pool))" "res = Inr pid" "s' = s\<lparr>ob_packet_ids := pool\<rparr>"
    using assms(1) by (auto simp: acquire_id_def split: option.splits sum.splits)
  then show thesis
  proof cases
    case (2 pid pool)
    note p = pool.acq_cases [OF out_invD(3) [OF assms(2)] 2(1)]
    have "(k, pid, f) \<notin> waits s" for k f
      using p out_invD(4) [OF assms(2)] by force
    with 2 p show ?thesis by (intro that(2)) auto
  qed (use that(1) in blast)
qed

text \<open>The four ways to register a request, each under an id that no table holds.\<close>

lemma register_waits:
  assumes "\<And>k f. (k, pid, f) \<notin> waits s"
  shows "waits (s\<lparr>ob_inflight_qos1 := AList.update pid fl (ob_inflight_qos1 s)\<rparr>) = insert (KPublish, pid, q1_future fl) (waits s)"
    and "waits (s\<lparr>ob_inflight_qos2_out := AList.update pid fl2 (ob_inflight_qos2_out s)\<rparr>) = insert (KPublish2, pid, o2_future fl2) (waits s)"
    and "waits (s\<lparr>ob_pending_subs := AList.update pid f (ob_pending_subs s)\<rparr>) = insert (KSubscribe, pid, f) (waits s)"
    and "waits (s\<lparr>ob_pending_unsubs := AList.update pid f (ob_pending_unsubs s)\<rparr>) = insert (KUnsubscribe, pid, f) (waits s)"
proof -
  have "pid \<notin> fst ` set (ob_inflight_qos1 s)" "pid \<notin> fst ` set (ob_inflight_qos2_out s)"
    "pid \<notin> fst ` set (ob_pending_subs s)" "pid \<notin> fst ` set (ob_pending_unsubs s)"
    using assms [of KPublish] assms [of KPublish2] assms [of KSubscribe] assms [of KUnsubscribe]
    unfolding waits_mem by force+
  note new = this [THEN AList_update_new]
  show "waits (s\<lparr>ob_inflight_qos1 := AList.update pid fl (ob_inflight_qos1 s)\<rparr>) = insert (KPublish, pid, q1_future fl) (waits s)"
    by (auto simp: waits_def new)
  show "waits (s\<lparr>ob_inflight_qos2_out := AList.update pid fl2 (ob_inflight_qos2_out s)\<rparr>) = insert (KPublish2, pid, o2_future fl2) (waits s)"
    by (auto simp: waits_def new)
  show "waits (s\<lparr>ob_pending_subs := AList.update pid f (ob_pending_subs s)\<rparr>) = insert (KSubscribe, pid, f) (waits s)"
    by (auto simp: waits_def new)
  show "waits (s\<lparr>ob_pending_unsubs := AList.update pid f (ob_pending_unsubs s)\<rparr>) = insert (KUnsubscribe, pid, f) (waits s)"
    by (auto simp: waits_def new)
qed

lemma waits_frame [simp]:
  "waits (s\<lparr>ob_packet_ids := pool\<rparr>) = waits s" "waits (s\<lparr>ob_futures := fs\<rparr>) = waits s"
  "waits (s\<lparr>ob_futures := fs, ob_fresh := n\<rparr>) = waits s" "waits (s\<lparr>ob_ping_waiters := ws\<rparr>) = waits s"
  "waits (s\<lparr>ob_dead := d\<rparr>) = waits s" "waits (s\<lparr>ob_sent := ps\<rparr>) = waits s"
  "waits (s\<lparr>ob_packet_ids := pool, ob_futures := fs, ob_fresh := n\<rparr>) = waits s"
  "waits (s\<lparr>ob_futures := fs, ob_fresh := n, ob_ping_waiters := ws\<rparr>) = waits s"
  by (simp_all add: waits_def)

text \<open>What an operation leaves: with an operation when it waits, without one when it is over.\<close>

fun outcome_ok :: "operation list \<Rightarrow> (mqtt_error + operation option) \<times> outbound \<Rightarrow> bool" where
  "outcome_ok acts (Inl e, s) = out_inv (s, acts)"
| "outcome_ok acts (Inr None, s) = out_inv (s, acts)"
| "outcome_ok acts (Inr (Some act), s) = out_inv (s, act # acts)"

text \<open>The common start of the requests, and what it gives once the request is in its table.\<close>

lemma begin_request:
  assumes inv: "out_inv (s, acts)" and alive: "\<not> ob_dead s"
    and acq: "acquire_id s = (Inr pid, s1)" and fut: "create_future s1 = (f, s2)"
  shows "keys_ok s2" and "(k', pid, f') \<notin> waits s2"
    and "\<lbrakk>keys_ok s3; waits s3 = insert (k, pid, f) (waits s2); ob_packet_ids s3 = ob_packet_ids s2;
       ob_futures s3 = ob_futures s2; ob_fresh s3 = ob_fresh s2; ob_ping_waiters s3 = ob_ping_waiters s2;
       ob_dead s3 = ob_dead s2; request_of act = Some (k, pid, f)\<rbrakk> \<Longrightarrow>
      out_inv (s3, act # acts) \<and> (k = KPublish \<or> k = KPublish2 \<longrightarrow> out_inv (s3, acts))"
proof -
  obtain pool where p: "s1 = s\<lparr>ob_packet_ids := pool\<rparr>" "pid \<notin> pool_in_use (ob_packet_ids s)"
    "pool_in_use pool = insert pid (pool_in_use (ob_packet_ids s))" "pool_inv pool" "\<And>k f. (k, pid, f) \<notin> waits s"
    by (cases rule: acquire_id_cases [OF acq inv]) auto
  have f: "f = ob_fresh s" and s2: "s2 = s\<lparr>ob_packet_ids := pool, ob_futures := (ob_futures s)(f := Waiting), ob_fresh := Suc f\<rparr>"
    using fut by (auto simp: create_future_def p(1))
  show "keys_ok s2" using out_invD(1) [OF inv] by (simp add: s2 keys_ok_def)
  show "(k', pid, f') \<notin> waits s2" using p(5) by (simp add: s2)
  assume s3: "keys_ok s3" "waits s3 = insert (k, pid, f) (waits s2)" "ob_packet_ids s3 = ob_packet_ids s2"
    "ob_futures s3 = ob_futures s2" "ob_fresh s3 = ob_fresh s2" "ob_ping_waiters s3 = ob_ping_waiters s2"
    "ob_dead s3 = ob_dead s2" "request_of act = Some (k, pid, f)"
  show "out_inv (s3, act # acts) \<and> (k = KPublish \<or> k = KPublish2 \<longrightarrow> out_inv (s3, acts))"
    using add_wait [OF inv p(2) alive, of s3 k act] s3 p(3,4) by (simp add: s2 f)
qed

lemma acquire_fails: "acquire_id s = (Inl e, s') \<Longrightarrow> s' = s"
  by (auto simp: acquire_id_def split: option.splits sum.splits)

lemma publish_qos1_inv:
  assumes inv: "out_inv (s, acts)" and alive: "\<not> ob_dead s"
  shows "outcome_ok acts (publish_qos1 p s)"
proof (cases "acquire_id s")
  case (Pair res s1)
  show ?thesis
  proof (cases res)
    case (Inl e)
    with Pair acquire_fails inv show ?thesis by (auto simp: publish_qos1_def)
  next
    case (Inr pid)
    obtain f s2 where fut: "create_future s1 = (f, s2)" by (metis prod.exhaust)
    note b = begin_request [OF inv alive Pair [unfolded Inr] fut]
    let ?p = "p\<lparr>pub_packet_id := Some pid\<rparr>"
    let ?fl = "\<lparr>q1_packet_id = pid, q1_publish = ?p, q1_future = f\<rparr>"
    let ?s3 = "s2\<lparr>ob_inflight_qos1 := AList.update pid ?fl (ob_inflight_qos1 s2)\<rparr>"
    have "out_inv (?s3, Publishing pid f # acts) \<and> out_inv (?s3, acts)"
      using b(3) [of ?s3 KPublish "Publishing pid f"] b(1) register_waits(1) [OF b(2), of ?fl]
      by (simp add: keys_ok_def distinct_update)
    moreover obtain e s4 where snd: "send (Publish ?p) ?s3 = (e, s4)" by (metis prod.exhaust)
    ultimately show ?thesis
      using send_inv [OF snd] Pair Inr fut by (cases e) (auto simp: publish_qos1_def Let_def)
  qed
qed

lemma publish_qos2_inv:
  assumes inv: "out_inv (s, acts)" and alive: "\<not> ob_dead s"
  shows "outcome_ok acts (publish_qos2 p s)"
proof (cases "acquire_id s")
  case (Pair res s1)
  show ?thesis
  proof (cases res)
    case (Inl e)
    with Pair acquire_fails inv show ?thesis by (auto simp: publish_qos2_def)
  next
    case (Inr pid)
    obtain f s2 where fut: "create_future s1 = (f, s2)" by (metis prod.exhaust)
    note b = begin_request [OF inv alive Pair [unfolded Inr] fut]
    let ?p = "p\<lparr>pub_packet_id := Some pid\<rparr>"
    let ?fl = "\<lparr>o2_packet_id = pid, o2_publish = ?p, o2_state = PENDING_PUBREC, o2_future = f\<rparr>"
    let ?s3 = "s2\<lparr>ob_inflight_qos2_out := AList.update pid ?fl (ob_inflight_qos2_out s2)\<rparr>"
    have "out_inv (?s3, Publishing2 pid f # acts) \<and> out_inv (?s3, acts)"
      using b(3) [of ?s3 KPublish2 "Publishing2 pid f"] b(1) register_waits(2) [OF b(2), of ?fl]
      by (simp add: keys_ok_def distinct_update)
    moreover obtain e s4 where snd: "send (Publish ?p) ?s3 = (e, s4)" by (metis prod.exhaust)
    ultimately show ?thesis
      using send_inv [OF snd] Pair Inr fut by (cases e) (auto simp: publish_qos2_def Let_def)
  qed
qed

lemma publish_inv:
  assumes "out_inv (s, acts)"
  shows "outcome_ok acts (publish p s)"
proof (cases "ob_dead s")
  case True
  then show ?thesis using assms by (simp add: publish_def ensure_alive_def)
next
  case False
  obtain e s' where snd: "send (Publish p) s = (e, s')" by (metis prod.exhaust)
  have "outcome_ok acts (publish_qos0 p s)"
    using send_inv [OF snd assms] snd by (cases e) (auto simp: publish_qos0_def)
  with False publish_qos1_inv [OF assms False] publish_qos2_inv [OF assms False] assms show ?thesis
    by (simp add: publish_def ensure_alive_def split: QoS.split)
qed

text \<open>The ends of a subscribe and an unsubscribe.\<close>

lemma finally_inv:
  assumes "out_inv (s, as @ act # bs)"
  shows "out_inv (activity_finally act s, as @ bs)"
proof (cases "\<exists>k pid f. request_of act = Some (k, pid, f) \<and> (k = KSubscribe \<or> k = KUnsubscribe)")
  case False
  then have "activity_finally act s = s" by (cases act) (simp_all add: activity_finally_def)
  moreover have "k = KPublish \<or> k = KPublish2" if "request_of act = Some (k, pid, f)" for k pid f
    using False that by (cases k) auto
  ultimately show ?thesis using drop_activity [OF assms] by simp
next
  case True
  then obtain k pid f where req: "request_of act = Some (k, pid, f)" "k = KSubscribe \<or> k = KUnsubscribe" by blast
  note i = out_invD [OF assms]
  have mem: "(k, pid, f) \<in> waits s" using i(5) [of act] req by (cases act) auto
  have only: "f' = f" if "(k, pid, f') \<in> waits s" for f'
    using i(2) mem that unfolding waits_ok_def by blast
  let ?s = "activity_finally act s"
  have fin: "?s = (if k = KSubscribe then sub_finally pid s else unsub_finally pid s)"
    using req by (cases act) (auto simp: activity_finally_def)
  have "waits ?s = waits s - {(k, pid, f)}"
    unfolding fin using req(2) only
    by (auto simp: waits_def sub_finally_def unsub_finally_def release_id_def set_AList_delete)
  moreover have "keys_ok ?s"
    unfolding fin using i(1)
    by (auto simp: keys_ok_def sub_finally_def unsub_finally_def release_id_def distinct_delete)
  ultimately show ?thesis
    by (intro remove_activity [OF assms req]) (simp_all add: fin sub_finally_def unsub_finally_def release_id_def)
qed

fun requested_ok :: "operation list \<Rightarrow> (mqtt_error + operation) \<times> outbound \<Rightarrow> bool" where
  "requested_ok acts (Inl e, s) = out_inv (s, acts)"
| "requested_ok acts (Inr act, s) = out_inv (s, act # acts)"

lemma send_subscribe_inv:
  assumes inv: "out_inv (s, acts)"
  shows "requested_ok acts (send_subscribe filters ident s)"
proof (cases "ob_dead s")
  case True
  then show ?thesis using inv by (simp add: send_subscribe_def ensure_alive_def)
next
  case alive: False
  obtain res s1 where acq: "acquire_id s = (res, s1)" by (metis prod.exhaust)
  show ?thesis
  proof (cases res)
    case (Inl e)
    with acq acquire_fails inv alive show ?thesis by (auto simp: send_subscribe_def ensure_alive_def)
  next
    case (Inr pid)
    obtain f s2 where fut: "create_future s1 = (f, s2)" by (metis prod.exhaust)
    note b = begin_request [OF inv alive acq [unfolded Inr] fut]
    let ?s3 = "s2\<lparr>ob_pending_subs := AList.update pid f (ob_pending_subs s2)\<rparr>"
    let ?p = "\<lparr>sub_packet_id = pid, sub_subscriptions = filters, sub_properties = subscribe_properties ident\<rparr>"
    let ?act = "Subscribing pid f filters"
    have reg: "out_inv (?s3, ?act # acts)"
      using b(3) [of ?s3 KSubscribe ?act] b(1) register_waits(3) [OF b(2), of f]
      by (simp add: keys_ok_def distinct_update)
    obtain e s4 where snd: "send (Subscribe ?p) ?s3 = (e, s4)" by (metis prod.exhaust)
    have s4: "out_inv (s4, ?act # acts)" using send_inv [OF snd reg] .
    then have "out_inv (sub_finally pid s4, acts)"
      using finally_inv [of s4 "[]" ?act acts] by (simp add: activity_finally_def)
    with s4 show ?thesis using acq Inr fut snd alive
      by (cases e) (auto simp: send_subscribe_def ensure_alive_def Let_def)
  qed
qed

lemma send_unsubscribe_inv:
  assumes inv: "out_inv (s, acts)"
  shows "requested_ok acts (send_unsubscribe filters s)"
proof (cases "ob_dead s")
  case True
  then show ?thesis using inv by (simp add: send_unsubscribe_def ensure_alive_def)
next
  case alive: False
  obtain res s1 where acq: "acquire_id s = (res, s1)" by (metis prod.exhaust)
  show ?thesis
  proof (cases res)
    case (Inl e)
    with acq acquire_fails inv alive show ?thesis by (auto simp: send_unsubscribe_def ensure_alive_def)
  next
    case (Inr pid)
    obtain f s2 where fut: "create_future s1 = (f, s2)" by (metis prod.exhaust)
    note b = begin_request [OF inv alive acq [unfolded Inr] fut]
    let ?s3 = "s2\<lparr>ob_pending_unsubs := AList.update pid f (ob_pending_unsubs s2)\<rparr>"
    let ?p = "\<lparr>uns_packet_id = pid, uns_topic_filters = filters, uns_properties = None\<rparr>"
    let ?act = "Unsubscribing pid f filters"
    have reg: "out_inv (?s3, ?act # acts)"
      using b(3) [of ?s3 KUnsubscribe ?act] b(1) register_waits(4) [OF b(2), of f]
      by (simp add: keys_ok_def distinct_update)
    obtain e s4 where snd: "send (Unsubscribe ?p) ?s3 = (e, s4)" by (metis prod.exhaust)
    have s4: "out_inv (s4, ?act # acts)" using send_inv [OF snd reg] .
    then have "out_inv (unsub_finally pid s4, acts)"
      using finally_inv [of s4 "[]" ?act acts] by (simp add: activity_finally_def)
    with s4 show ?thesis using acq Inr fut snd alive
      by (cases e) (auto simp: send_unsubscribe_def ensure_alive_def Let_def)
  qed
qed

text \<open>Pings: a new waiter, and waiters that go.\<close>

lemma ping_added:
  assumes inv: "out_inv (s, acts)"
    and s': "s' = s\<lparr>ob_futures := (ob_futures s)(ob_fresh s := Waiting), ob_fresh := Suc (ob_fresh s),
      ob_ping_waiters := ob_ping_waiters s @ [ob_fresh s]\<rparr>"
  shows "out_inv (s', Pinging (ob_fresh s) # acts)" and "out_inv (s', acts)"
proof -
  let ?f = "ob_fresh s"
  note i = out_invD [OF inv]
  have w: "waits s' = waits s" by (simp add: s' waits_def)
  have lt: "g < ?f \<and> g \<notin> set (ob_ping_waiters s)" if "(k, p, g) \<in> waits s" for k p g
    using i(2) that unfolding waits_ok_def by blast
  have "\<forall>g \<in> set (ob_ping_waiters s). g < ?f" "distinct (ob_ping_waiters s)"
    using i(2) unfolding waits_ok_def by blast+
  then have wok: "waits_ok s'"
    using i(2) lt unfolding waits_ok_def w by (auto simp: s' less_Suc_eq)
  have old: "activity_ok s' a" if "activity_ok s a" for a
  proof -
    have "activity_future a \<noteq> ?f" using activity_future_less [OF that] by simp
    with that show ?thesis by (cases a) (auto simp: request_ok_def ping_ok_def activity_future_def s')
  qed
  have new: "ping_ok s' ?f" using lt by (auto simp: ping_ok_def s')
  have keys: "keys_ok s'" using i(1) by (simp add: keys_ok_def s')
  have dead: "ob_futures s' g \<noteq> Waiting" if "ob_dead s'" "(k, p, g) \<in> waits s'" for k p g
    using i(9) [of k p g] lt [of k p g] that w by (auto simp: s')
  have fresh: "?f \<notin> activity_future ` set acts"
    using activity_future_less [OF i(5)] by fastforce
  show "out_inv (s', acts)"
    by (rule out_invI) (use i(3-8) keys wok old dead in \<open>auto simp: s'\<close>)
  show "out_inv (s', Pinging (ob_fresh s) # acts)"
    by (rule out_invI) (use i(3-8) keys wok old new dead fresh in \<open>auto simp: s'\<close>)
qed

lemma ping_removed:
  assumes inv: "out_inv (s, acts)" and "ws = remove1 f (ob_ping_waiters s)"
    and "\<And>act. act \<in> set acts \<Longrightarrow> act = Pinging f \<Longrightarrow> ob_futures s f \<noteq> Waiting"
  shows "out_inv (s\<lparr>ob_ping_waiters := ws\<rparr>, acts)"
proof -
  note i = out_invD [OF inv]
  let ?s = "s\<lparr>ob_ping_waiters := ws\<rparr>"
  have d: "distinct (ob_ping_waiters s)" using i(2) unfolding waits_ok_def by blast
  then have ws: "set ws = set (ob_ping_waiters s) - {f}" "distinct ws" using assms(2) by simp_all
  have wok: "waits_ok ?s" using i(2) ws unfolding waits_ok_def by auto
  have old: "activity_ok ?s a" if "a \<in> set acts" for a
    using i(5) [OF that] assms(3) [OF that] ws by (cases a) (auto simp: request_ok_def ping_ok_def)
  have keys: "keys_ok ?s" using i(1) by (simp add: keys_ok_def)
  show ?thesis by (rule out_invI) (use i(3-9) keys wok old in auto)
qed

lemma ping_inv:
  assumes "out_inv (s, acts)"
  shows "requested_ok acts (ping s)"
proof -
  define s2 where "s2 = s\<lparr>ob_futures := (ob_futures s)(ob_fresh s := Waiting), ob_fresh := Suc (ob_fresh s),
    ob_ping_waiters := ob_ping_waiters s @ [ob_fresh s]\<rparr>"
  obtain e s3 where snd: "send PingReq s2 = (e, s3)" by (metis prod.exhaust)
  note p = ping_added [OF assms s2_def]
  show ?thesis
    using send_inv [OF snd p(1)] send_inv [OF snd p(2)] snd
    by (cases e) (auto simp: ping_def create_future_def Let_def s2_def)
qed

lemma handle_pingresp_inv:
  assumes inv: "out_inv (s, acts)"
  shows "out_inv (handle_pingresp s, acts)"
proof (cases "ob_ping_waiters s")
  case (Cons f fs)
  have not_wait: "(k, pid, f) \<notin> waits s" for k pid
    using out_invD(2) [OF inv] Cons unfolding waits_ok_def by (metis list.set_intros(1))
  have r: "out_inv (resolve f (Answered PingResp) s, acts)"
    by (rule resolve_inv [OF inv]) (use not_wait in auto)
  have same: "resolve f r (s\<lparr>ob_ping_waiters := fs\<rparr>) = (resolve f r s)\<lparr>ob_ping_waiters := fs\<rparr>" for r
    by (simp add: resolve_def)
  have "ob_ping_waiters (resolve f (Answered PingResp) s) = f # fs" using Cons by (simp add: resolve_def)
  moreover have "ob_futures (resolve f (Answered PingResp) s) f \<noteq> Waiting" by (simp add: resolve_def)
  ultimately show ?thesis
    using ping_removed [OF r, of fs f] Cons by (simp add: handle_pingresp_def same)
qed (use inv in \<open>simp add: handle_pingresp_def\<close>)

lemma resolve_simps [simp]:
  "ob_fresh (resolve f r s) = ob_fresh s" "ob_ping_waiters (resolve f r s) = ob_ping_waiters s"
  "ob_dead (resolve f r s) = ob_dead s" "ob_packet_ids (resolve f r s) = ob_packet_ids s"
  "waits (resolve f r s) = waits s" "keys_ok (resolve f r s) = keys_ok s"
  "ob_futures (resolve f r s) = (if ob_futures s f = Waiting then (ob_futures s)(f := r) else ob_futures s)"
  by (simp_all add: resolve_def keys_ok_def)

lemma release_id_simps [simp]:
  "ob_fresh (release_id pid s) = ob_fresh s" "ob_ping_waiters (release_id pid s) = ob_ping_waiters s"
  "ob_dead (release_id pid s) = ob_dead s" "ob_packet_ids (release_id pid s) = release pid (ob_packet_ids s)"
  "waits (release_id pid s) = waits s" "keys_ok (release_id pid s) = keys_ok s"
  "ob_futures (release_id pid s) = ob_futures s"
  by (simp_all add: release_id_def keys_ok_def)

text \<open>A flight that leaves its table when its answer arrives.\<close>

lemma flight_answered:
  assumes inv: "out_inv (s, acts)" and r: "r \<noteq> Waiting"
  shows "\<lbrakk>map_of (ob_inflight_qos1 s) pid = Some fl; \<And>packet. r = Answered packet \<Longrightarrow> answers KPublish pid packet\<rbrakk> \<Longrightarrow>
      out_inv (resolve (q1_future fl) r (release_id pid
        (s\<lparr>ob_inflight_qos1 := AList.delete pid (ob_inflight_qos1 s)\<rparr>)), acts)"
    and "\<lbrakk>map_of (ob_inflight_qos2_out s) pid = Some fl2; \<And>packet. r = Answered packet \<Longrightarrow> answers KPublish2 pid packet\<rbrakk> \<Longrightarrow>
      out_inv (resolve (o2_future fl2) r (release_id pid
        (s\<lparr>ob_inflight_qos2_out := AList.delete pid (ob_inflight_qos2_out s)\<rparr>)), acts)"
proof -
  note i = out_invD [OF inv]
  {
    assume m: "map_of (ob_inflight_qos1 s) pid = Some fl"
      and a: "\<And>packet. r = Answered packet \<Longrightarrow> answers KPublish pid packet"
    let ?s1 = "s\<lparr>ob_inflight_qos1 := AList.delete pid (ob_inflight_qos1 s)\<rparr>"
    have mem: "(KPublish, pid, q1_future fl) \<in> waits s" using map_of_SomeD [OF m] unfolding waits_mem by blast
    have uniq: "(pid, x) \<in> set (ob_inflight_qos1 s) \<longleftrightarrow> x = fl" for x
      using m i(1) map_of_SomeD [OF m] map_of_is_SomeI by (fastforce simp: keys_ok_def)
    have "(k, p, g) \<in> waits ?s1 \<longleftrightarrow> (k, p, g) \<in> waits s - {(KPublish, pid, q1_future fl)}" for k p g
      using uniq by (cases k) (auto simp: waits_mem set_AList_delete)
    then have "waits ?s1 = waits s - {(KPublish, pid, q1_future fl)}" by auto
    moreover have "keys_ok ?s1" using i(1) by (simp add: keys_ok_def distinct_delete)
    ultimately show "out_inv (resolve (q1_future fl) r (release_id pid ?s1), acts)"
      by (intro remove_answered [OF inv mem _ r a]) simp_all
  }
  {
    assume m: "map_of (ob_inflight_qos2_out s) pid = Some fl2"
      and a: "\<And>packet. r = Answered packet \<Longrightarrow> answers KPublish2 pid packet"
    let ?s1 = "s\<lparr>ob_inflight_qos2_out := AList.delete pid (ob_inflight_qos2_out s)\<rparr>"
    have mem: "(KPublish2, pid, o2_future fl2) \<in> waits s" using map_of_SomeD [OF m] unfolding waits_mem by blast
    have uniq: "(pid, x) \<in> set (ob_inflight_qos2_out s) \<longleftrightarrow> x = fl2" for x
      using m i(1) map_of_SomeD [OF m] map_of_is_SomeI by (fastforce simp: keys_ok_def)
    have "(k, p, g) \<in> waits ?s1 \<longleftrightarrow> (k, p, g) \<in> waits s - {(KPublish2, pid, o2_future fl2)}" for k p g
      using uniq by (cases k) (auto simp: waits_mem set_AList_delete)
    then have "waits ?s1 = waits s - {(KPublish2, pid, o2_future fl2)}" by auto
    moreover have "keys_ok ?s1" using i(1) by (simp add: keys_ok_def distinct_delete)
    ultimately show "out_inv (resolve (o2_future fl2) r (release_id pid ?s1), acts)"
      by (intro remove_answered [OF inv mem _ r a]) simp_all
  }
qed

lemma handle_pubrec_inv:
  assumes inv: "out_inv (s, acts)" and h: "handle_pubrec packet s = (e, s')"
  shows "out_inv (s', acts)"
proof (cases "map_of (ob_inflight_qos2_out s) (pav_packet_id packet)")
  case None
  then show ?thesis using assms by (simp add: handle_pubrec_def Let_def)
next
  case (Some fl)
  let ?pid = "pav_packet_id packet"
  let ?s1 = "s\<lparr>ob_inflight_qos2_out := AList.update ?pid (fl\<lparr>o2_state := PENDING_PUBCOMP\<rparr>) (ob_inflight_qos2_out s)\<rparr>"
  note keys = out_invD(1) [OF inv]
  have d: "distinct (map fst (ob_inflight_qos2_out s))" using keys by (simp add: keys_ok_def)
  have uniq: "(?pid, x) \<in> set (ob_inflight_qos2_out s) \<longleftrightarrow> x = fl" for x
    using map_of_SomeD [OF Some] map_of_is_SomeI [OF d, of ?pid x] Some by auto
  have "(k, p, g) \<in> waits ?s1 \<longleftrightarrow> (k, p, g) \<in> waits s" for k p g
    using uniq by (cases k; cases "p = ?pid") (auto simp: waits_mem set_AList_replace [OF d])
  then have w: "waits ?s1 = waits s" by auto
  have "out_inv (?s1, acts)"
    by (rule same_view_inv [OF inv _ w]) (use keys in \<open>simp_all add: keys_ok_def distinct_update\<close>)
  moreover have "out_inv (resolve (o2_future fl) (Failed (publish_error packet)) (release_id ?pid
        (s\<lparr>ob_inflight_qos2_out := AList.delete ?pid (ob_inflight_qos2_out s)\<rparr>)), acts)"
    by (rule flight_answered(2) [OF inv _ Some]) simp_all
  ultimately show ?thesis
    using h Some inv send_inv by (auto simp: handle_pubrec_def Let_def split: if_splits)
qed

lemma dispatch_inv:
  assumes inv: "out_inv (s, acts)" and d: "dispatch_outbound packet s = (e, s')"
  shows "out_inv (s', acts)"
proof -
  have sub: "out_inv (resolve f (Answered (SubAck p)) s, acts)"
    if "map_of (ob_pending_subs s) (sback_packet_id p) = Some f" for p f
  proof (rule resolve_inv [OF inv])
    have mem: "(KSubscribe, sback_packet_id p, f) \<in> waits s" using map_of_SomeD [OF that] by (simp add: waits_mem)
    show "answers k pid x" if x: "Answered (SubAck p) = Answered x" and w: "(k, pid, f) \<in> waits s" for x k pid
    proof -
      have "k = KSubscribe \<and> pid = sback_packet_id p" using out_invD(2) [OF inv] mem w unfolding waits_ok_def by blast
      with x show ?thesis by auto
    qed
    show "x = PingResp" if "f \<in> set (ob_ping_waiters s)" for x
      using out_invD(2) [OF inv] mem that unfolding waits_ok_def by blast
  qed simp
  have unsub: "out_inv (resolve f (Answered (UnsubAck p)) s, acts)"
    if "map_of (ob_pending_unsubs s) (unsack_packet_id p) = Some f" for p f
  proof (rule resolve_inv [OF inv])
    have mem: "(KUnsubscribe, unsack_packet_id p, f) \<in> waits s" using map_of_SomeD [OF that] by (simp add: waits_mem)
    show "answers k pid x" if x: "Answered (UnsubAck p) = Answered x" and w: "(k, pid, f) \<in> waits s" for x k pid
    proof -
      have "k = KUnsubscribe \<and> pid = unsack_packet_id p" using out_invD(2) [OF inv] mem w unfolding waits_ok_def by blast
      with x show ?thesis by auto
    qed
    show "x = PingResp" if "f \<in> set (ob_ping_waiters s)" for x
      using out_invD(2) [OF inv] mem that unfolding waits_ok_def by blast
  qed simp
  show ?thesis
  proof (cases packet)
    case (PubAck p)
    then show ?thesis using d inv flight_answered(1) [OF inv, of "Answered (PubAck p)" "pav_packet_id p"]
      by (auto simp: dispatch_outbound_def handle_puback_def Let_def split: option.splits)
  next
    case (PubComp p)
    then show ?thesis using d inv flight_answered(2) [OF inv, of "Answered (PubComp p)" "pav_packet_id p"]
      by (auto simp: dispatch_outbound_def handle_pubcomp_def Let_def split: option.splits)
  next
    case (PubRec p)
    then show ?thesis using d handle_pubrec_inv [OF inv] by (simp add: dispatch_outbound_def)
  next
    case (SubAck p)
    then show ?thesis using d inv sub
      by (auto simp: dispatch_outbound_def handle_suback_def set_result_def split: option.splits if_splits)
  next
    case (UnsubAck p)
    then show ?thesis using d inv unsub
      by (auto simp: dispatch_outbound_def handle_unsuback_def set_result_def split: option.splits if_splits)
  next
    case PingResp
    then show ?thesis using d handle_pingresp_inv [OF inv] by (simp add: dispatch_outbound_def)
  qed (use d inv in \<open>auto simp: dispatch_outbound_def split: if_splits\<close>)
qed

lemma fold_resolve:
  "fold (\<lambda>f. resolve f (Failed e)) fs s =
     s\<lparr>ob_futures := (\<lambda>g. if g \<in> set fs \<and> ob_futures s g = Waiting then Failed e else ob_futures s g)\<rparr>"
proof (induction fs arbitrary: s)
  case (Cons f fs)
  show ?case by (simp add: Cons.IH) (auto simp: resolve_def fun_eq_iff)
qed simp

lemma run_ends_inv:
  assumes inv: "out_inv (s, acts)"
  shows "out_inv (run_ends cause s, acts)"
proof -
  note i = out_invD [OF inv]
  let ?e = "Failed (MQTTDisconnectedError ''Connection lost'')"
  let ?s = "run_ends cause s"
  have s': "waits ?s = waits s" "ob_packet_ids ?s = ob_packet_ids s" "ob_fresh ?s = ob_fresh s" "ob_ping_waiters ?s = []"
    "keys_ok ?s = keys_ok s"
    by (simp_all add: run_ends_def cancel_pending_replies_def fold_resolve waits_def keys_ok_def)
  have same: "awaited_futures (s\<lparr>ob_death_cause := c, ob_dead := True\<rparr>) = awaited_futures s" for c
    by (simp add: awaited_futures_def)
  have fut: "ob_futures ?s = (\<lambda>g. if g \<in> set (awaited_futures s) \<and> ob_futures s g = Waiting then ?e else ob_futures s g)"
    by (simp add: run_ends_def cancel_pending_replies_def fold_resolve same fun_eq_iff)
  have aw: "f \<in> set (awaited_futures s)" if "(k, pid, f) \<in> waits s" for k pid f
    using that by (cases k) (force simp: waits_mem awaited_futures_def)+
  have fin: "ob_futures ?s f \<noteq> Waiting" if "(k, pid, f) \<in> waits s" for k pid f using aw [OF that] by (simp add: fut)
  have ping: "ob_futures ?s f \<noteq> Waiting" if "f \<in> set (ob_ping_waiters s)" for f
    using that by (simp add: fut awaited_futures_def)
  have ans: "ob_futures ?s f = Answered x \<longleftrightarrow> ob_futures s f = Answered x" for f x by (auto simp: fut)
  have wait: "ob_futures s f = Waiting" if "ob_futures ?s f = Waiting" for f using that by (auto simp: fut split: if_splits)
  have act: "activity_ok ?s a" if "activity_ok s a" for a
    using that fin ping wait by (cases a) (auto simp: request_ok_def ping_ok_def s' ans)
  have wok: "waits_ok ?s" using i(2) unfolding waits_ok_def s' by auto
  show ?thesis
    by (rule out_invI) (use i(1,3-8) wok act fin in \<open>auto simp: s'\<close>)
qed

lemma finish_state:
  "finish act s = Some (res, s') \<Longrightarrow> s' = activity_finally act s"
  by (auto simp: finish_def split: option.splits sum.splits)

lemma ostep_inv: "ostep st st' \<Longrightarrow> out_inv st \<Longrightarrow> out_inv st'"
proof (induction rule: ostep.induct)
  case (publish_waits p s act s' acts)
  then show ?case using publish_inv [of s acts p] by simp
next
  case (publish_over p s s' acts)
  then show ?case using publish_inv [of s acts p] by simp
next
  case (publish_fails p s e s' acts)
  then show ?case using publish_inv [of s acts p] by simp
next
  case (subscribe reqs ident s act s' acts)
  then show ?case using send_subscribe_inv [of s acts reqs ident] by simp
next
  case (subscribe_fails reqs ident s e s' acts)
  then show ?case using send_subscribe_inv [of s acts reqs ident] by simp
next
  case (unsubscribe flts s act s' acts)
  then show ?case using send_unsubscribe_inv [of s acts flts] by simp
next
  case (unsubscribe_fails flts s e s' acts)
  then show ?case using send_unsubscribe_inv [of s acts flts] by simp
next
  case (ping s act s' acts)
  then show ?case using ping_inv [of s acts] by simp
next
  case (ping_fails s e s' acts)
  then show ?case using ping_inv [of s acts] by simp
next
  case (ping_times_out s f e s' as bs)
  note i = out_invD [OF ping_times_out.prems]
  have inv: "out_inv (s, as @ bs)" using drop_activity [OF ping_times_out.prems] by simp
  have "Pinging f \<notin> set (as @ bs)" using i(6) by force
  then have "out_inv (s\<lparr>ob_ping_waiters := remove1 f (ob_ping_waiters s)\<rparr>, as @ bs)"
    by (intro ping_removed [OF inv refl]) blast
  with inv ping_times_out.hyps show ?case by (auto simp: ping_timeout_def split: if_splits)
next
  case (write_fails s as act bs)
  then show ?case by (rule finally_inv)
next
  case (cancelled act s as bs)
  then show ?case by (intro resolve_inv) simp_all
next
  case (ping_cancelled s as f bs)
  then show ?case using drop_activity [of s as "Pinging f" bs] by simp
next
  case (finished act s res s' as bs)
  then show ?case using finish_state [of act s res s'] finally_inv [of s as act bs] by simp
next
  case (received s packet err s' acts)
  then show ?case using dispatch_inv by blast
next
  case (negotiated s acts q r)
  then show ?case
    using out_invD(1) [OF negotiated] by (intro same_view_inv [OF negotiated]) (auto simp: keys_ok_def waits_def)
next
  case (ends s acts cause)
  then show ?case by (rule run_ends_inv)
qed

lemma outbound_init_inv: "out_inv (outbound_init v, [])"
  by (rule out_invI)
    (auto simp: outbound_init_def keys_ok_def waits_ok_def waits_def PacketIdPool_init_def pool_inv_def)

interpretation out_run: step_invariant ostep out_inv
  by unfold_locales (rule ostep_inv)

lemmas osteps_inv = out_run.steps_kept

section \<open>Properties\<close>

text \<open>\<open>reachable s acts\<close>: some interleaving of operations, packets and failures leads there.\<close>

definition reachable :: "outbound \<Rightarrow> operation list \<Rightarrow> bool" where
  "reachable s acts \<longleftrightarrow> (\<exists>v. ostep\<^sup>*\<^sup>* (outbound_init v, []) (s, acts))"

lemma reachable_inv: "reachable s acts \<Longrightarrow> out_inv (s, acts)"
  using osteps_inv outbound_init_inv unfolding reachable_def by blast

lemma reachable_init: "reachable (outbound_init v) []"
  unfolding reachable_def by blast

lemma reachable_step: "reachable s acts \<Longrightarrow> ostep (s, acts) (s', acts') \<Longrightarrow> reachable s' acts'"
  unfolding reachable_def by (meson rtranclp.rtrancl_into_rtrancl)

definition request_ids :: "outbound \<Rightarrow> int set" where
  "request_ids s = fst ` set (ob_inflight_qos1 s) \<union> fst ` set (ob_inflight_qos2_out s)
     \<union> fst ` set (ob_pending_subs s) \<union> fst ` set (ob_pending_unsubs s)"

lemma wait_ids: "(fst \<circ> snd) ` waits s = request_ids s"
proof -
  have "(\<exists>k f. (k, pid, f) \<in> waits s) \<longleftrightarrow> pid \<in> request_ids s" for pid
  proof
    assume "\<exists>k f. (k, pid, f) \<in> waits s"
    then obtain k f where "(k, pid, f) \<in> waits s" by blast
    then show "pid \<in> request_ids s" by (cases k) (force simp: waits_mem request_ids_def)+
  next
    assume "pid \<in> request_ids s"
    then obtain k f where "(k, pid, f) \<in> waits s"
      unfolding request_ids_def using waits_mem [of pid _ s] by (elim UnE imageE) (metis prod.collapse)+
    then show "\<exists>k f. (k, pid, f) \<in> waits s" by blast
  qed
  then show ?thesis by force
qed

lemma acquire_returns:
  assumes "out_inv (s, acts)"
  shows "acquire_id s \<noteq> (Inl No_Return, s')"
proof -
  have "acquire (ob_packet_ids s) \<noteq> None"
    using pool.acq_free [OF out_invD(3) [OF assms]] pool.acq_full [OF out_invD(3) [OF assms]] by fastforce
  then show ?thesis by (auto simp: acquire_id_def split: option.splits sum.splits)
qed

lemma send_error: "send packet s = (Some e, s') \<Longrightarrow> s' = s \<and> (\<exists>we. e = Wire_Error we)"
  by (auto simp: send_def split: sum.splits)

lemma publish_returns:
  assumes "out_inv (s, acts)"
  shows "fst (publish p s) \<noteq> Inl No_Return"
proof -
  have q: "fst (publish_qos0 p s) \<noteq> Inl No_Return" "fst (publish_qos1 p s) \<noteq> Inl No_Return"
    "fst (publish_qos2 p s) \<noteq> Inl No_Return"
    using acquire_returns [OF assms]
    by (auto simp: publish_qos0_def publish_qos1_def publish_qos2_def Let_def dest: send_error
        split: prod.split sum.split option.split)
  then show ?thesis
    by (auto simp: publish_def ensure_alive_def split: QoS.split)
qed

lemma request_ids_disjoint:
  assumes "out_inv (s, acts)"
  shows "distinct (map fst (ob_inflight_qos1 s) @ map fst (ob_inflight_qos2_out s)
    @ map fst (ob_pending_subs s) @ map fst (ob_pending_unsubs s))"
proof -
  let ?ids = "\<lambda>k. {pid. \<exists>f. (k, pid, f) \<in> waits s}"
  have sets: "?ids KPublish = set (map fst (ob_inflight_qos1 s))"
    "?ids KPublish2 = set (map fst (ob_inflight_qos2_out s))"
    "?ids KSubscribe = set (map fst (ob_pending_subs s))"
    "?ids KUnsubscribe = set (map fst (ob_pending_unsubs s))"
    by (force simp: waits_mem)+
  have "k = k'" if "pid \<in> ?ids k" "pid \<in> ?ids k'" for k k' pid
    using out_invD(2) [OF assms] that unfolding waits_ok_def by blast
  then have "?ids k \<inter> ?ids k' = {}" if "k \<noteq> k'" for k k' using that by blast
  then show ?thesis
    using out_invD(1) [OF assms] unfolding keys_ok_def distinct_append set_append sets [symmetric]
    by (simp add: Int_Un_distrib)
qed

lemma packet_ids_accounted_parts:
  assumes "reachable s acts"
  shows "pool_in_use (ob_packet_ids s) = request_ids s" and "request_ids s \<subseteq> {1..65535}"
    and "distinct (map fst (ob_inflight_qos1 s) @ map fst (ob_inflight_qos2_out s)
      @ map fst (ob_pending_subs s) @ map fst (ob_pending_unsubs s))"
    and "acts = [] \<Longrightarrow> ob_pending_subs s = [] \<and> ob_pending_unsubs s = []"
    and "fst (publish p s) \<noteq> Inl No_Return"
proof -
  note inv = reachable_inv [OF assms]
  note i = out_invD [OF inv]
  show ids: "pool_in_use (ob_packet_ids s) = request_ids s" using i(4) by (simp only: wait_ids)
  show "request_ids s \<subseteq> {1..65535}" using pool.used_ids [OF i(3)] by (simp only: ids)
  show "distinct (map fst (ob_inflight_qos1 s) @ map fst (ob_inflight_qos2_out s)
      @ map fst (ob_pending_subs s) @ map fst (ob_pending_unsubs s))"
    using request_ids_disjoint [OF inv] .
  show "fst (publish p s) \<noteq> Inl No_Return" using publish_returns [OF inv] .
  assume "acts = []"
  then have "(pid, f) \<notin> set (ob_pending_subs s)" "(pid, f) \<notin> set (ob_pending_unsubs s)" for pid f
    using i(7,8) [of pid f] by (auto simp: waits_mem)
  then have "set (ob_pending_subs s) = {}" "set (ob_pending_unsubs s) = {}" by (metis ex_in_conv surj_pair)+
  then show "ob_pending_subs s = [] \<and> ob_pending_unsubs s = []" by simp
qed

text \<open>
  C18: packet ids are accounted for.  In every interleaving the ids the pool holds are exactly those
  under which a publish, subscribe or unsubscribe is registered, all within 1 to 65535, no id is
  registered twice, and when no operation is under way no subscribe or unsubscribe is left
  registered.  Publishing never searches for an id forever.
\<close>

theorem packet_ids_accounted:
  assumes "reachable s acts"
  shows "(pool_in_use (ob_packet_ids s) = request_ids s)
    \<and> (request_ids s \<subseteq> {1..65535})
    \<and> (distinct (map fst (ob_inflight_qos1 s) @ map fst (ob_inflight_qos2_out s)
      @ map fst (ob_pending_subs s) @ map fst (ob_pending_unsubs s)))
    \<and> (acts = [] \<longrightarrow> ob_pending_subs s = [] \<and> ob_pending_unsubs s = [])
    \<and> (fst (publish p s) \<noteq> Inl No_Return)"
  using packet_ids_accounted_parts [OF assms] by blast

definition example_publish :: "QoS \<Rightarrow> Publish" where
  "example_publish qos = \<lparr>pub_topic = str_lit ''a'', pub_payload = [1], pub_qos = qos, pub_retain = False,
     pub_dup = False, pub_packet_id = None, pub_properties = None\<rparr>"

lemma acquire_first: "acquire PacketIdPool_init = Some (Inr (1, \<lparr>pool_next = 2, pool_in_use = {1}\<rparr>))"
  by (subst acquire_def, subst acquire_loop.simps) (simp add: PacketIdPool_init_def)

lemma example_encode:
  "encode (Publish (example_publish EXACTLY_ONCE\<lparr>pub_packet_id := Some 1\<rparr>)) V50 = Inr [0x34, 7, 0, 1, 97, 0, 1, 0, 1]"
  by code_simp

lemma example_state:
  obtains s where "publish (example_publish EXACTLY_ONCE) (outbound_init V50) = (Inr (Some (Publishing2 1 0)), s)"
    and "reachable s [Publishing2 1 0]" and "\<not> ob_dead s" and "ob_futures s 0 = Waiting"
    and "\<exists>fl. map_of (ob_inflight_qos2_out s) 1 = Some fl \<and> o2_state fl = PENDING_PUBREC \<and> o2_future fl = 0"
proof -
  define s where "s = snd (publish (example_publish EXACTLY_ONCE) (outbound_init V50))"
  have p: "publish (example_publish EXACTLY_ONCE) (outbound_init V50) = (Inr (Some (Publishing2 1 0)), s)"
    and f: "\<not> ob_dead s" "ob_futures s 0 = Waiting"
    "\<exists>fl. map_of (ob_inflight_qos2_out s) 1 = Some fl \<and> o2_state fl = PENDING_PUBREC \<and> o2_future fl = 0"
    using example_encode
    by (simp_all add: s_def publish_def ensure_alive_def outbound_init_def publish_qos2_def acquire_id_def
        acquire_first create_future_def send_def Let_def example_publish_def)
  have "reachable s [Publishing2 1 0]"
    by (rule reachable_step [OF reachable_init]) (rule ostep.publish_waits [OF p])
  with that p f show ?thesis by blast
qed

theorem packet_ids_accounted_witness:
  "\<exists>s acts. reachable s acts \<and> acts \<noteq> [] \<and> pool_in_use (ob_packet_ids s) = request_ids s"
  by (rule example_state) (use packet_ids_accounted in blast)

text \<open>
  C19: an operation that returns normally returns the answer to its own request: a PUBACK, PUBCOMP,
  SUBACK or UNSUBACK with the packet id of its publish, subscribe or unsubscribe, with no failure
  code in a PUBACK or SUBACK, and for a ping a PINGRESP.
\<close>

theorem reply_matches_request:
  assumes "reachable s acts" and "act \<in> set acts" and "finish act s = Some (Inr packet, s')"
  shows "case request_of act of
      Some (k, pid, f) \<Rightarrow> answers k pid packet
        \<and> (\<forall>puback. k = KPublish \<longrightarrow> packet = PubAck puback \<longrightarrow> pav_reason_code puback < 0x80)
        \<and> (\<forall>suback reqs. act = Subscribing pid f reqs \<longrightarrow> packet = SubAck suback \<longrightarrow> rejected_filters reqs suback = [])
    | None \<Rightarrow> packet = PingResp"
proof -
  have r: "ob_futures s (activity_future act) = Answered packet" "check_reply act packet = None"
    using assms(3) by (auto simp: finish_def await_reply_def split: option.splits sum.splits reply.splits)
  note ok = activity_okD [OF out_invD(5) [OF reachable_inv [OF assms(1)] assms(2)]]
  have codes: "pav_reason_code puback < 0x80" if "act = Publishing pid f" "packet = PubAck puback" for pid f puback
    using r(2) that by (simp add: check_reply_def raise_on_rejected_puback_def split: if_splits)
  have filters: "rejected_filters reqs suback = []"
    if "act = Subscribing pid f reqs" "packet = SubAck suback" for pid f reqs suback
    using r(2) that by (simp add: check_reply_def raise_on_rejected_filters_def Let_def split: if_splits)
  show ?thesis
  proof (cases "request_of act")
    case None
    then show ?thesis using ok(2) r(1) by (simp add: ping_ok_def)
  next
    case (Some kpf)
    obtain k pid f where kpf: "kpf = (k, pid, f)" by (cases kpf)
    have "answers k pid packet"
      using ok(1) [of k pid f] r(1) request_future Some by (auto simp: request_ok_def kpf)
    moreover have "pav_reason_code puback < 0x80" if "k = KPublish" "packet = PubAck puback" for puback
      using codes that Some by (cases act) (auto simp: kpf)
    ultimately show ?thesis using filters Some by (simp add: kpf)
  qed
qed

lemma example_puback:
  "\<exists>s. reachable s [Publishing 1 0]
     \<and> finish (Publishing 1 0) s = Some (Inr (PubAck \<lparr>pav_packet_id = 1, pav_reason_code = 0, pav_properties = None\<rparr>), s)"
proof -
  let ?ack = "\<lparr>pav_packet_id = 1, pav_reason_code = 0, pav_properties = None\<rparr> :: PubAckVariant"
  have e: "encode (Publish (example_publish AT_LEAST_ONCE\<lparr>pub_packet_id := Some 1\<rparr>)) V311
      = Inr [0x32, 6, 0, 1, 97, 0, 1, 1]" by code_simp
  define s where "s = snd (publish (example_publish AT_LEAST_ONCE) (outbound_init V311))"
  have p: "publish (example_publish AT_LEAST_ONCE) (outbound_init V311) = (Inr (Some (Publishing 1 0)), s)"
    and q: "\<not> ob_dead s" "map_of (ob_inflight_qos1 s) 1 \<noteq> None" "\<And>fl. map_of (ob_inflight_qos1 s) 1 = Some fl \<Longrightarrow> q1_future fl = 0"
      "ob_futures s 0 = Waiting"
    using e by (auto simp: s_def publish_def ensure_alive_def outbound_init_def publish_qos1_def acquire_id_def
        acquire_first create_future_def send_def Let_def example_publish_def)
  then obtain fl where fl: "map_of (ob_inflight_qos1 s) 1 = Some fl" "q1_future fl = 0" by auto
  define s' where "s' = snd (dispatch_outbound (PubAck ?ack) s)"
  have d: "dispatch_outbound (PubAck ?ack) s = (None, s')" and f: "ob_futures s' 0 = Answered (PubAck ?ack)"
    using fl q(4) by (simp_all add: s'_def dispatch_outbound_def handle_puback_def Let_def)
  have "reachable s [Publishing 1 0]"
    by (rule reachable_step [OF reachable_init]) (rule ostep.publish_waits [OF p])
  then have "reachable s' [Publishing 1 0]"
    by (rule reachable_step) (rule ostep.received [OF q(1) d])
  moreover have "finish (Publishing 1 0) s' = Some (Inr (PubAck ?ack), s')"
    using f by (simp add: finish_def await_reply_def check_reply_def raise_on_rejected_puback_def activity_finally_def)
  ultimately show ?thesis by blast
qed

theorem reply_matches_request_witness:
  "\<exists>s packet. finish (Publishing 1 0) s = Some (Inr packet, s) \<and> answers KPublish 1 packet"
proof -
  obtain s where s: "reachable s [Publishing 1 0]"
    "finish (Publishing 1 0) s = Some (Inr (PubAck \<lparr>pav_packet_id = 1, pav_reason_code = 0, pav_properties = None\<rparr>), s)"
    using example_puback by blast
  from reply_matches_request [OF s(1) _ s(2)]
  have "answers KPublish 1 (PubAck \<lparr>pav_packet_id = 1, pav_reason_code = 0, pav_properties = None\<rparr>)" by simp
  with s(2) show ?thesis by blast
qed

lemma no_waiter_hangs_parts:
  assumes "reachable s acts"
  shows "act \<in> set acts \<Longrightarrow> finish act (run_ends cause s) \<noteq> None"
    and "ob_dead s \<Longrightarrow> act \<in> set acts \<Longrightarrow> \<not> is_ping act \<Longrightarrow> finish act s \<noteq> None"
    and "ob_dead s \<Longrightarrow> publish p s = (Inl (MQTTDisconnectedError ''Connection lost''), s)"
    and "ob_dead s \<Longrightarrow> send_subscribe reqs ident s = (Inl (MQTTDisconnectedError ''Connection lost''), s)"
    and "ob_dead s \<Longrightarrow> send_unsubscribe flts s = (Inl (MQTTDisconnectedError ''Connection lost''), s)"
proof -
  note i = out_invD [OF reachable_inv [OF assms]]
  show "publish p s = (Inl (MQTTDisconnectedError ''Connection lost''), s)"
    "send_subscribe reqs ident s = (Inl (MQTTDisconnectedError ''Connection lost''), s)"
    "send_unsubscribe flts s = (Inl (MQTTDisconnectedError ''Connection lost''), s)" if "ob_dead s"
    using that by (simp_all add: publish_def send_subscribe_def send_unsubscribe_def ensure_alive_def)
  have finishes: "finish act t \<noteq> None" if "ob_futures t (activity_future act) \<noteq> Waiting" for t
    using that by (auto simp: finish_def await_reply_def split: reply.splits)
  show "finish act s \<noteq> None" if dead: "ob_dead s" and act: "act \<in> set acts" "\<not> is_ping act"
  proof -
    obtain k pid f where r: "request_of act = Some (k, pid, f)" using act(2) by (cases act) (auto simp: is_ping_def)
    have "request_ok s k pid f" using activity_okD(1) [OF i(5) [OF act(1)] r] .
    then have "ob_futures s f \<noteq> Waiting" using i(9) [OF dead] unfolding request_ok_def by blast
    then show ?thesis using finishes request_future [OF r] by simp
  qed
  show "finish act (run_ends cause s) \<noteq> None" if "act \<in> set acts"
  proof (rule finishes, rule notI)
    let ?f = "activity_future act"
    assume w: "ob_futures (run_ends cause s) ?f = Waiting"
    then have fut: "ob_futures s ?f = Waiting" "?f \<notin> set (awaited_futures s)"
      by (auto simp: run_ends_def cancel_pending_replies_def fold_resolve awaited_futures_def split: if_splits)
    show False
    proof (cases "request_of act")
      case None
      then have "?f \<in> set (ob_ping_waiters s)" using activity_okD(2) [OF i(5) [OF that]] fut by (simp add: ping_ok_def)
      then show False using fut by (simp add: awaited_futures_def)
    next
      case (Some kpf)
      obtain k pid f where kpf: "kpf = (k, pid, f)" by (cases kpf)
      have "(k, pid, ?f) \<in> waits s"
        using activity_okD(1) [OF i(5) [OF that], of k pid f] request_future [of act k pid f] Some fut
        by (auto simp: request_ok_def kpf)
      then show False using fut by (cases k) (force simp: waits_mem awaited_futures_def)+
    qed
  qed
qed

text \<open>
  C20: nobody waits for an answer that cannot come any more.  Once the connection has ended, every
  operation under way, pings included, finishes as soon as it runs; from then on the same holds for
  every operation but a ping in any later state, and new publishes, subscribes and unsubscribes are
  refused at once without a trace.
\<close>

theorem no_waiter_hangs:
  assumes "reachable s acts"
  shows "(act \<in> set acts \<longrightarrow> finish act (run_ends cause s) \<noteq> None)
    \<and> (ob_dead s \<longrightarrow> act \<in> set acts \<longrightarrow> \<not> is_ping act \<longrightarrow> finish act s \<noteq> None)
    \<and> (ob_dead s \<longrightarrow> publish p s = (Inl (MQTTDisconnectedError ''Connection lost''), s))
    \<and> (ob_dead s \<longrightarrow> send_subscribe reqs ident s = (Inl (MQTTDisconnectedError ''Connection lost''), s))
    \<and> (ob_dead s \<longrightarrow> send_unsubscribe flts s = (Inl (MQTTDisconnectedError ''Connection lost''), s))"
  using no_waiter_hangs_parts [OF assms] by blast

theorem no_waiter_hangs_witness:
  "\<exists>s. ob_futures s 0 = Waiting \<and> finish (Publishing2 1 0) (run_ends None s) \<noteq> None"
  by (rule example_state) (use no_waiter_hangs [of _ "[Publishing2 1 0]" "Publishing2 1 0" None] in force)

text \<open>A PUBREL with the id of a flight can always be encoded.\<close>

lemma encode_pubrel:
  assumes "pid \<in> {1..65535}"
  shows "\<exists>bytes. encode (PubRel \<lparr>pav_packet_id = pid, pav_reason_code = 0, pav_properties = None\<rparr>) v = Inr bytes"
proof -
  have "0 \<le> pid" "pid < 65536" using assms by auto
  then show ?thesis
    by (simp add: encode_def encode_pub_ack_variant_def packet_id_only_def pack_H_def build_packet_def
        byte_of_def encode_varint_def MAX_MQTT_VARINT_def)
qed

lemma send_pubrel:
  assumes "pid \<in> {1..65535}"
  shows "send (PubRel \<lparr>pav_packet_id = pid, pav_reason_code = 0, pav_properties = None\<rparr>) s
    = (None, s\<lparr>ob_sent := ob_sent s @ [PubRel \<lparr>pav_packet_id = pid, pav_reason_code = 0, pav_properties = None\<rparr>]\<rparr>)"
  using encode_pubrel [OF assms, of "ob_version s"] by (auto simp: send_def)

text \<open>The state after an accepted PUBREC, and what ends a flight.\<close>

definition awaiting_pubcomp :: "int \<Rightarrow> OutboundQoS2Flight \<Rightarrow> outbound \<Rightarrow> outbound" where
  "awaiting_pubcomp pid flight s =
     s\<lparr>ob_inflight_qos2_out := AList.update pid (flight\<lparr>o2_state := PENDING_PUBCOMP\<rparr>) (ob_inflight_qos2_out s),
       ob_sent := ob_sent s @ [PubRel \<lparr>pav_packet_id = pid, pav_reason_code = 0, pav_properties = None\<rparr>]\<rparr>"

lemma flight_id:
  assumes "out_inv (s, acts)" and "map_of (ob_inflight_qos2_out s) pid = Some flight"
  shows "pid \<in> {1..65535}"
    and "pool_in_use (release pid (ob_packet_ids s)) = pool_in_use (ob_packet_ids s) - {pid}"
proof -
  have "(KPublish2, pid, o2_future flight) \<in> waits s" using map_of_SomeD [OF assms(2)] by (force simp: waits_mem)
  then show pid: "pid \<in> {1..65535}" using wait_id [OF assms(1)] by blast
  show "pool_in_use (release pid (ob_packet_ids s)) = pool_in_use (ob_packet_ids s) - {pid}"
    using pool.rel_used [OF out_invD(3) [OF assms(1)] pid] by blast
qed

lemma pubrec_accepted:
  assumes "pid \<in> {1..65535}" and "map_of (ob_inflight_qos2_out s) pid = Some flight"
    and "o2_state flight = PENDING_PUBREC" and "pav_packet_id pubrec = pid" and "pav_reason_code pubrec < 0x80"
  shows "handle_pubrec pubrec s = (None, awaiting_pubcomp pid flight s)"
  using assms by (simp add: handle_pubrec_def awaiting_pubcomp_def send_pubrel)

lemma pubrec_again:
  "handle_pubrec again (awaiting_pubcomp (pav_packet_id again) flight s)
     = (Some (MQTTProtocolError ''PUBREC in wrong state''), awaiting_pubcomp (pav_packet_id again) flight s)"
  by (simp add: handle_pubrec_def Let_def awaiting_pubcomp_def update_conv')

definition flight_ended :: "int \<Rightarrow> nat \<Rightarrow> reply \<Rightarrow> outbound \<Rightarrow> outbound \<Rightarrow> bool" where
  "flight_ended pid f r s s' \<longleftrightarrow> map_of (ob_inflight_qos2_out s') pid = None \<and> ob_sent s' = ob_sent s
     \<and> pool_in_use (ob_packet_ids s') = pool_in_use (ob_packet_ids s) - {pid}
     \<and> (ob_futures s f = Waiting \<longrightarrow> ob_futures s' f = r)"

lemma pubcomp_ends:
  assumes "map_of (ob_inflight_qos2_out s) pid = Some flight" and "pav_packet_id pubcomp = pid"
    and "pool_in_use (release pid (ob_packet_ids s)) = pool_in_use (ob_packet_ids s) - {pid}"
  shows "\<exists>s'. handle_pubcomp pubcomp s = (None, s') \<and> flight_ended pid (o2_future flight) (Answered (PubComp pubcomp)) s s'"
  using assms by (simp add: handle_pubcomp_def flight_ended_def resolve_def release_id_def delete_conv')

lemma pubrec_rejected:
  assumes "map_of (ob_inflight_qos2_out s) pid = Some flight" and "o2_state flight = PENDING_PUBREC"
    and "pav_packet_id pubrec = pid" and "pav_reason_code pubrec \<ge> 0x80"
    and "pool_in_use (release pid (ob_packet_ids s)) = pool_in_use (ob_packet_ids s) - {pid}"
  shows "\<exists>s'. handle_pubrec pubrec s = (None, s') \<and> flight_ended pid (o2_future flight) (Failed (publish_error pubrec)) s s'"
  using assms by (simp add: handle_pubrec_def flight_ended_def resolve_def release_id_def delete_conv')

lemma qos2_outbound_flow_parts:
  assumes "reachable s acts" and "map_of (ob_inflight_qos2_out s) pid = Some flight"
    and "o2_state flight = PENDING_PUBREC" and "pav_packet_id pubrec = pid"
  shows "pav_reason_code pubrec < 0x80 \<Longrightarrow> \<exists>s1.
      handle_pubrec pubrec s = (None, s1)
      \<and> ob_sent s1 = ob_sent s @ [PubRel \<lparr>pav_packet_id = pid, pav_reason_code = 0, pav_properties = None\<rparr>]
      \<and> ob_packet_ids s1 = ob_packet_ids s \<and> ob_futures s1 = ob_futures s
      \<and> (\<forall>again. pav_packet_id again = pid \<longrightarrow>
           handle_pubrec again s1 = (Some (MQTTProtocolError ''PUBREC in wrong state''), s1))
      \<and> (\<forall>pubcomp. pav_packet_id pubcomp = pid \<longrightarrow> (\<exists>s2. handle_pubcomp pubcomp s1 = (None, s2)
           \<and> flight_ended pid (o2_future flight) (Answered (PubComp pubcomp)) s1 s2))"
    and "pav_reason_code pubrec \<ge> 0x80 \<Longrightarrow> \<exists>s1. handle_pubrec pubrec s = (None, s1)
      \<and> flight_ended pid (o2_future flight) (Failed (publish_error pubrec)) s s1"
proof -
  note id = flight_id [OF reachable_inv [OF assms(1)] assms(2)]
  have comp: "\<exists>s2. handle_pubcomp pubcomp (awaiting_pubcomp pid flight s) = (None, s2)
      \<and> flight_ended pid (o2_future flight) (Answered (PubComp pubcomp)) (awaiting_pubcomp pid flight s) s2"
    if "pav_packet_id pubcomp = pid" for pubcomp
    using pubcomp_ends [of "awaiting_pubcomp pid flight s" pid "flight\<lparr>o2_state := PENDING_PUBCOMP\<rparr>"] that id(2)
    by (simp add: awaiting_pubcomp_def update_conv')
  assume "pav_reason_code pubrec < 0x80"
  note rec = pubrec_accepted [OF id(1) assms(2-4) this]
  show "\<exists>s1. handle_pubrec pubrec s = (None, s1)
      \<and> ob_sent s1 = ob_sent s @ [PubRel \<lparr>pav_packet_id = pid, pav_reason_code = 0, pav_properties = None\<rparr>]
      \<and> ob_packet_ids s1 = ob_packet_ids s \<and> ob_futures s1 = ob_futures s
      \<and> (\<forall>again. pav_packet_id again = pid \<longrightarrow>
           handle_pubrec again s1 = (Some (MQTTProtocolError ''PUBREC in wrong state''), s1))
      \<and> (\<forall>pubcomp. pav_packet_id pubcomp = pid \<longrightarrow> (\<exists>s2. handle_pubcomp pubcomp s1 = (None, s2)
           \<and> flight_ended pid (o2_future flight) (Answered (PubComp pubcomp)) s1 s2))"
    by (rule exI [of _ "awaiting_pubcomp pid flight s"])
      (use rec comp pubrec_again in \<open>auto simp: awaiting_pubcomp_def\<close>)
qed (use pubrec_rejected [OF assms(2-4)] flight_id(2) [OF reachable_inv [OF assms(1)] assms(2)] in blast)

text \<open>
  C21: the QoS 2 handshake of the publisher.  In every reachable state with a flight that waits for
  its PUBREC: a PUBREC without failure code is answered by one PUBREL, keeps the id in use and
  settles nothing yet; after it a second PUBREC is a protocol error that changes nothing, and the
  PUBCOMP ends the flight, frees its id and hands itself to the publisher.  A PUBREC with a failure
  code ends the flight at once: no PUBREL, the id is free, and the publisher gets the broker's code.
\<close>

theorem qos2_outbound_flow:
  assumes "reachable s acts" and "map_of (ob_inflight_qos2_out s) pid = Some flight"
    and "o2_state flight = PENDING_PUBREC" and "pav_packet_id pubrec = pid"
  shows "(pav_reason_code pubrec < 0x80 \<longrightarrow> (\<exists>s1.
      handle_pubrec pubrec s = (None, s1)
      \<and> ob_sent s1 = ob_sent s @ [PubRel \<lparr>pav_packet_id = pid, pav_reason_code = 0, pav_properties = None\<rparr>]
      \<and> ob_packet_ids s1 = ob_packet_ids s \<and> ob_futures s1 = ob_futures s
      \<and> (\<forall>again. pav_packet_id again = pid \<longrightarrow>
           handle_pubrec again s1 = (Some (MQTTProtocolError ''PUBREC in wrong state''), s1))
      \<and> (\<forall>pubcomp. pav_packet_id pubcomp = pid \<longrightarrow> (\<exists>s2. handle_pubcomp pubcomp s1 = (None, s2)
           \<and> flight_ended pid (o2_future flight) (Answered (PubComp pubcomp)) s1 s2))))
    \<and> (pav_reason_code pubrec \<ge> 0x80 \<longrightarrow> (\<exists>s1. handle_pubrec pubrec s = (None, s1)
      \<and> flight_ended pid (o2_future flight) (Failed (publish_error pubrec)) s s1))"
  using qos2_outbound_flow_parts [OF assms] by blast

theorem qos2_outbound_flow_witness:
  "\<exists>s s1. handle_pubrec \<lparr>pav_packet_id = 1, pav_reason_code = 0, pav_properties = None\<rparr> s = (None, s1)
     \<and> ob_sent s1 = ob_sent s @ [PubRel \<lparr>pav_packet_id = 1, pav_reason_code = 0, pav_properties = None\<rparr>]"
proof (rule example_state)
  fix s
  assume s: "reachable s [Publishing2 1 0]"
    and "\<exists>fl. map_of (ob_inflight_qos2_out s) 1 = Some fl \<and> o2_state fl = PENDING_PUBREC \<and> o2_future fl = 0"
  then obtain fl where fl: "map_of (ob_inflight_qos2_out s) 1 = Some fl" "o2_state fl = PENDING_PUBREC" by blast
  from qos2_outbound_flow [OF s fl, of "\<lparr>pav_packet_id = 1, pav_reason_code = 0, pav_properties = None\<rparr>"]
  show ?thesis by auto
qed

lemma publish_accepted:
  assumes "publish p s = (Inr r, s')"
  shows "(case pub_qos p of AT_MOST_ONCE \<Rightarrow> publish_qos0 p s
    | AT_LEAST_ONCE \<Rightarrow> publish_qos1 p s | EXACTLY_ONCE \<Rightarrow> publish_qos2 p s) = (Inr r, s')"
  using assms by (auto simp: publish_def ensure_alive_def split: if_splits)

lemma acquired_id:
  assumes "out_inv (s, acts)" and "acquire_id s = (Inr pid, s1)"
  shows "pid \<in> {1..65535} - pool_in_use (ob_packet_ids s)"
proof -
  obtain pool where "acquire (ob_packet_ids s) = Some (Inr (pid, pool))"
    using assms(2) by (auto simp: acquire_id_def split: option.splits sum.splits)
  then show ?thesis using pool.acq_cases [OF out_invD(3) [OF assms(1)]] by blast
qed

lemma acquired_frame: "acquire_id s = (Inr pid, s1) \<Longrightarrow> \<exists>pool. s1 = s\<lparr>ob_packet_ids := pool\<rparr>"
  by (auto simp: acquire_id_def split: option.splits sum.splits)

lemma publish_requested:
  "publish_qos1 p s = (Inr (Some act), s') \<Longrightarrow> \<exists>pid f s1. acquire_id s = (Inr pid, s1) \<and> act = Publishing pid f
     \<and> ob_sent s' = ob_sent s @ [Publish (p\<lparr>pub_packet_id := Some pid\<rparr>)] \<and> ob_futures s' f = Waiting
     \<and> map_of (ob_inflight_qos1 s') pid = Some \<lparr>q1_packet_id = pid, q1_publish = p\<lparr>pub_packet_id := Some pid\<rparr>, q1_future = f\<rparr>"
  "publish_qos2 p s = (Inr (Some act), s') \<Longrightarrow> \<exists>pid f s1. acquire_id s = (Inr pid, s1) \<and> act = Publishing2 pid f
     \<and> ob_sent s' = ob_sent s @ [Publish (p\<lparr>pub_packet_id := Some pid\<rparr>)] \<and> ob_futures s' f = Waiting
     \<and> map_of (ob_inflight_qos2_out s') pid =
         Some \<lparr>o2_packet_id = pid, o2_publish = p\<lparr>pub_packet_id := Some pid\<rparr>, o2_state = PENDING_PUBREC, o2_future = f\<rparr>"
  "publish_qos1 p s \<noteq> (Inr None, s')" "publish_qos2 p s \<noteq> (Inr None, s')"
  by (auto simp: publish_qos1_def publish_qos2_def create_future_def send_def Let_def update_conv'
      split: prod.splits sum.splits dest!: acquired_frame)

lemma publish_branches_parts:
  assumes "reachable s acts"
  shows "ob_dead s \<Longrightarrow> publish p s = (Inl (MQTTDisconnectedError ''Connection lost''), s)"
    and "\<not> ob_dead s \<Longrightarrow> qos_value (pub_qos p) > qos_value (ob_max_publish_qos s) \<Longrightarrow>
      publish p s = (Inl (MQTTQoSExceededError (qos_value (pub_qos p)) (qos_value (ob_max_publish_qos s))), s)"
    and "\<not> ob_dead s \<Longrightarrow> qos_value (pub_qos p) \<le> qos_value (ob_max_publish_qos s) \<Longrightarrow>
      pub_retain p \<Longrightarrow> \<not> ob_retain_available s \<Longrightarrow> publish p s = (Inl MQTTRetainNotAvailableError, s)"
    and "publish p s = (Inr None, s') \<Longrightarrow> pub_qos p = AT_MOST_ONCE \<and> s' = s\<lparr>ob_sent := ob_sent s @ [Publish p]\<rparr>"
    and "publish p s = (Inr (Some act), s') \<Longrightarrow> \<exists>pid f. ob_sent s' = ob_sent s @ [Publish (p\<lparr>pub_packet_id := Some pid\<rparr>)]
      \<and> pid \<in> {1..65535} - request_ids s \<and> ob_futures s' f = Waiting
      \<and> (pub_qos p = AT_LEAST_ONCE \<and> act = Publishing pid f \<and> map_of (ob_inflight_qos1 s') pid =
            Some \<lparr>q1_packet_id = pid, q1_publish = p\<lparr>pub_packet_id := Some pid\<rparr>, q1_future = f\<rparr>
         \<or> pub_qos p = EXACTLY_ONCE \<and> act = Publishing2 pid f \<and> map_of (ob_inflight_qos2_out s') pid =
            Some \<lparr>o2_packet_id = pid, o2_publish = p\<lparr>pub_packet_id := Some pid\<rparr>, o2_state = PENDING_PUBREC, o2_future = f\<rparr>)"
proof -
  note i = out_invD [OF reachable_inv [OF assms]]
  show "ob_dead s \<Longrightarrow> publish p s = (Inl (MQTTDisconnectedError ''Connection lost''), s)"
    "\<not> ob_dead s \<Longrightarrow> qos_value (pub_qos p) > qos_value (ob_max_publish_qos s) \<Longrightarrow>
      publish p s = (Inl (MQTTQoSExceededError (qos_value (pub_qos p)) (qos_value (ob_max_publish_qos s))), s)"
    "\<not> ob_dead s \<Longrightarrow> qos_value (pub_qos p) \<le> qos_value (ob_max_publish_qos s) \<Longrightarrow>
      pub_retain p \<Longrightarrow> \<not> ob_retain_available s \<Longrightarrow> publish p s = (Inl MQTTRetainNotAvailableError, s)"
    by (simp_all add: publish_def ensure_alive_def)
  show "pub_qos p = AT_MOST_ONCE \<and> s' = s\<lparr>ob_sent := ob_sent s @ [Publish p]\<rparr>" if "publish p s = (Inr None, s')"
    using publish_accepted [OF that] publish_requested(3,4) [of p s s']
    by (cases "pub_qos p") (auto simp: publish_qos0_def send_def split: sum.splits)
  assume "publish p s = (Inr (Some act), s')"
  from publish_accepted [OF this] have q: "(case pub_qos p of AT_MOST_ONCE \<Rightarrow> publish_qos0 p s
      | AT_LEAST_ONCE \<Rightarrow> publish_qos1 p s | EXACTLY_ONCE \<Rightarrow> publish_qos2 p s) = (Inr (Some act), s')" .
  have free: "pid \<in> {1..65535} - request_ids s" if "acquire_id s = (Inr pid, s1)" for pid s1
    using acquired_id [OF reachable_inv [OF assms] that] i(4) by (simp only: wait_ids)
  from q show "\<exists>pid f. ob_sent s' = ob_sent s @ [Publish (p\<lparr>pub_packet_id := Some pid\<rparr>)]
      \<and> pid \<in> {1..65535} - request_ids s \<and> ob_futures s' f = Waiting
      \<and> (pub_qos p = AT_LEAST_ONCE \<and> act = Publishing pid f \<and> map_of (ob_inflight_qos1 s') pid =
            Some \<lparr>q1_packet_id = pid, q1_publish = p\<lparr>pub_packet_id := Some pid\<rparr>, q1_future = f\<rparr>
         \<or> pub_qos p = EXACTLY_ONCE \<and> act = Publishing2 pid f \<and> map_of (ob_inflight_qos2_out s') pid =
            Some \<lparr>o2_packet_id = pid, o2_publish = p\<lparr>pub_packet_id := Some pid\<rparr>, o2_state = PENDING_PUBREC, o2_future = f\<rparr>)"
    using free by (cases "pub_qos p") (fastforce simp: publish_qos0_def send_def split: sum.splits dest: publish_requested(1,2))+
qed

text \<open>
  how a publish begins.  It is refused, and leaves no trace, when the connection is lost, when its
  QoS is above what the broker accepts, and when it asks for retention that the broker does not
  offer.  Otherwise, when the packet can be encoded and an id is free, exactly that packet is sent:
  as it is for QoS 0, and for QoS 1 and 2 under an id that no request uses, where a flight with a
  future that still waits is registered before the first byte leaves.
\<close>

theorem publish_branches:
  assumes "reachable s acts"
  shows "(ob_dead s \<longrightarrow> publish p s = (Inl (MQTTDisconnectedError ''Connection lost''), s))
    \<and> (\<not> ob_dead s \<longrightarrow> qos_value (pub_qos p) > qos_value (ob_max_publish_qos s) \<longrightarrow> publish p s = (Inl (MQTTQoSExceededError (qos_value (pub_qos p)) (qos_value (ob_max_publish_qos s))), s))
    \<and> (\<not> ob_dead s \<longrightarrow> qos_value (pub_qos p) \<le> qos_value (ob_max_publish_qos s) \<longrightarrow> pub_retain p \<longrightarrow> \<not> ob_retain_available s \<longrightarrow> publish p s = (Inl MQTTRetainNotAvailableError, s))
    \<and> (publish p s = (Inr None, s') \<longrightarrow> pub_qos p = AT_MOST_ONCE \<and> s' = s\<lparr>ob_sent := ob_sent s @ [Publish p]\<rparr>)
    \<and> (publish p s = (Inr (Some act), s') \<longrightarrow> (\<exists>pid f. ob_sent s' = ob_sent s @ [Publish (p\<lparr>pub_packet_id := Some pid\<rparr>)]
      \<and> pid \<in> {1..65535} - request_ids s \<and> ob_futures s' f = Waiting
      \<and> (pub_qos p = AT_LEAST_ONCE \<and> act = Publishing pid f \<and> map_of (ob_inflight_qos1 s') pid =
            Some \<lparr>q1_packet_id = pid, q1_publish = p\<lparr>pub_packet_id := Some pid\<rparr>, q1_future = f\<rparr>
         \<or> pub_qos p = EXACTLY_ONCE \<and> act = Publishing2 pid f \<and> map_of (ob_inflight_qos2_out s') pid =
            Some \<lparr>o2_packet_id = pid, o2_publish = p\<lparr>pub_packet_id := Some pid\<rparr>, o2_state = PENDING_PUBREC, o2_future = f\<rparr>)))"
  using publish_branches_parts [OF assms] by blast

theorem publish_branches_witness:
  "\<exists>s act s' f. publish (example_publish EXACTLY_ONCE) s = (Inr (Some act), s') \<and> ob_futures s' f = Waiting
     \<and> publish (example_publish EXACTLY_ONCE) (s\<lparr>ob_max_publish_qos := AT_LEAST_ONCE\<rparr>)
         = (Inl (MQTTQoSExceededError 2 1), s\<lparr>ob_max_publish_qos := AT_LEAST_ONCE\<rparr>)"
proof -
  let ?s = "outbound_init V50"
  let ?t = "?s\<lparr>ob_max_publish_qos := AT_LEAST_ONCE, ob_retain_available := True\<rparr>"
  have t: "reachable ?t []" by (rule reachable_step [OF reachable_init]) (rule ostep.negotiated)
  have "publish (example_publish EXACTLY_ONCE) ?t = (Inl (MQTTQoSExceededError 2 1), ?t)"
    using publish_branches [OF t, of "example_publish EXACTLY_ONCE"] by (simp add: outbound_init_def example_publish_def)
  moreover have "?t = ?s\<lparr>ob_max_publish_qos := AT_LEAST_ONCE\<rparr>" by (simp add: outbound_init_def)
  moreover obtain s' where "publish (example_publish EXACTLY_ONCE) ?s = (Inr (Some (Publishing2 1 0)), s')"
    by (rule example_state)
  moreover from publish_branches [OF reachable_init] this obtain f where "ob_futures s' f = Waiting" by blast
  ultimately show ?thesis by metis
qed

section \<open>Corner cases of the code\<close>

text \<open>
  A subscribe that is cancelled forgets its packet id, so the SUBACK that the broker then sends is a
  protocol error and ends the connection.
\<close>

lemma late_suback_fatal:
  assumes "sback_packet_id suback = pid" and "ob_futures s f = Cancelled"
  shows "\<exists>s'. finish (Subscribing pid f reqs) s = Some (Inl CancelledError, s')
    \<and> dispatch_outbound (SubAck suback) s' = (Some (MQTTProtocolError ''SUBACK for unknown packet_id''), s')"
  using assms
  by (simp add: finish_def await_reply_def activity_finally_def sub_finally_def release_id_def
      dispatch_outbound_def handle_suback_def unknown_id_def delete_conv')

text \<open>A second SUBACK that arrives before the subscriber runs is an error of asyncio, not of the protocol.\<close>

lemma duplicate_suback:
  assumes "dispatch_outbound (SubAck suback) s = (None, s1)"
  shows "dispatch_outbound (SubAck suback) s1 = (Some InvalidStateError, s1)"
  using assms
  by (auto simp: dispatch_outbound_def handle_suback_def set_result_def resolve_def split: option.splits if_splits)

text \<open>
  A publish that cannot be encoded raises, but leaves its flight and its packet id registered: no
  answer will ever free them.
\<close>

lemma unencodable_publish_leaks:
  assumes "acquire_id s = (Inr pid, s1)"
    and "encode (Publish (p\<lparr>pub_packet_id := Some pid\<rparr>)) (ob_version s) = Inl e"
  shows "\<exists>s'. publish_qos1 p s = (Inl (Wire_Error e), s') \<and> pid \<in> request_ids s' \<and> ob_packet_ids s' = ob_packet_ids s1
    \<and> ob_sent s' = ob_sent s"
  using assms(2) acquired_frame [OF assms(1)]
  by (auto simp: publish_qos1_def assms(1) create_future_def send_def Let_def request_ids_def dom_update)

text \<open>A PUBCOMP ends a flight whose PUBREC has not come yet.\<close>

lemma early_pubcomp_accepted:
  assumes "map_of (ob_inflight_qos2_out s) (pav_packet_id pubcomp) = Some flight"
    and "o2_state flight = PENDING_PUBREC" and "ob_futures s (o2_future flight) = Waiting"
  shows "\<exists>s'. dispatch_outbound (PubComp pubcomp) s = (None, s')
    \<and> ob_futures s' (o2_future flight) = Answered (PubComp pubcomp)"
  using assms by (simp add: dispatch_outbound_def handle_pubcomp_def Let_def)

end
