(* ===== verification/Protocol.thy ===== *)
theory Protocol
  imports Reader Inbound Outbound
begin

text \<open>
  The connection as a whole: \<open>StreamTransport\<close> (\<open>transport/base.py\<close>), and of \<open>MQTTProtocol\<close> (\<open>protocol.py\<close>)
  the constructor, the handshake, the read loop with the complete dispatch, \<open>abort\<close>, \<open>disconnect\<close> and
  the end of \<open>run\<close>.  \<open>protocol\<close> puts the requesting half (\<open>outbound\<close>), the receiving half (\<open>inbound\<close>) and
  the packet buffer together; \<open>SessionState\<close> is spread over the two halves.

  What the asyncio streams return is input: each read gives data, the end of the stream or an
  \<open>OSError\<close>.  Timers are input too: when the reads given to the handshake run out before a CONNACK,
  its timeout expires.
\<close>

section \<open>The transport\<close>

record StreamTransport =
  tr_closed :: bool
  tr_writer_closed :: bool

datatype stream_read = Data bytes | Eof | ReadOSError

datatype stream_write = Drained | WriteOSError | DrainTimeout

definition StreamTransport_init :: StreamTransport where
  "StreamTransport_init = \<lparr>tr_closed = False, tr_writer_closed = False\<rparr>"

definition transport_read :: "stream_read \<Rightarrow> StreamTransport \<Rightarrow> (mqtt_error + bytes) \<times> StreamTransport" where
  "transport_read r t =
     (case r of
        ReadOSError \<Rightarrow> (Inl (MQTTDisconnectedError ''Connection lost''), t\<lparr>tr_closed := True\<rparr>)
      | Eof \<Rightarrow> (Inl (MQTTDisconnectedError ''Connection closed by remote''), t\<lparr>tr_closed := True\<rparr>)
      | Data data \<Rightarrow>
          if data = [] then (Inl (MQTTDisconnectedError ''Connection closed by remote''), t\<lparr>tr_closed := True\<rparr>)
          else (Inr data, t))"

definition transport_write :: "stream_write \<Rightarrow> StreamTransport \<Rightarrow> mqtt_error option \<times> StreamTransport" where
  "transport_write r t =
     (case r of
        Drained \<Rightarrow> (None, t)
      | _ \<Rightarrow> (Some (MQTTDisconnectedError ''Connection lost''), t\<lparr>tr_closed := True\<rparr>))"

text \<open>\<open>close\<close>: the writer is closed once; how waiting for it ends makes no difference.\<close>

definition transport_close :: "StreamTransport \<Rightarrow> StreamTransport" where
  "transport_close t =
     (let t = t\<lparr>tr_closed := True\<rparr> in if \<not> tr_writer_closed t then t\<lparr>tr_writer_closed := True\<rparr> else t)"

definition is_connected :: "StreamTransport \<Rightarrow> bool" where
  "is_connected t = (\<not> tr_closed t)"

section \<open>The protocol\<close>

record protocol =
  pr_transport :: StreamTransport
  pr_out :: outbound
  pr_in :: inbound
  pr_buf :: PacketBuffer
  pr_keepalive :: int
  pr_effective_keepalive :: int
  pr_stripped_prefixes :: "pystr list"
  pr_disconnecting :: bool

definition inbound_init ::
  "RequestDispatcher option \<Rightarrow> int \<Rightarrow> int option \<Rightarrow> (nat \<Rightarrow> nat) \<Rightarrow> inbound" where
  "inbound_init request_router session_replay_buffer_size receive_maximum maxsize =
     \<lparr>ib_subscriptions = SubscriptionIndex_init, ib_router = request_router, ib_inflight_qos2_in = [],
      ib_pending_ack_qos2_in = {}, ib_replay = NoSessionReplay, ib_next_buffer = 0, ib_timers = {},
      ib_buffer_size = session_replay_buffer_size,
      ib_receive_maximum = receive_maximum, ib_unacknowledged = {}, ib_detached = {},
      ib_queues = \<lambda>_. [], ib_maxsize = maxsize, ib_events = []\<rparr>"

text \<open>\<open>maxsize\<close> gives the bound of each queue that subscriptions will bring along.\<close>

definition MQTTProtocol_init ::
  "int \<Rightarrow> version \<Rightarrow> pystr list \<Rightarrow> RequestDispatcher option \<Rightarrow> int \<Rightarrow> int option \<Rightarrow> int option \<Rightarrow> (nat \<Rightarrow> nat)
     \<Rightarrow> protocol" where
  "MQTTProtocol_init keepalive version stripped_prefixes request_router session_replay_buffer_size
       receive_maximum maximum_packet_size maxsize =
     \<lparr>pr_transport = StreamTransport_init, pr_out = outbound_init version,
      pr_in = inbound_init request_router session_replay_buffer_size receive_maximum maxsize,
      pr_buf = PacketBuffer_init version maximum_packet_size, pr_keepalive = keepalive,
      pr_effective_keepalive = keepalive, pr_stripped_prefixes = stripped_prefixes,
      pr_disconnecting = False\<rparr>"

abbreviation pr_version :: "protocol \<Rightarrow> version" where
  "pr_version p \<equiv> ob_version (pr_out p)"

text \<open>\<open>_send(_encode(packet))\<close> with the outcome of the write.\<close>

definition send_packet :: "packet \<Rightarrow> stream_write \<Rightarrow> protocol \<Rightarrow> mqtt_error option \<times> protocol" where
  "send_packet packet r p =
     (case send packet (pr_out p) of
        (Some e, out) \<Rightarrow> (Some e, p\<lparr>pr_out := out\<rparr>)
      | (None, out) \<Rightarrow>
          (case transport_write r (pr_transport p) of
             (e, t) \<Rightarrow> (e, p\<lparr>pr_out := out, pr_transport := t\<rparr>)))"

definition PACKET_TOO_LARGE :: int where "PACKET_TOO_LARGE = 0x95"

definition abort :: "int option \<Rightarrow> stream_write \<Rightarrow> protocol \<Rightarrow> protocol" where
  "abort reason_code r p =
     (let p = (case reason_code of
                 Some code \<Rightarrow>
                   if pr_version p = V50
                   then snd (send_packet (Disconnect \<lparr>dis_reason_code = code, dis_properties = None\<rparr>) r p) else p
               | None \<Rightarrow> p)
      in p\<lparr>pr_transport := transport_close (pr_transport p)\<rparr>)"

text \<open>\<open>disconnect\<close>: failures of the best-effort DISCONNECT are suppressed.\<close>

definition disconnect :: "stream_write \<Rightarrow> protocol \<Rightarrow> protocol" where
  "disconnect r p =
     (let p = snd (send_packet (Disconnect \<lparr>dis_reason_code = 0, dis_properties = None\<rparr>) r (p\<lparr>pr_disconnecting := True\<rparr>))
      in p\<lparr>pr_transport := transport_close (pr_transport p)\<rparr>)"

text \<open>The handler of \<open>_rejecting_oversized_packets\<close>, for what the codec raised inside.\<close>

definition reject_oversized :: "py_error \<Rightarrow> stream_write \<Rightarrow> protocol \<Rightarrow> mqtt_error \<times> protocol" where
  "reject_oversized e r p =
     (case e of
        PacketTooLargeError n limit \<Rightarrow>
          (Outbound.MQTTProtocolError ''Broker sent a packet exceeding the Maximum Packet Size'',
           abort (Some PACKET_TOO_LARGE) r p)
      | _ \<Rightarrow> (Wire_Error e, p))"

section \<open>The handshake\<close>

text \<open>What \<open>_await_connack\<close> does with its first packet.\<close>

definition accept_connack :: "ConnAck \<Rightarrow> protocol \<Rightarrow> (mqtt_error + ConnAck) \<times> protocol" where
  "accept_connack pkt p =
     (if cack_return_code pkt \<noteq> 0 then (Inl (MQTTConnectError (cack_return_code pkt) (cack_properties pkt)), p)
      else
      let p = p\<lparr>pr_effective_keepalive := pr_keepalive p\<rparr>;
          limits = (\<lambda>q r p. p\<lparr>pr_out := (pr_out p)\<lparr>ob_max_publish_qos := q, ob_retain_available := r\<rparr>\<rparr>);
          begun = (\<lambda>p. (Inr pkt, p\<lparr>pr_in := begin_session (cack_session_present pkt) (pr_in p)\<rparr>))
      in
      (case (if pr_version p = V50 then cack_properties pkt else None) of
         Some props \<Rightarrow>
           let p = (case ca_server_keep_alive props of None \<Rightarrow> p | Some k \<Rightarrow> p\<lparr>pr_effective_keepalive := k\<rparr>) in
           (case (case ca_maximum_qos props of None \<Rightarrow> Inr EXACTLY_ONCE | Some q \<Rightarrow> QoS_of q) of
              Inl e \<Rightarrow> (Inl (Wire_Error e), p)
            | Inr max_qos \<Rightarrow> begun (limits max_qos (ca_retain_available props \<noteq> Some False) p))
       | None \<Rightarrow> begun (limits EXACTLY_ONCE True p)))"

definition handshake_packet :: "packet \<Rightarrow> protocol \<Rightarrow> (mqtt_error + ConnAck) \<times> protocol" where
  "handshake_packet pkt p =
     (case pkt of
        ConnAck a \<Rightarrow> accept_connack a p
      | _ \<Rightarrow> (Inl (Outbound.MQTTProtocolError ''Expected CONNACK''), p))"

text \<open>
  \<open>_await_connack\<close> on the reads of the transport; None when they run out.  Its loop over the buffer
  ends at the first packet, and leaving it closes the generator.  \<open>Inl None\<close> is the \<open>BufferError\<close> that
  \<open>feed\<close> can raise, which does not happen here.
\<close>

fun await_connack ::
  "stream_write \<Rightarrow> stream_read list \<Rightarrow> protocol
     \<Rightarrow> ((mqtt_error option + ConnAck) \<times> stream_read list \<times> protocol) option" where
  "await_connack w [] p = None"
| "await_connack w (r # reads) p =
     (case transport_read r (pr_transport p) of
        (Inl e, t) \<Rightarrow> Some (Inl (Some e), reads, p\<lparr>pr_transport := t\<rparr>)
      | (Inr data, t) \<Rightarrow>
     (case feed data (pr_buf p) of
        None \<Rightarrow> Some (Inl None, reads, p\<lparr>pr_transport := t\<rparr>)
      | Some b \<Rightarrow>
     (case iter_next Fresh b of
        (Raise e, g, b') \<Rightarrow>
          (case reject_oversized e w (p\<lparr>pr_transport := t, pr_buf := b'\<rparr>) of
             (e', p') \<Rightarrow> Some (Inl (Some e'), reads, p'))
      | (StopIteration, g, b') \<Rightarrow> await_connack w reads (p\<lparr>pr_transport := t, pr_buf := b'\<rparr>)
      | (Yield pkt, g, b') \<Rightarrow>
          (case handshake_packet pkt (p\<lparr>pr_transport := t, pr_buf := snd (iter_close g b')\<rparr>) of
             (Inl e, p') \<Rightarrow> Some (Inl (Some e), reads, p')
           | (Inr a, p') \<Rightarrow> Some (Inr a, reads, p')))))"

definition connect ::
  "Connect \<Rightarrow> stream_write \<Rightarrow> stream_read list \<Rightarrow> protocol
     \<Rightarrow> (mqtt_error option + ConnAck) \<times> stream_read list \<times> protocol" where
  "connect packet w reads p =
     (case send_packet (Connect packet) w p of
        (Some e, p') \<Rightarrow> (Inl (Some e), reads, p')
      | (None, p') \<Rightarrow>
          (case await_connack w reads p' of
             None \<Rightarrow> (Inl (Some (MQTTTimeoutError ''CONNACK not received within timeout'')), [], p')
           | Some res \<Rightarrow> res))"

section \<open>The read loop\<close>

datatype pstatus = PDone | PRaised mqtt_error | PBlocked InboundRecipient "ack_callback option" "int option"

definition inbound_raised :: "inbound_error \<Rightarrow> mqtt_error" where
  "inbound_raised e =
     (case e of
        InboundValueError m \<Rightarrow> Wire_Error (ValueError m)
      | Inbound.MQTTProtocolError m \<Rightarrow> Outbound.MQTTProtocolError m
      | SendError \<Rightarrow> Outbound.MQTTDisconnectedError ''Connection lost'')"

definition inbound_status :: "status \<Rightarrow> pstatus" where
  "inbound_status st =
     (case st of Done \<Rightarrow> PDone | Raised e \<Rightarrow> PRaised (inbound_raised e) | Blocked r cb a \<Rightarrow> PBlocked r cb a)"

text \<open>
  What the inbound flow did on the connection: packets it sent, and aborts.  The handlers of packets
  are run with writes that succeed; a write of theirs that fails is a step of \<open>Inbound.istep\<close> only.
\<close>

definition inbound_effect :: "event \<Rightarrow> protocol \<Rightarrow> protocol" where
  "inbound_effect ev p =
     (case ev of Sent packet \<Rightarrow> snd (send_packet packet Drained p) | Aborted reason \<Rightarrow> abort reason Drained p)"

text \<open>When the flow was cut short by a send, the write of the last packet failed and closed the transport.\<close>

definition write_failed :: "status \<Rightarrow> protocol \<Rightarrow> protocol" where
  "write_failed st p =
     (if st = Raised SendError then p\<lparr>pr_transport := snd (transport_write WriteOSError (pr_transport p))\<rparr> else p)"

definition run_inbound :: "status \<times> inbound \<Rightarrow> protocol \<Rightarrow> pstatus \<times> protocol" where
  "run_inbound res p =
     (case res of (st, w) \<Rightarrow>
        (inbound_status st,
         write_failed st
           (fold inbound_effect (drop (length (ib_events (pr_in p))) (ib_events w)) (p\<lparr>pr_in := w\<rparr>))))"

definition dispatch :: "packet \<Rightarrow> protocol \<Rightarrow> pstatus \<times> protocol" where
  "dispatch packet p =
     (case packet of
        Publish q \<Rightarrow> run_inbound (handle_publish q (pr_in p)) p
      | PubRel q \<Rightarrow> run_inbound (handle_pubrel q (pr_in p)) p
      | _ \<Rightarrow> (case dispatch_outbound packet (pr_out p) of
               (None, out) \<Rightarrow> (PDone, p\<lparr>pr_out := out\<rparr>)
             | (Some e, out) \<Rightarrow> (PRaised e, p\<lparr>pr_out := out\<rparr>)))"

text \<open>The buffer is the read loop's own: nothing a packet causes depends on it or changes it.\<close>

lemma send_packet_buf: "send_packet packet r (p\<lparr>pr_buf := b\<rparr>) = apsnd (pr_buf_update (\<lambda>_. b)) (send_packet packet r p)"
  by (simp add: send_packet_def split: prod.split option.split)

lemma abort_buf: "abort reason r (p\<lparr>pr_buf := b\<rparr>) = (abort reason r p)\<lparr>pr_buf := b\<rparr>"
  by (simp add: abort_def Let_def send_packet_buf split: option.split)

lemma inbound_effect_buf: "inbound_effect ev (p\<lparr>pr_buf := b\<rparr>) = (inbound_effect ev p)\<lparr>pr_buf := b\<rparr>"
  by (simp add: inbound_effect_def send_packet_buf abort_buf split: event.split)

lemma inbound_effects_buf: "fold inbound_effect evs (p\<lparr>pr_buf := b\<rparr>) = (fold inbound_effect evs p)\<lparr>pr_buf := b\<rparr>"
  by (induction evs arbitrary: p) (simp_all add: inbound_effect_buf)

lemma write_failed_buf: "write_failed st (p\<lparr>pr_buf := b\<rparr>) = (write_failed st p)\<lparr>pr_buf := b\<rparr>"
  by (simp add: write_failed_def)

lemma run_inbound_buf: "run_inbound res (p\<lparr>pr_buf := b\<rparr>) = apsnd (pr_buf_update (\<lambda>_. b)) (run_inbound res p)"
proof -
  obtain st w where "res = (st, w)" by (cases res)
  moreover have "p\<lparr>pr_buf := b, pr_in := w\<rparr> = p\<lparr>pr_in := w\<rparr>\<lparr>pr_buf := b\<rparr>" by simp
  ultimately show ?thesis by (simp only: run_inbound_def prod.case apsnd_conv inbound_effects_buf write_failed_buf) simp
qed

lemma dispatch_buf: "dispatch packet (p\<lparr>pr_buf := b\<rparr>) = apsnd (pr_buf_update (\<lambda>_. b)) (dispatch packet p)"
  by (cases packet) (simp_all add: dispatch_def run_inbound_buf split: prod.split option.split)

lemma dispatch_keeps_buf: "dispatch packet p = (st, p') \<Longrightarrow> pr_buf p' = pr_buf p"
proof -
  assume "dispatch packet p = (st, p')"
  then have "apsnd (pr_buf_update (\<lambda>_. pr_buf p)) (st, p') = (st, p')" using dispatch_buf [of packet "pr_buf p" p] by simp
  then show ?thesis by (metis apsnd_conv prod.inject protocol.select_convs(4) protocol.surjective protocol.update_convs(4))
qed

text \<open>The \<open>for\<close> loop of \<open>_read_loop\<close> over the buffer.\<close>

function dispatch_buffered :: "generator \<Rightarrow> protocol \<Rightarrow> (py_error option \<times> pstatus) \<times> protocol" where
  "dispatch_buffered g p =
     (case iter_next g (pr_buf p) of
        (Raise e, g', b) \<Rightarrow> ((Some e, PDone), p\<lparr>pr_buf := b\<rparr>)
      | (StopIteration, g', b) \<Rightarrow> ((None, PDone), p\<lparr>pr_buf := b\<rparr>)
      | (Yield packet, g', b) \<Rightarrow>
          (case dispatch packet (p\<lparr>pr_buf := b\<rparr>) of
             (PDone, p') \<Rightarrow> dispatch_buffered g' p'
           | (st, p') \<Rightarrow> ((None, st), p')))"
  by pat_completeness auto
termination
  by (relation "measure (\<lambda>(g, p). length (pb_buf (pr_buf p)) - pb_offset (pr_buf p))")
    (auto dest!: iter_next_progress [OF sym] dispatch_keeps_buf [OF sym])

declare dispatch_buffered.simps [simp del]

datatype loop_end = AwaitingRead | Returned | LoopRaised mqtt_error
  | LoopBlocked InboundRecipient "ack_callback option" "int option" | LoopBufferError

text \<open>
  \<open>_read_loop\<close>.  While a handler waits for room in a queue the loop is suspended, which is how a slow
  consumer pushes back on the broker.
\<close>

fun run_read_loop :: "stream_write \<Rightarrow> stream_read list \<Rightarrow> protocol \<Rightarrow> loop_end \<times> protocol" where
  "run_read_loop w reads p =
     (case dispatch_buffered Fresh p of
        ((Some e, st), p1) \<Rightarrow> (case reject_oversized e w p1 of (e', p2) \<Rightarrow> (LoopRaised e', p2))
      | ((None, PRaised e), p1) \<Rightarrow> (LoopRaised e, p1)
      | ((None, PBlocked r cb a), p1) \<Rightarrow> (LoopBlocked r cb a, p1)
      | ((None, PDone), p1) \<Rightarrow>
          (case reads of
             [] \<Rightarrow> (AwaitingRead, p1)
           | r # reads' \<Rightarrow>
               (case transport_read r (pr_transport p1) of
                  (Inl e, t) \<Rightarrow>
                    (if pr_disconnecting p1 then Returned else LoopRaised e, p1\<lparr>pr_transport := t\<rparr>)
                | (Inr data, t) \<Rightarrow>
                    (case feed data (pr_buf p1) of
                       None \<Rightarrow> (LoopBufferError, p1\<lparr>pr_transport := t\<rparr>)
                     | Some b \<Rightarrow> run_read_loop w reads' (p1\<lparr>pr_transport := t, pr_buf := b\<rparr>)))))"

declare run_read_loop.simps [simp del]

text \<open>\<open>run\<close> when its loops have ended: everyone who waits is told, and the replay is forgotten.\<close>

definition run_finally :: "mqtt_error option \<Rightarrow> protocol \<Rightarrow> protocol" where
  "run_finally cause p = p\<lparr>pr_out := run_ends cause (pr_out p), pr_in := inbound_clear (pr_in p)\<rparr>"

section \<open>Dispatching a stream\<close>

fun dispatch_list :: "packet list \<Rightarrow> protocol \<Rightarrow> pstatus \<times> protocol" where
  "dispatch_list [] p = (PDone, p)"
| "dispatch_list (packet # packets) p =
     (case dispatch packet p of (PDone, p') \<Rightarrow> dispatch_list packets p' | (st, p') \<Rightarrow> (st, p'))"

lemma dispatch_list_append:
  "dispatch_list (ps @ qs) p = (case dispatch_list ps p of (PDone, p') \<Rightarrow> dispatch_list qs p' | (st, p') \<Rightarrow> (st, p'))"
  by (induction ps arbitrary: p) (auto split: prod.split pstatus.split)

lemma dispatch_list_buf: "dispatch_list ps (p\<lparr>pr_buf := b\<rparr>) = apsnd (pr_buf_update (\<lambda>_. b)) (dispatch_list ps p)"
  by (induction ps arbitrary: p) (auto simp: dispatch_buf split: prod.split pstatus.split)

lemma rebuf_eq: "p\<lparr>pr_buf := pr_buf p\<rparr> = p"
  by simp

lemma dispatch_buffered_running:
  assumes "pb_views (pr_buf p) = 1" "pb_version (pr_buf p) = v" "pb_max_packet_size (pr_buf p) = limit"
    and "parse_stream v limit (pending (pr_buf p)) = (ps, e, left)"
  shows "case dispatch_list ps p of
      (PDone, q) \<Rightarrow> \<exists>b. dispatch_buffered Running p = ((e, PDone), q\<lparr>pr_buf := b\<rparr>) \<and> pending b = left \<and> settled v limit b
    | (st, q) \<Rightarrow> \<exists>b. dispatch_buffered Running p = ((None, st), q\<lparr>pr_buf := b\<rparr>)"
  using assms
proof (induction "length (pb_buf (pr_buf p)) - pb_offset (pr_buf p)" arbitrary: p ps rule: less_induct)
  case less
  let ?b = "pr_buf p"
  note prems = less.prems
  consider x where "decode (pending ?b) v limit = Inl x" | "decode (pending ?b) v limit = Inr None"
    | packet n where "decode (pending ?b) v limit = Inr (Some (packet, n))"
    by (cases "decode (pending ?b) v limit") (auto, metis option.exhaust prod.exhaust)
  then show ?case
  proof cases
    case 1
    then show ?thesis using prems
      by (auto simp: dispatch_buffered.simps [of Running p] iter_next_def parse_stream_simps pending_def settled_def)
  next
    case 2
    then show ?thesis using prems
      by (auto simp: dispatch_buffered.simps [of Running p] iter_next_def parse_stream_simps pending_def settled_def)
  next
    case (3 packet n)
    define b1 where "b1 = ?b\<lparr>pb_offset := pb_offset ?b + n\<rparr>"
    from 3 prems have nx: "iter_next Running ?b = (Yield packet, Running, b1)"
      by (simp add: iter_next_def b1_def pending_def Let_def)
    have b1: "pb_views b1 = 1" "pb_version b1 = v" "pb_max_packet_size b1 = limit" "pending b1 = drop n (pending ?b)"
      using prems by (simp_all add: b1_def pending_def add.commute)
    from 3 prems(4) obtain qs where qs: "ps = packet # qs" "parse_stream v limit (pending b1) = (qs, e, left)"
      by (auto simp: parse_stream_simps b1(4) split: prod.splits)
    obtain st p1 where d: "dispatch packet p = (st, p1)" by (cases "dispatch packet p")
    let ?p1 = "p1\<lparr>pr_buf := b1\<rparr>"
    have d1: "dispatch packet (p\<lparr>pr_buf := b1\<rparr>) = (st, ?p1)" by (simp add: dispatch_buf d)
    show ?thesis
    proof (cases "st = PDone")
      case False
      then show ?thesis using d d1 nx qs(1)
        by (auto simp: dispatch_buffered.simps [of Running p] split: pstatus.split)
    next
      case True
      have "length (pb_buf (pr_buf ?p1)) - pb_offset (pr_buf ?p1) < length (pb_buf ?b) - pb_offset ?b"
        using iter_next_progress [OF nx] by simp
      from less.hyps [OF this, of qs] b1 qs(2)
      have "case dispatch_list qs ?p1 of
          (PDone, q) \<Rightarrow> \<exists>b. dispatch_buffered Running ?p1 = ((e, PDone), q\<lparr>pr_buf := b\<rparr>) \<and> pending b = left \<and> settled v limit b
        | (st, q) \<Rightarrow> \<exists>b. dispatch_buffered Running ?p1 = ((None, st), q\<lparr>pr_buf := b\<rparr>)" by simp
      moreover have "dispatch_buffered Running p = dispatch_buffered Running ?p1"
        using True d1 nx by (simp add: dispatch_buffered.simps [of Running p])
      ultimately show ?thesis using True d qs(1) unfolding dispatch_list_buf
        by (cases "dispatch_list qs p1") (simp split: pstatus.splits)
    qed
  qed
qed

lemma dispatch_buffered_fresh:
  "dispatch_buffered Fresh p =
     dispatch_buffered Running (p\<lparr>pr_buf := (pr_buf p)\<lparr>pb_views := pb_views (pr_buf p) + 1\<rparr>\<rparr>)"
proof -
  have "iter_next Fresh b = iter_next Running (b\<lparr>pb_views := pb_views b + 1\<rparr>)" for b
    by (simp add: iter_next_def Let_def)
  then show ?thesis by (subst (1 2) dispatch_buffered.simps) (simp split: prod.split outcome.split)
qed

lemma dispatch_buffered_parse:
  assumes "settled v limit (pr_buf p)" and "parse_stream v limit (pending (pr_buf p)) = (ps, e, left)"
  shows "case dispatch_list ps p of
      (PDone, q) \<Rightarrow> \<exists>b. dispatch_buffered Fresh p = ((e, PDone), q\<lparr>pr_buf := b\<rparr>) \<and> pending b = left \<and> settled v limit b
    | (st, q) \<Rightarrow> \<exists>b. dispatch_buffered Fresh p = ((None, st), q\<lparr>pr_buf := b\<rparr>)"
proof -
  let ?p = "p\<lparr>pr_buf := (pr_buf p)\<lparr>pb_views := pb_views (pr_buf p) + 1\<rparr>\<rparr>"
  have "case dispatch_list ps ?p of
      (PDone, q) \<Rightarrow> \<exists>b. dispatch_buffered Running ?p = ((e, PDone), q\<lparr>pr_buf := b\<rparr>) \<and> pending b = left \<and> settled v limit b
    | (st, q) \<Rightarrow> \<exists>b. dispatch_buffered Running ?p = ((None, st), q\<lparr>pr_buf := b\<rparr>)"
    by (rule dispatch_buffered_running) (use assms in \<open>simp_all add: settled_def pending_def\<close>)
  then show ?thesis
    unfolding dispatch_buffered_fresh [of p] dispatch_list_buf by (cases "dispatch_list ps p") (simp split: pstatus.splits)
qed

text \<open>The end of the loop when the packets of the whole stream are dispatched one after the other.\<close>

definition loop_result :: "stream_write \<Rightarrow> packet list \<Rightarrow> py_error option \<Rightarrow> protocol \<Rightarrow> loop_end \<times> protocol" where
  "loop_result w ps e p =
     (case dispatch_list ps p of
        (PRaised x, q) \<Rightarrow> (LoopRaised x, q)
      | (PBlocked r cb a, q) \<Rightarrow> (LoopBlocked r cb a, q)
      | (PDone, q) \<Rightarrow>
          (case e of
             None \<Rightarrow> (AwaitingRead, q)
           | Some x \<Rightarrow> (case reject_oversized x w q of (x', q') \<Rightarrow> (LoopRaised x', q'))))"

lemma reject_oversized_buf:
  "reject_oversized e w (p\<lparr>pr_buf := b\<rparr>) = apsnd (pr_buf_update (\<lambda>_. b)) (reject_oversized e w p)"
  by (simp add: reject_oversized_def abort_buf split: py_error.split)

lemma run_read_loop_parse:
  assumes "settled v limit (pr_buf p)" and "[] \<notin> set reads"
    and "parse_stream v limit (pending (pr_buf p) @ concat reads) = (ps, e, left)"
  shows "\<exists>b. run_read_loop w (map Data reads) p = apsnd (pr_buf_update (\<lambda>_. b)) (loop_result w ps e p)"
  using assms
proof (induction reads arbitrary: p ps)
  case Nil
  then have parse: "parse_stream v limit (pending (pr_buf p)) = (ps, e, left)" by simp
  from dispatch_buffered_parse [OF Nil.prems(1) this] show ?case
    by (auto simp: run_read_loop.simps [of w "[]"] loop_result_def reject_oversized_buf
        split: prod.splits pstatus.splits option.splits)
next
  case (Cons data reads)
  obtain qs e1 left1 where q: "parse_stream v limit (pending (pr_buf p)) = (qs, e1, left1)" by (metis prod.exhaust)
  note app = parse_stream_append [OF q, of "data @ concat reads"]
  note disp = dispatch_buffered_parse [OF Cons.prems(1) q]
  obtain st p1 where d: "dispatch_list qs p = (st, p1)" by (cases "dispatch_list qs p")
  show ?case
  proof (cases "e1 \<noteq> None \<or> st \<noteq> PDone")
    case True
    then have "loop_result w ps e p = loop_result w qs e1 p"
      using app Cons.prems(3) d
      by (auto simp: loop_result_def dispatch_list_append split: prod.splits option.splits pstatus.splits)
    then show ?thesis using True disp d
      by (auto simp: run_read_loop.simps [of w "Data data # map Data reads"] loop_result_def reject_oversized_buf
          split: prod.splits pstatus.splits option.splits)
  next
    case False
    then obtain b1 where b1: "dispatch_buffered Fresh p = ((None, PDone), p1\<lparr>pr_buf := b1\<rparr>)" "pending b1 = left1"
      "settled v limit b1" using disp d by auto
    from feed_settled [OF b1(3)] obtain b2 where
      b2: "feed data b1 = Some b2" "pending b2 = pending b1 @ data" "settled v limit b2" by blast
    let ?p2 = "p1\<lparr>pr_buf := b2\<rparr>"
    from False app Cons.prems(3) obtain ps' where ps: "ps = qs @ ps'"
      and r: "parse_stream v limit (pending (pr_buf ?p2) @ concat reads) = (ps', e, left)"
      by (auto simp: b1 b2 split: prod.splits)
    have ne: "data \<noteq> []" using Cons.prems(2) by auto
    have run: "run_read_loop w (map Data (data # reads)) p = run_read_loop w (map Data reads) ?p2"
      using ne b1(1) b2(1) by (subst run_read_loop.simps) (simp add: transport_read_def)
    from Cons.IH [OF _ _ r] b2(3) Cons.prems(2) obtain b where
      "run_read_loop w (map Data reads) ?p2 = apsnd (pr_buf_update (\<lambda>_. b)) (loop_result w ps' e ?p2)" by auto
    moreover have "apsnd (pr_buf_update (\<lambda>_. b)) (loop_result w ps' e ?p2) = apsnd (pr_buf_update (\<lambda>_. b)) (loop_result w ps e p)"
      using False d
      by (auto simp: loop_result_def ps dispatch_list_append dispatch_list_buf reject_oversized_buf
          split: prod.splits pstatus.splits option.splits)
    ultimately show ?thesis using run by auto
  qed
qed

section \<open>The handshake and what follows it\<close>

text \<open>
  \<open>_await_connack\<close> takes the first packet of the stream; all bytes behind it are still there for the
  read loop, in the buffer or in the reads not yet made.
\<close>

lemma iter_next_settled:
  assumes "settled v limit b"
  shows "iter_next Fresh b =
    (case decode (pending b) v limit of
       Inl e \<Rightarrow> (Raise e, Finished, b)
     | Inr None \<Rightarrow> (StopIteration, Finished, b)
     | Inr (Some (packet, n)) \<Rightarrow> (Yield packet, Running, b\<lparr>pb_views := 1, pb_offset := pb_offset b + n\<rparr>))"
  using assms by (simp add: iter_next_def settled_def pending_def Let_def split: sum.split option.split)

lemma await_connack_first:
  assumes "settled v limit (pr_buf p)" and "[] \<notin> set reads"
    and "decode (pending (pr_buf p) @ concat reads) v limit = Inr (Some (packet, n))"
    and "decode (pending (pr_buf p)) v limit = Inr None"
  shows "\<exists>before after b. reads = before @ after \<and> before \<noteq> [] \<and> settled v limit b
    \<and> pending b @ concat after = drop n (pending (pr_buf p) @ concat reads)
    \<and> await_connack w (map Data reads) p =
        (case handshake_packet packet (p\<lparr>pr_buf := b\<rparr>) of
           (Inl e, p') \<Rightarrow> Some (Inl (Some e), map Data after, p')
         | (Inr a, p') \<Rightarrow> Some (Inr a, map Data after, p'))"
  using assms
proof (induction reads arbitrary: p)
  case Nil
  then show ?case by simp
next
  case (Cons data reads)
  have ne: "data \<noteq> []" using Cons.prems(2) by auto
  from feed_settled [OF Cons.prems(1)] obtain b where
    b: "feed data (pr_buf p) = Some b" "pending b = pending (pr_buf p) @ data" "settled v limit b" by blast
  show ?case
  proof (cases "decode (pending b) v limit = Inr None")
    case True
    let ?p = "p\<lparr>pr_buf := b\<rparr>"
    have step: "await_connack w (map Data (data # reads)) p = await_connack w (map Data reads) ?p"
      using True ne b(1,3) by (simp add: transport_read_def iter_next_settled)
    have "decode (pending (pr_buf ?p) @ concat reads) v limit = Inr (Some (packet, n))" using Cons.prems(3) b(2) by simp
    with Cons.IH [of ?p] b Cons.prems(2) True obtain before after b' where
      ba: "reads = before @ after" "settled v limit b'" "pending b' @ concat after = drop n (pending b @ concat reads)"
        "await_connack w (map Data reads) ?p = (case handshake_packet packet (?p\<lparr>pr_buf := b'\<rparr>) of
           (Inl e, p') \<Rightarrow> Some (Inl (Some e), map Data after, p') | (Inr a, p') \<Rightarrow> Some (Inr a, map Data after, p'))"
      by auto
    show ?thesis
      by (rule exI [of _ "data # before"], rule exI [of _ after], rule exI [of _ b']) (use ba step b(2) in simp)
  next
    case False
    with decode_append [of "pending b" v limit "concat reads"] Cons.prems(3) b(2)
    have d: "decode (pending b) v limit = Inr (Some (packet, n))"
      by (auto split: sum.splits option.splits)
    let ?b = "b\<lparr>pb_offset := pb_offset b + n\<rparr>"
    have n: "n \<le> length (pending b)" using decode_Some_bound [OF d] by simp
    have buf: "snd (iter_close Running (b\<lparr>pb_views := 1, pb_offset := pb_offset b + n\<rparr>)) = ?b"
      using b(3) by (simp add: iter_close_def settled_def)
    have "await_connack w (map Data (data # reads)) p =
        (case handshake_packet packet (p\<lparr>pr_buf := ?b\<rparr>) of
           (Inl e, p') \<Rightarrow> Some (Inl (Some e), map Data reads, p')
         | (Inr a, p') \<Rightarrow> Some (Inr a, map Data reads, p'))"
      using d ne b(1,3) buf by (simp add: transport_read_def iter_next_settled)
    moreover have "pending ?b @ concat reads = drop n (pending (pr_buf p) @ concat (data # reads))"
    proof -
      have "pending ?b = drop n (pending b)" by (simp add: pending_def add.commute)
      moreover have all: "pending (pr_buf p) @ concat (data # reads) = pending b @ concat reads" using b(2) by simp
      ultimately show ?thesis unfolding all using n by simp
    qed
    moreover have "settled v limit ?b" using b(3) by (simp add: settled_def)
    ultimately show ?thesis
      by (intro exI [of _ "[data]"] exI [of _ reads] exI [of _ ?b]) simp
  qed
qed

text \<open>How a CONNACK without refusal sets the limits of the connection.\<close>

definition negotiated_qos :: "version \<Rightarrow> ConnAck \<Rightarrow> QoS res" where
  "negotiated_qos v a =
     (case if v = V50 then cack_properties a else None of
        None \<Rightarrow> Inr EXACTLY_ONCE
      | Some props \<Rightarrow> (case ca_maximum_qos props of None \<Rightarrow> Inr EXACTLY_ONCE | Some q \<Rightarrow> QoS_of q))"

definition negotiated_retain :: "version \<Rightarrow> ConnAck \<Rightarrow> bool" where
  "negotiated_retain v a =
     (case if v = V50 then cack_properties a else None of None \<Rightarrow> True | Some props \<Rightarrow> ca_retain_available props \<noteq> Some False)"

definition negotiated_keepalive :: "version \<Rightarrow> ConnAck \<Rightarrow> int \<Rightarrow> int" where
  "negotiated_keepalive v a keepalive =
     (case if v = V50 then cack_properties a else None of
        None \<Rightarrow> keepalive | Some props \<Rightarrow> (case ca_server_keep_alive props of None \<Rightarrow> keepalive | Some k \<Rightarrow> k))"

lemma accept_connack_ok:
  assumes "cack_return_code a = 0" and "negotiated_qos (pr_version p) a = Inr q"
  shows "accept_connack a p =
    (Inr a, p\<lparr>pr_out := (pr_out p)\<lparr>ob_max_publish_qos := q, ob_retain_available := negotiated_retain (pr_version p) a\<rparr>,
      pr_in := begin_session (cack_session_present a) (pr_in p),
      pr_effective_keepalive := negotiated_keepalive (pr_version p) a (pr_keepalive p)\<rparr>)"
  using assms
  by (auto simp: accept_connack_def negotiated_qos_def negotiated_retain_def negotiated_keepalive_def Let_def
      split: if_splits option.splits)

lemma init_protocol_settled:
  "settled v limit (pr_buf (MQTTProtocol_init k v stripped router bufsize rmax limit maxsize))"
  "pending (pr_buf (MQTTProtocol_init k v stripped router bufsize rmax limit maxsize)) = []"
  by (simp_all add: MQTTProtocol_init_def init_settled)

lemma decode_nothing [simp]: "decode [] v limit = Inr None"
  by (rule decode_short) simp

section \<open>Properties\<close>

text \<open>
  C6: the read loop does to the connection what dispatching the packets of the whole byte stream one
  after the other does, however the stream is cut into reads: it ends in the same way (waiting for
  more, a handler that raised or waits for room, a malformed or oversized packet), with the same
  state of both halves of the protocol; only the buffer differs.
\<close>

theorem read_loop_dispatches:
  assumes "[] \<notin> set reads" and "p = MQTTProtocol_init k v stripped router bufsize rmax limit maxsize"
    and "parse_stream v limit (concat reads) = (ps, e, left)"
  shows "\<exists>b. run_read_loop w (map Data reads) p = apsnd (pr_buf_update (\<lambda>_. b)) (loop_result w ps e p)"
  using run_read_loop_parse [of v limit p reads ps e left w] assms init_protocol_settled by simp

definition example_protocol :: protocol where
  "example_protocol = MQTTProtocol_init 60 V311 [] None 1000 None None (\<lambda>_. 0)"

theorem read_loop_dispatches_witness:
  "\<exists>b. run_read_loop Drained (map Data [[0xD0], [0, 0xE0]]) example_protocol
     = apsnd (pr_buf_update (\<lambda>_. b)) (loop_result Drained [PingResp] None example_protocol)"
proof -
  have "decode [0xD0, 0, 0xE0] V311 None = Inr (Some (PingResp, 2))" by code_simp
  moreover have "decode [0xE0] V311 None = Inr None" by code_simp
  ultimately have "parse_stream V311 None (concat [[0xD0], [0, 0xE0]]) = ([PingResp], None, [0xE0])"
    by (simp add: parse_stream_simps)
  from read_loop_dispatches [OF _ example_protocol_def this] show ?thesis by simp
qed

text \<open>
  C5: the handshake loses nothing.  When the broker's stream begins with an accepting CONNACK, the
  handshake returns it, and sets the publish limits and the keepalive from it, however the stream is
  cut; every packet behind it, also those that came in the same read, is dispatched afterwards, in
  order, by the read loop.
\<close>

theorem handshake_keeps_stream:
  assumes conn: "encode (ConnAck a) v = Inr bs" "fits limit (length bs)" "cack_return_code a = 0"
    and "ConnAck a' = seen v (ConnAck a)" and qos: "negotiated_qos v a' = Inr q"
    and packets: "list_all2 (\<lambda>p bs. encode p v = Inr bs \<and> fits limit (length bs)) packets wires"
    and rest: "decode rest v limit = Inr None"
    and reads: "concat reads = bs @ concat wires @ rest" "[] \<notin> set reads"
    and p: "p = MQTTProtocol_init k v stripped router bufsize rmax limit maxsize"
  shows "\<exists>after p'. await_connack w (map Data reads) p = Some (Inr a', map Data after, p')
    \<and> ob_max_publish_qos (pr_out p') = q \<and> ob_retain_available (pr_out p') = negotiated_retain v a'
    \<and> pr_effective_keepalive p' = negotiated_keepalive v a' k
    \<and> (\<exists>b. run_read_loop w (map Data after) p' = apsnd (pr_buf_update (\<lambda>_. b)) (loop_result w (map (seen v) packets) None p'))"
proof -
  have d: "decode (concat reads) v limit = Inr (Some (ConnAck a', length bs))"
    using decode_encoded [OF conn(1,2), of "concat wires @ rest"] assms(4) reads(1) by simp
  have rc: "cack_return_code a' = 0" using assms(4) conn(3) by (simp add: seen_def)
  note init = init_protocol_settled [where v = v and limit = limit and k = k and stripped = stripped and router = router
      and bufsize = bufsize and rmax = rmax and maxsize = maxsize, folded p]
  from await_connack_first [OF init(1) reads(2), of "ConnAck a'" "length bs" w] init(2) d
  obtain before after b where ab: "reads = before @ after" "settled v limit b"
    "pending b @ concat after = drop (length bs) (concat reads)"
    "await_connack w (map Data reads) p = (case accept_connack a' (p\<lparr>pr_buf := b\<rparr>) of
       (Inl e, p') \<Rightarrow> Some (Inl (Some e), map Data after, p') | (Inr a, p') \<Rightarrow> Some (Inr a, map Data after, p'))"
    by (auto simp: handshake_packet_def)
  have v: "pr_version p = v" "pr_keepalive p = k" by (simp_all add: p MQTTProtocol_init_def outbound_init_def)
  obtain p' where acc: "accept_connack a' (p\<lparr>pr_buf := b\<rparr>) = (Inr a', p')"
    and p': "ob_max_publish_qos (pr_out p') = q" "ob_retain_available (pr_out p') = negotiated_retain v a'"
      "pr_effective_keepalive p' = negotiated_keepalive v a' k" "pr_buf p' = b"
    using accept_connack_ok [OF rc, of "p\<lparr>pr_buf := b\<rparr>" q] qos v by simp
  have "parse_stream v limit (pending (pr_buf p') @ concat after) = (map (seen v) packets, None, rest)"
    using parse_stream_encoded [OF packets rest] ab(3) reads(1) p'(4) by simp
  from run_read_loop_parse [OF _ _ this, of w] ab(1,2) p'(4) reads(2)
  have "\<exists>b. run_read_loop w (map Data after) p' = apsnd (pr_buf_update (\<lambda>_. b)) (loop_result w (map (seen v) packets) None p')"
    by simp
  then show ?thesis using ab(4) acc p' by auto
qed

theorem handshake_keeps_stream_witness:
  "\<exists>after p'. await_connack Drained (map Data [[0x20, 2, 0], [0, 0xD0, 0]]) example_protocol
     = Some (Inr \<lparr>cack_session_present = False, cack_return_code = 0, cack_properties = None\<rparr>, map Data after, p')
   \<and> (\<exists>b. run_read_loop Drained (map Data after) p' = apsnd (pr_buf_update (\<lambda>_. b)) (loop_result Drained [PingResp] None p'))"
proof -
  let ?a = "\<lparr>cack_session_present = False, cack_return_code = 0, cack_properties = None\<rparr> :: ConnAck"
  have e: "encode (ConnAck ?a) V311 = Inr [0x20, 2, 0, 0]" by code_simp
  have pr: "encode PingResp V311 = Inr [0xD0, 0]" by code_simp
  have s: "ConnAck ?a = seen V311 (ConnAck ?a)" "seen V311 PingResp = PingResp" by (simp_all add: seen_def seen_v5_def)
  have q: "negotiated_qos V311 ?a = Inr EXACTLY_ONCE" by (simp add: negotiated_qos_def)
  have l: "list_all2 (\<lambda>p bs. encode p V311 = Inr bs \<and> fits None (length bs)) [PingResp] [[0xD0, 0]]"
    using pr by (simp add: fits_def)
  show ?thesis
    using handshake_keeps_stream [OF e _ _ s(1) q l decode_nothing _ _ example_protocol_def,
        of "[[0x20, 2, 0], [0, 0xD0, 0]]" Drained] s(2)
    by (simp add: fits_def) blast
qed

end
