(* ===== verification/Subscribing.thy ===== *)
theory Subscribing
  imports Subscription_Guards Protocol
begin

text \<open>
  Subscriptions at the protocol: \<open>_subscribe\<close>, \<open>_unsubscribe\<close>, \<open>detach\<close>, \<open>restore_detached\<close> and the response
  observers of \<open>protocol.py\<close>.  Each coroutine is cut at its awaits of a SUBACK or UNSUBACK: the first
  segment registers in the index and sends, a later one continues once its \<open>operation\<close> is over.  The
  guards of \<open>Subscription_Guards\<close> are held from the first segment to the last, so that operations
  under way never share a filter.

  An exception raised at an await, by the write, by the reply or by a cancellation of the task, runs
  the \<open>finally\<close> blocks: the \<open>_cut\<close> variants.

  \<open>pstep\<close> interleaves such operations, with the filters the broker holds for this client as a ghost
  component; what the connection does otherwise (packets, publishes, its end) is one step that
  leaves the index alone.
\<close>

section \<open>Operations\<close>

abbreviation pr_index :: "protocol \<Rightarrow> SubscriptionIndex" where
  "pr_index p \<equiv> ib_subscriptions (pr_in p)"

definition set_index :: "SubscriptionIndex \<Rightarrow> protocol \<Rightarrow> protocol" where
  "set_index ix p = p\<lparr>pr_in := (pr_in p)\<lparr>ib_subscriptions := ix\<rparr>\<rparr>"

text \<open>
  The dict \<open>new_entries\<close>.  \<open>ref\<close> is the first unused reference for the entries created; a filter that
  occurs twice in the request gets its entry from the last occurrence.
\<close>

fun new_entries ::
  "SubscriptionRequest list \<Rightarrow> bool \<Rightarrow> nat \<Rightarrow> int option \<Rightarrow> nat \<Rightarrow> protocol
     \<Rightarrow> (pystr \<times> SubscriptionEntry) list \<Rightarrow> (pystr \<times> SubscriptionEntry) list" where
  "new_entries [] auto_ack queue subscription_identifier ref p es = es"
| "new_entries (req # reqs) auto_ack queue subscription_identifier ref p es =
     (let f = sr_topic_filter req in
      if index_get f (pr_index p) \<noteq> None
      then new_entries reqs auto_ack queue subscription_identifier ref p es
      else new_entries reqs auto_ack queue subscription_identifier (Suc ref) p
        (AList.update f
           \<lparr>se_ref = ref, se_queue = queue, se_auto_ack = auto_ack,
            se_actual_filter = shared_filter_to_actual f (pr_stripped_prefixes p),
            se_subscription_identifier = subscription_identifier\<rparr> es))"

definition remove_all :: "pystr list \<Rightarrow> SubscriptionIndex \<Rightarrow> SubscriptionIndex" where
  "remove_all fs ix = fold (\<lambda>f ix. snd (index_remove f ix)) fs ix"

definition rollback :: "(pystr \<times> SubscriptionEntry) list \<Rightarrow> protocol \<Rightarrow> protocol" where
  "rollback es p = set_index (remove_all (map fst es) (pr_index p)) p"

definition subscribe_begin ::
  "SubscriptionRequest list \<Rightarrow> bool \<Rightarrow> nat \<Rightarrow> int option \<Rightarrow> nat \<Rightarrow> protocol
     \<Rightarrow> (mqtt_error + operation \<times> (pystr \<times> SubscriptionEntry) list) \<times> protocol" where
  "subscribe_begin filters auto_ack queue subscription_identifier ref p =
     (let es = new_entries filters auto_ack queue subscription_identifier ref p [];
          p1 = set_index (index_add_many es (pr_index p)) p
      in case send_subscribe filters subscription_identifier (pr_out p1) of
           (Inl e, out) \<Rightarrow> (Inl e, rollback es (p1\<lparr>pr_out := out\<rparr>))
         | (Inr act, out) \<Rightarrow> (Inr (act, es), p1\<lparr>pr_out := out\<rparr>))"

definition subscribe_end ::
  "operation \<Rightarrow> (pystr \<times> SubscriptionEntry) list \<Rightarrow> protocol
     \<Rightarrow> ((mqtt_error + packet \<times> (pystr \<times> nat) list) \<times> protocol) option" where
  "subscribe_end act es p =
     (case finish act (pr_out p) of
        None \<Rightarrow> None
      | Some (Inl e, out) \<Rightarrow> Some (Inl e, rollback es (p\<lparr>pr_out := out\<rparr>))
      | Some (Inr suback, out) \<Rightarrow> Some (Inr (suback, map (\<lambda>(f, entry). (f, se_queue entry)) es), p\<lparr>pr_out := out\<rparr>))"

text \<open>\<open>_send_subscribe\<close> raises at one of its awaits, the write of the SUBSCRIBE or the reply.\<close>

definition subscribe_cut :: "operation \<Rightarrow> (pystr \<times> SubscriptionEntry) list \<Rightarrow> protocol \<Rightarrow> protocol" where
  "subscribe_cut act es p = rollback es (p\<lparr>pr_out := activity_finally act (pr_out p)\<rparr>)"

text \<open>After its guard is released, \<open>subscribe\<close> delivers what the replay buffer holds for the new filters.\<close>

definition subscribe_drain :: "(Publish \<Rightarrow> bool) \<Rightarrow> protocol \<Rightarrow> pstatus \<times> protocol" where
  "subscribe_drain fails p = run_inbound (drain fails (pr_in p)) p"

fun detach :: "pystr list \<Rightarrow> protocol \<Rightarrow> (pystr \<times> SubscriptionEntry) list \<times> protocol" where
  "detach [] p = ([], p)"
| "detach (f # fs) p =
     (case index_get f (pr_index p) of
        None \<Rightarrow> detach fs p
      | Some entry \<Rightarrow>
          (case detach fs (p\<lparr>pr_in := (pr_in p)\<lparr>ib_detached := insert (se_ref entry) (ib_detached (pr_in p))\<rparr>\<rparr>) of
             (ds, p') \<Rightarrow> ((f, entry) # AList.delete f ds, p')))"

definition restore_detached :: "(pystr \<times> SubscriptionEntry) list \<Rightarrow> protocol \<Rightarrow> protocol" where
  "restore_detached es p = set_index (index_add_many es (pr_index p)) p"

text \<open>How far an unsubscribe is: over, waiting for UNSUBACK, or waiting for the SUBACK of its observers.\<close>

datatype unsubscribing =
    Unsubscribed "(pystr list \<times> packet) option"
  | AwaitUnsuback operation "pystr list" "pystr list"
  | AwaitSuback operation "(pystr list \<times> packet) option"

definition observer_request :: "pystr \<Rightarrow> SubscriptionRequest" where
  "observer_request f =
     \<lparr>sr_topic_filter = f, sr_qos = AT_MOST_ONCE, sr_no_local = False, sr_retain_as_published = False,
      sr_retain_handling = SEND_ON_SUBSCRIBE\<rparr>"

definition restore_observers ::
  "pystr list \<Rightarrow> (pystr list \<times> packet) option \<Rightarrow> protocol \<Rightarrow> unsubscribing \<times> protocol" where
  "restore_observers observed acknowledged p =
     (if observed = [] then (Unsubscribed acknowledged, p)
      else case send_subscribe (map observer_request observed) None (pr_out p) of
             (Inl e, out) \<Rightarrow> (Unsubscribed acknowledged, p\<lparr>pr_out := out\<rparr>)
           | (Inr act, out) \<Rightarrow> (AwaitSuback act acknowledged, p\<lparr>pr_out := out\<rparr>))"

definition unsubscribe_begin :: "pystr list \<Rightarrow> protocol \<Rightarrow> (mqtt_error + unsubscribing) \<times> protocol" where
  "unsubscribe_begin filters p =
     (case ensure_alive (pr_out p) of
        Some e \<Rightarrow> (Inl e, p)
      | None \<Rightarrow>
          let observed = filter (\<lambda>f. has_response_observer f (pr_index p)) filters;
              broker_filters = filter (\<lambda>f. f \<notin> set observed) filters;
              p1 = set_index (remove_all filters (pr_index p)) p
          in if broker_filters \<noteq> []
             then case send_unsubscribe broker_filters (pr_out p1) of
                    (Inl e, out) \<Rightarrow> (Inl e, p1\<lparr>pr_out := out\<rparr>)
                  | (Inr act, out) \<Rightarrow> (Inr (AwaitUnsuback act broker_filters observed), p1\<lparr>pr_out := out\<rparr>)
             else apfst Inr (restore_observers observed None p1))"

definition unsuback_received ::
  "operation \<Rightarrow> pystr list \<Rightarrow> pystr list \<Rightarrow> protocol \<Rightarrow> ((mqtt_error + unsubscribing) \<times> protocol) option" where
  "unsuback_received act broker_filters observed p =
     (case finish act (pr_out p) of
        None \<Rightarrow> None
      | Some (Inl e, out) \<Rightarrow> Some (Inl e, p\<lparr>pr_out := out\<rparr>)
      | Some (Inr unsuback, out) \<Rightarrow>
          Some (apfst Inr (restore_observers observed (Some (broker_filters, unsuback)) (p\<lparr>pr_out := out\<rparr>))))"

text \<open>\<open>_send_unsubscribe\<close>, or \<open>_send_subscribe\<close> for the observers, raises at one of its awaits.\<close>

definition unsubscribe_cut :: "operation \<Rightarrow> protocol \<Rightarrow> protocol" where
  "unsubscribe_cut act p = p\<lparr>pr_out := activity_finally act (pr_out p)\<rparr>"

text \<open>\<open>except Exception\<close> swallows every failure but a cancellation, which is a \<open>BaseException\<close>.\<close>

definition observers_restored ::
  "operation \<Rightarrow> (pystr list \<times> packet) option \<Rightarrow> protocol \<Rightarrow> ((mqtt_error + unsubscribing) \<times> protocol) option" where
  "observers_restored act acknowledged p =
     (case finish act (pr_out p) of
        None \<Rightarrow> None
      | Some (Inl e, out) \<Rightarrow>
          Some (if e = CancelledError then Inl e else Inr (Unsubscribed acknowledged), p\<lparr>pr_out := out\<rparr>)
      | Some (Inr suback, out) \<Rightarrow> Some (Inr (Unsubscribed acknowledged), p\<lparr>pr_out := out\<rparr>))"

text \<open>Response observers: None when nothing has to be sent.\<close>

definition observe_begin :: "pystr \<Rightarrow> protocol \<Rightarrow> (mqtt_error + operation option) \<times> protocol" where
  "observe_begin topic p =
     (case ensure_alive (pr_out p) of
        Some e \<Rightarrow> (Inl e, p)
      | None \<Rightarrow>
          (case add_response_observer topic (pr_index p) of
             (False, ix) \<Rightarrow> (Inr None, set_index ix p)
           | (True, ix) \<Rightarrow>
               let p1 = set_index ix p in
               if index_contains topic ix then (Inr None, p1)
               else case send_subscribe [observer_request topic] None (pr_out p1) of
                      (Inl e, out) \<Rightarrow>
                        (Inl e, set_index (snd (remove_response_observer topic ix)) (p1\<lparr>pr_out := out\<rparr>))
                    | (Inr act, out) \<Rightarrow> (Inr (Some act), p1\<lparr>pr_out := out\<rparr>)))"

definition observe_end :: "pystr \<Rightarrow> operation \<Rightarrow> protocol \<Rightarrow> (mqtt_error option \<times> protocol) option" where
  "observe_end topic act p =
     (case finish act (pr_out p) of
        None \<Rightarrow> None
      | Some (Inl e, out) \<Rightarrow>
          Some (Some e, set_index (snd (remove_response_observer topic (pr_index p))) (p\<lparr>pr_out := out\<rparr>))
      | Some (Inr suback, out) \<Rightarrow> Some (None, p\<lparr>pr_out := out\<rparr>))"

definition observe_cut :: "pystr \<Rightarrow> operation \<Rightarrow> protocol \<Rightarrow> protocol" where
  "observe_cut topic act p =
     set_index (snd (remove_response_observer topic (pr_index p)))
       (p\<lparr>pr_out := activity_finally act (pr_out p)\<rparr>)"

definition unobserve_begin :: "pystr \<Rightarrow> protocol \<Rightarrow> (mqtt_error + operation option) \<times> protocol" where
  "unobserve_begin topic p =
     (case remove_response_observer topic (pr_index p) of
        (False, ix) \<Rightarrow> (Inr None, set_index ix p)
      | (True, ix) \<Rightarrow>
          let p1 = set_index ix p in
          if index_contains topic ix \<or> ob_dead (pr_out p1) then (Inr None, p1)
          else case send_unsubscribe [topic] (pr_out p1) of
                 (Inl e, out) \<Rightarrow> (Inl e, p1\<lparr>pr_out := out\<rparr>)
               | (Inr act, out) \<Rightarrow> (Inr (Some act), p1\<lparr>pr_out := out\<rparr>))"

definition unobserve_end :: "operation \<Rightarrow> protocol \<Rightarrow> (mqtt_error option \<times> protocol) option" where
  "unobserve_end act p =
     (case finish act (pr_out p) of
        None \<Rightarrow> None
      | Some (Inl e, out) \<Rightarrow> Some (Some e, p\<lparr>pr_out := out\<rparr>)
      | Some (Inr unsuback, out) \<Rightarrow> Some (None, p\<lparr>pr_out := out\<rparr>))"

section \<open>Interleavings\<close>

datatype sub_op =
    Subscribes "SubscriptionRequest list" operation "(pystr \<times> SubscriptionEntry) list"
  | Unsubscribes "pystr list" unsubscribing
  | Observes pystr operation
  | Unobserves pystr operation

fun held :: "sub_op \<Rightarrow> pystr set" where
  "held (Subscribes reqs act es) = sr_topic_filter ` set reqs"
| "held (Unsubscribes filters stage) = set filters"
| "held (Observes topic act) = {topic}"
| "held (Unobserves topic act) = {topic}"

definition free :: "pystr set \<Rightarrow> sub_op list \<Rightarrow> bool" where
  "free fs ops \<longleftrightarrow> (\<forall>op \<in> set ops. fs \<inter> held op = {})"

type_synonym sub_state = "protocol \<times> sub_op list \<times> pystr set"

text \<open>
  \<open>U\<close> is a set of filters in doubt: the broker may hold one of them or not at any moment (\<open>doubt\<close>).  The
  filters of an operation are to be in \<open>U\<close> when it is cancelled, when one of its writes fails, when it
  fails by itself on a live connection after it has changed the index (no packet id left, a packet that
  cannot be encoded), and when the broker refuses only a part of a SUBSCRIBE.  An UNSUBSCRIBE for
  filters outside \<open>U\<close> is granted.  What an operation meets on a connection that is lost is open.
\<close>

definition refused :: "operation \<Rightarrow> protocol \<Rightarrow> bool" where
  "refused act p \<longleftrightarrow> (case ob_futures (pr_out p) (activity_future act) of
     Answered (SubAck suback) \<Rightarrow> \<forall>code \<in> set (sback_return_codes suback). code \<ge> 0x80
   | _ \<Rightarrow> False)"

inductive pstep :: "pystr set \<Rightarrow> sub_state \<Rightarrow> sub_state \<Rightarrow> bool" for U where
  subscribe: "free (sr_topic_filter ` set reqs) ops \<Longrightarrow>
    subscribe_begin reqs auto_ack queue ident ref p = (Inr (act, es), p') \<Longrightarrow>
    pstep U (p, ops, B) (p', Subscribes reqs act es # ops, B)"
| subscribe_fails: "free (sr_topic_filter ` set reqs) ops \<Longrightarrow>
    subscribe_begin reqs auto_ack queue ident ref p = (Inl e, p') \<Longrightarrow> pstep U (p, ops, B) (p', ops, B)"
| subscribed: "subscribe_end act es p = Some (Inr res, p') \<Longrightarrow>
    pstep U (p, as @ Subscribes reqs act es # bs, B) (p', as @ bs, B \<union> sr_topic_filter ` set reqs)"
| rejected: "subscribe_end act es p = Some (Inl e, p') \<Longrightarrow> refused act p \<or> sr_topic_filter ` set reqs \<subseteq> U \<Longrightarrow>
    pstep U (p, as @ Subscribes reqs act es # bs, B) (p', as @ bs, B)"
| subscribe_cut: "sr_topic_filter ` set reqs \<subseteq> U \<Longrightarrow>
    pstep U (p, as @ Subscribes reqs act es # bs, B) (subscribe_cut act es p, as @ bs, B)"
| unsubscribe: "free (set filters) ops \<Longrightarrow> unsubscribe_begin filters p = (Inr stage, p') \<Longrightarrow>
    pstep U (p, ops, B) (p', Unsubscribes filters stage # ops, B)"
| unsubscribe_fails: "free (set filters) ops \<Longrightarrow> unsubscribe_begin filters p = (Inl e, p') \<Longrightarrow>
    ob_dead (pr_out p) \<or> set filters \<subseteq> U \<Longrightarrow> pstep U (p, ops, B) (p', ops, B)"
| unsuback: "unsuback_received act broker_filters observed p = Some (Inr stage, p') \<Longrightarrow>
    pstep U (p, as @ Unsubscribes filters (AwaitUnsuback act broker_filters observed) # bs, B)
      (p', as @ Unsubscribes filters stage # bs, B - set broker_filters)"
| unsuback_fails: "unsuback_received act broker_filters observed p = Some (Inl e, p') \<Longrightarrow> set broker_filters \<subseteq> U \<Longrightarrow>
    pstep U (p, as @ Unsubscribes filters (AwaitUnsuback act broker_filters observed) # bs, B) (p', as @ bs, B)"
| unsuback_cut: "set broker_filters \<subseteq> U \<Longrightarrow>
    pstep U (p, as @ Unsubscribes filters (AwaitUnsuback act broker_filters observed) # bs, B)
      (unsubscribe_cut act p, as @ bs, B)"
| restored: "observers_restored act ack p = Some (Inr stage, p') \<Longrightarrow>
    pstep U (p, as @ Unsubscribes filters (AwaitSuback act ack) # bs, B) (p', as @ Unsubscribes filters stage # bs, B)"
| restore_fails: "observers_restored act ack p = Some (Inl e, p') \<Longrightarrow>
    pstep U (p, as @ Unsubscribes filters (AwaitSuback act ack) # bs, B) (p', as @ bs, B)"
| restore_cut: "pstep U (p, as @ Unsubscribes filters (AwaitSuback act ack) # bs, B) (unsubscribe_cut act p, as @ bs, B)"
| unsubscribed: "pstep U (p, as @ Unsubscribes filters (Unsubscribed ack) # bs, B) (p, as @ bs, B)"
| observe: "free {topic} ops \<Longrightarrow> observe_begin topic p = (Inr (Some act), p') \<Longrightarrow>
    pstep U (p, ops, B) (p', Observes topic act # ops, B)"
| observe_over: "free {topic} ops \<Longrightarrow> observe_begin topic p = (res, p') \<Longrightarrow> (\<And>act. res \<noteq> Inr (Some act)) \<Longrightarrow>
    pstep U (p, ops, B) (p', ops, B)"
| observed: "observe_end topic act p = Some (None, p') \<Longrightarrow>
    pstep U (p, as @ Observes topic act # bs, B) (p', as @ bs, insert topic B)"
| observe_rejected: "observe_end topic act p = Some (Some e, p') \<Longrightarrow> refused act p \<or> topic \<in> U \<Longrightarrow>
    pstep U (p, as @ Observes topic act # bs, B) (p', as @ bs, B)"
| observe_cut: "topic \<in> U \<Longrightarrow> pstep U (p, as @ Observes topic act # bs, B) (observe_cut topic act p, as @ bs, B)"
| unobserve: "free {topic} ops \<Longrightarrow> unobserve_begin topic p = (Inr (Some act), p') \<Longrightarrow>
    pstep U (p, ops, B) (p', Unobserves topic act # ops, B)"
| unobserve_over: "free {topic} ops \<Longrightarrow> unobserve_begin topic p = (Inr None, p') \<Longrightarrow> pstep U (p, ops, B) (p', ops, B)"
| unobserve_fails: "free {topic} ops \<Longrightarrow> unobserve_begin topic p = (Inl e, p') \<Longrightarrow> topic \<in> U \<Longrightarrow>
    pstep U (p, ops, B) (p', ops, B)"
| unobserved: "unobserve_end act p = Some (None, p') \<Longrightarrow>
    pstep U (p, as @ Unobserves topic act # bs, B) (p', as @ bs, B - {topic})"
| unobserved_fails: "unobserve_end act p = Some (Some e, p') \<Longrightarrow> topic \<in> U \<Longrightarrow>
    pstep U (p, as @ Unobserves topic act # bs, B) (p', as @ bs, B)"
| unobserve_cut: "topic \<in> U \<Longrightarrow> pstep U (p, as @ Unobserves topic act # bs, B) (unsubscribe_cut act p, as @ bs, B)"
| doubt: "B' - U = B - U \<Longrightarrow> pstep U (p, ops, B) (p, ops, B')"
| detach: "detach filters p = (ds, p') \<Longrightarrow> pstep U (p, ops, B) (p', ops, B)"
| elsewhere: "pr_index p' = pr_index p \<Longrightarrow> (ob_dead (pr_out p) \<longrightarrow> ob_dead (pr_out p')) \<Longrightarrow> pstep U (p, ops, B) (p', ops, B)"
| lost: "ob_dead (pr_out p) \<Longrightarrow> ob_dead (pr_out p') \<Longrightarrow> pstep U (p, as @ op # bs, B) (p', as @ bs, B)"

section \<open>What the index says is wanted\<close>

definition subscribed :: "protocol \<Rightarrow> pystr set" where
  "subscribed p = {f. index_contains f (pr_index p)}"

definition observed :: "protocol \<Rightarrow> pystr set" where
  "observed p = {f. has_response_observer f (pr_index p)}"

definition wanted :: "protocol \<Rightarrow> pystr set" where
  "wanted p = subscribed p \<union> observed p"

lemma set_index_simps [simp]:
  "pr_index (set_index ix p) = ix" "pr_out (set_index ix p) = pr_out p"
  "set_index ix (p\<lparr>pr_out := out\<rparr>) = (set_index ix p)\<lparr>pr_out := out\<rparr>"
  "set_index ix (set_index ix' p) = set_index ix p"
  by (simp_all add: set_index_def)

lemma out_frame [simp]:
  "subscribed (p\<lparr>pr_out := out\<rparr>) = subscribed p" "observed (p\<lparr>pr_out := out\<rparr>) = observed p"
  "wanted (p\<lparr>pr_out := out\<rparr>) = wanted p"
  by (simp_all add: subscribed_def observed_def wanted_def)

lemma index_contains_add [simp]: "index_contains f (index_add g e ix) \<longleftrightarrow> f = g \<or> index_contains f ix"
  by (auto simp: index_contains_def index_add_def index_remove_def Let_def AList.update_conv' AList.delete_conv' split: option.splits)

lemma index_contains_remove [simp]: "index_contains f (snd (index_remove g ix)) \<longleftrightarrow> f \<noteq> g \<and> index_contains f ix"
  by (auto simp: index_contains_def index_remove_def AList.delete_conv' split: option.splits)

lemma observers_kept [simp]:
  "has_response_observer f (index_add g e ix) = has_response_observer f ix"
  "has_response_observer f (snd (index_remove g ix)) = has_response_observer f ix"
  by (auto simp: has_response_observer_def index_add_def index_remove_def Let_def split: option.splits)

lemma index_add_many_simps:
  "index_add_many [] ix = ix" "index_add_many (x # es) ix = index_add_many es (index_add (fst x) (snd x) ix)"
  by (simp_all add: index_add_many_def case_prod_beta)

lemma add_many_simps [simp]:
  "index_contains f (index_add_many es ix) \<longleftrightarrow> f \<in> fst ` set es \<or> index_contains f ix"
  "has_response_observer f (index_add_many es ix) = has_response_observer f ix"
  by (induction es arbitrary: ix) (auto simp: index_add_many_simps)

lemma remove_all_simps [simp]:
  "index_contains f (remove_all fs ix) \<longleftrightarrow> f \<notin> set fs \<and> index_contains f ix"
  "has_response_observer f (remove_all fs ix) = has_response_observer f ix"
  by (induction fs arbitrary: ix) (auto simp: remove_all_def)

lemma observer_simps [simp]:
  "has_response_observer f (snd (add_response_observer g ix)) \<longleftrightarrow> f = g \<or> has_response_observer f ix"
  "has_response_observer f (snd (remove_response_observer g ix)) \<longleftrightarrow> f \<noteq> g \<and> has_response_observer f ix"
  "index_contains f (snd (add_response_observer g ix)) = index_contains f ix"
  "index_contains f (snd (remove_response_observer g ix)) = index_contains f ix"
  "fst (add_response_observer g ix) \<longleftrightarrow> \<not> has_response_observer g ix"
  "fst (remove_response_observer g ix) \<longleftrightarrow> has_response_observer g ix"
  by (auto simp: has_response_observer_def add_response_observer_def remove_response_observer_def index_contains_def)

lemma new_entries_keys:
  "fst ` set (new_entries reqs auto_ack queue ident ref p es)
     = fst ` set es \<union> {f \<in> sr_topic_filter ` set reqs. f \<notin> subscribed p}"
proof (induction reqs arbitrary: ref es)
  case (Cons req reqs)
  then show ?case by (auto simp: Let_def subscribed_def index_contains_def index_get_def AList.dom_update)
qed simp

lemma subscribed_simps [simp]:
  "subscribed (set_index (index_add_many es (pr_index p)) p) = subscribed p \<union> fst ` set es"
  "observed (set_index (index_add_many es (pr_index p)) p) = observed p"
  "subscribed (set_index (remove_all fs (pr_index p)) p) = subscribed p - set fs"
  "observed (set_index (remove_all fs (pr_index p)) p) = observed p"
  "subscribed (rollback es p) = subscribed p - fst ` set es" "observed (rollback es p) = observed p"
  "pr_out (rollback es p) = pr_out p"
  by (auto simp: subscribed_def observed_def rollback_def)

section \<open>The invariant\<close>

fun op_ok :: "protocol \<Rightarrow> pystr set \<Rightarrow> sub_op \<Rightarrow> bool" where
  "op_ok p B (Subscribes reqs act es) \<longleftrightarrow>
     fst ` set es \<subseteq> sr_topic_filter ` set reqs \<and> sr_topic_filter ` set reqs \<subseteq> subscribed p
     \<and> (\<forall>f \<in> sr_topic_filter ` set reqs. f \<in> B \<longleftrightarrow> f \<in> subscribed p - fst ` set es \<or> f \<in> observed p)"
| "op_ok p B (Unsubscribes filters (AwaitUnsuback act broker_filters obs)) \<longleftrightarrow>
     set filters \<inter> subscribed p = {} \<and> set broker_filters = set filters - observed p
     \<and> set filters \<inter> observed p \<subseteq> B"
| "op_ok p B (Unsubscribes filters (AwaitSuback act ack)) \<longleftrightarrow> (\<forall>f \<in> set filters. f \<in> B \<longleftrightarrow> f \<in> wanted p)"
| "op_ok p B (Unsubscribes filters (Unsubscribed ack)) \<longleftrightarrow> (\<forall>f \<in> set filters. f \<in> B \<longleftrightarrow> f \<in> wanted p)"
| "op_ok p B (Observes topic act) \<longleftrightarrow> topic \<in> observed p \<and> topic \<notin> subscribed p \<and> topic \<notin> B"
| "op_ok p B (Unobserves topic act) \<longleftrightarrow> topic \<notin> wanted p"

fun apart :: "sub_op list \<Rightarrow> bool" where
  "apart [] = True"
| "apart (op # ops) \<longleftrightarrow> free (held op) ops \<and> apart ops"

definition busy :: "sub_op list \<Rightarrow> pystr set" where
  "busy ops = (\<Union>op \<in> set ops. held op)"

definition sub_inv :: "sub_state \<Rightarrow> bool" where
  "sub_inv st \<longleftrightarrow> (case st of (p, ops, B) \<Rightarrow>
     apart ops \<and> (ob_dead (pr_out p) \<or>
       (\<forall>op \<in> set ops. op_ok p B op) \<and> (\<forall>f. f \<notin> busy ops \<longrightarrow> (f \<in> B \<longleftrightarrow> f \<in> wanted p))))"

definition agree :: "pystr set \<Rightarrow> protocol \<Rightarrow> pystr set \<Rightarrow> protocol \<Rightarrow> pystr set \<Rightarrow> bool" where
  "agree F p B p' B' \<longleftrightarrow> F \<inter> subscribed p' = F \<inter> subscribed p \<and> F \<inter> observed p' = F \<inter> observed p \<and> F \<inter> B' = F \<inter> B"

lemma agreeI:
  assumes "\<And>f. f \<in> F \<Longrightarrow> (f \<in> subscribed p' \<longleftrightarrow> f \<in> subscribed p) \<and> (f \<in> observed p' \<longleftrightarrow> f \<in> observed p) \<and> (f \<in> B' \<longleftrightarrow> f \<in> B)"
  shows "agree F p B p' B'"
  using assms unfolding agree_def by blast

lemma agreeD:
  assumes "agree F p B p' B'" and "f \<in> F"
  shows "f \<in> subscribed p' \<longleftrightarrow> f \<in> subscribed p" "f \<in> observed p' \<longleftrightarrow> f \<in> observed p" "f \<in> B' \<longleftrightarrow> f \<in> B"
    "f \<in> wanted p' \<longleftrightarrow> f \<in> wanted p"
  using assms unfolding agree_def wanted_def by blast+

lemma op_ok_agree:
  assumes "agree F p B p' B'" and "held op \<subseteq> F" and "op_ok p B op"
  shows "op_ok p' B' op"
proof -
  note a = agreeD [OF assms(1)]
  have "\<And>f. f \<in> held op \<Longrightarrow> f \<in> F" using assms(2) by blast
  note h = a [OF this]
  show ?thesis
  proof (cases "(p, B, op)" rule: op_ok.cases)
    case (1 q C reqs act es)
    then show ?thesis using assms(3) h by (simp add: subset_iff)
  next
    case (2 q C filters act broker_filters obs)
    then have "set filters \<inter> observed p' = set filters \<inter> observed p" "set filters - observed p' = set filters - observed p"
      using h by auto
    then show ?thesis using 2 assms(3) h by auto
  qed (use assms(3) h in auto)
qed

lemma apart_mid: "apart (as @ op # bs) \<longleftrightarrow> apart (as @ bs) \<and> free (held op) (as @ bs)"
  by (induction as) (auto simp: free_def)

lemma busy_simps [simp]: "busy (as @ bs) = busy as \<union> busy bs" "busy (op # ops) = held op \<union> busy ops" "busy [] = {}"
  by (auto simp: busy_def)

lemma free_busy: "free F ops \<longleftrightarrow> F \<inter> busy ops = {}"
  by (auto simp: free_def busy_def)

lemma sub_invD:
  assumes "sub_inv (p, ops, B)" and "\<not> ob_dead (pr_out p)"
  shows "op \<in> set ops \<Longrightarrow> op_ok p B op" "f \<notin> busy ops \<Longrightarrow> f \<in> B \<longleftrightarrow> f \<in> wanted p"
  using assms by (auto simp: sub_inv_def)

text \<open>
  A step of one operation: it changes nothing outside the filters \<open>F\<close> it holds, and where it leaves
  the operation under way or over, its own part of the invariant holds again.
\<close>

lemma op_step:
  assumes inv: "apart (as @ bs)" "free F (as @ bs)"
    and begun: "\<not> ob_dead (pr_out p) \<Longrightarrow> \<forall>f. f \<notin> F \<union> busy (as @ bs) \<longrightarrow> (f \<in> B \<longleftrightarrow> f \<in> wanted p)"
    and frame: "\<not> ob_dead (pr_out p') \<Longrightarrow> agree (- F) p B p' B'" "ob_dead (pr_out p) \<Longrightarrow> ob_dead (pr_out p')"
    and goes_on: "\<And>op. op \<in> set mid \<Longrightarrow> held op = F \<and> (\<not> ob_dead (pr_out p') \<longrightarrow> op_ok p' B' op)"
    and over: "mid = [] \<Longrightarrow> \<not> ob_dead (pr_out p') \<Longrightarrow> \<forall>f \<in> F. f \<in> B' \<longleftrightarrow> f \<in> wanted p'"
    and "length mid \<le> 1" and ops: "\<not> ob_dead (pr_out p) \<Longrightarrow> \<forall>op \<in> set (as @ bs). op_ok p B op"
  shows "sub_inv (p', as @ mid @ bs, B')"
proof -
  have ap: "apart (as @ mid @ bs)"
  proof (cases mid)
    case (Cons op rest)
    then have "rest = []" using assms(8) by (cases rest) auto
    with Cons goes_on inv show ?thesis by (simp add: apart_mid)
  qed (use inv in simp)
  show ?thesis
  proof (cases "ob_dead (pr_out p')")
    case True
    with ap show ?thesis by (simp add: sub_inv_def)
  next
    case False
    then have alive: "\<not> ob_dead (pr_out p)" using frame(2) by blast
    have "op_ok p' B' op" if "op \<in> set (as @ bs)" for op
    proof (rule op_ok_agree [OF frame(1) [OF False]])
      show "held op \<subseteq> - F" using inv(2) that by (auto simp: free_def)
      show "op_ok p B op" using ops [OF alive] that by blast
    qed
    moreover have "f \<in> B' \<longleftrightarrow> f \<in> wanted p'" if "f \<notin> busy (as @ mid @ bs)" for f
    proof (cases "f \<in> F")
      case True
      with that goes_on have "mid = []" by (cases mid) auto
      then show ?thesis using over False True by blast
    next
      case out: False
      then have "f \<in> - F" by simp
      from agreeD [OF frame(1) [OF \<open>\<not> ob_dead (pr_out p')\<close>] this] begun [OF alive] that out show ?thesis by auto
    qed
    ultimately show ?thesis using ap goes_on False by (auto simp: sub_inv_def)
  qed
qed

lemma op_begins:
  assumes inv: "sub_inv (p, ops, B)" "free F ops" and frame: "\<not> ob_dead (pr_out p') \<Longrightarrow> agree (- F) p B p' B'" "ob_dead (pr_out p) \<Longrightarrow> ob_dead (pr_out p')"
  shows "(held op = F \<Longrightarrow> (\<not> ob_dead (pr_out p') \<Longrightarrow> op_ok p' B' op) \<Longrightarrow> sub_inv (p', op # ops, B'))"
    and "((\<not> ob_dead (pr_out p') \<Longrightarrow> \<forall>f \<in> F. f \<in> B' \<longleftrightarrow> f \<in> wanted p') \<Longrightarrow> sub_inv (p', ops, B'))"
proof -
  have ap: "apart ([] @ ops)" "free F ([] @ ops)" using inv by (simp_all add: sub_inv_def)
  have rest: "\<not> ob_dead (pr_out p) \<Longrightarrow> \<forall>op \<in> set ([] @ ops). op_ok p B op"
    "\<not> ob_dead (pr_out p) \<Longrightarrow> \<forall>f. f \<notin> F \<union> busy ([] @ ops) \<longrightarrow> (f \<in> B \<longleftrightarrow> f \<in> wanted p)"
    using sub_invD [OF inv(1)] by auto
  show "sub_inv (p', op # ops, B')" if "held op = F" "\<not> ob_dead (pr_out p') \<Longrightarrow> op_ok p' B' op"
    using op_step [OF ap rest(2) frame, of "[op]"] rest(1) that by simp
  show "sub_inv (p', ops, B')" if "\<not> ob_dead (pr_out p') \<Longrightarrow> \<forall>f \<in> F. f \<in> B' \<longleftrightarrow> f \<in> wanted p'"
    using op_step [OF ap rest(2) frame, of "[]"] rest(1) that by simp
qed

lemma op_proceeds:
  assumes inv: "sub_inv (p, as @ op # bs, B)" and F: "held op = F"
    and frame: "\<not> ob_dead (pr_out p') \<Longrightarrow> agree (- F) p B p' B'" "ob_dead (pr_out p) \<Longrightarrow> ob_dead (pr_out p')"
  shows "(held op' = F \<Longrightarrow> (\<not> ob_dead (pr_out p') \<Longrightarrow> op_ok p' B' op') \<Longrightarrow> sub_inv (p', as @ op' # bs, B'))"
    and "((\<not> ob_dead (pr_out p') \<Longrightarrow> \<forall>f \<in> F. f \<in> B' \<longleftrightarrow> f \<in> wanted p') \<Longrightarrow> sub_inv (p', as @ bs, B'))"
proof -
  have ap: "apart (as @ bs)" "free F (as @ bs)" using inv F by (simp_all add: sub_inv_def apart_mid)
  note d = sub_invD [OF inv]
  have rest: "\<not> ob_dead (pr_out p) \<Longrightarrow> \<forall>op \<in> set (as @ bs). op_ok p B op"
    "\<not> ob_dead (pr_out p) \<Longrightarrow> \<forall>f. f \<notin> F \<union> busy (as @ bs) \<longrightarrow> (f \<in> B \<longleftrightarrow> f \<in> wanted p)"
    using d F by auto
  show "sub_inv (p', as @ op' # bs, B')" if "held op' = F" "\<not> ob_dead (pr_out p') \<Longrightarrow> op_ok p' B' op'"
    using op_step [OF ap rest(2) frame, of "[op']"] rest(1) that by simp
  show "sub_inv (p', as @ bs, B')" if "\<not> ob_dead (pr_out p') \<Longrightarrow> \<forall>f \<in> F. f \<in> B' \<longleftrightarrow> f \<in> wanted p'"
    using op_step [OF ap rest(2) frame, of "[]"] rest(1) that by simp
qed

text \<open>What each segment does to the index; the connection is not lost by any of them.\<close>

lemma dead_kept:
  "send_subscribe reqs ident s = (r, s') \<Longrightarrow> ob_dead s' = ob_dead s"
  "send_unsubscribe flts s = (r, s') \<Longrightarrow> ob_dead s' = ob_dead s"
  "finish act s = Some (q, s') \<Longrightarrow> ob_dead s' = ob_dead s"
proof -
  have acq: "ob_dead s1 = ob_dead s" if "acquire_id s = (res, s1)" for res s1
    using that by (auto simp: acquire_id_def split: option.splits sum.splits)
  have snd_dead: "ob_dead t' = ob_dead t" if "send packet t = (e, t')" for packet t e t'
    using that by (auto simp: send_def split: sum.splits)
  show "send_subscribe reqs ident s = (r, s') \<Longrightarrow> ob_dead s' = ob_dead s"
    by (auto simp: send_subscribe_def ensure_alive_def create_future_def Let_def sub_finally_def
        split: option.splits prod.splits sum.splits if_splits dest!: acq snd_dead)
  show "send_unsubscribe flts s = (r, s') \<Longrightarrow> ob_dead s' = ob_dead s"
    by (auto simp: send_unsubscribe_def ensure_alive_def create_future_def Let_def unsub_finally_def
        split: option.splits prod.splits sum.splits if_splits dest!: acq snd_dead)
  show "finish act s = Some (q, s') \<Longrightarrow> ob_dead s' = ob_dead s"
    by (drule finish_state) (auto simp: activity_finally_def sub_finally_def unsub_finally_def split: operation.splits)
qed

lemma subscribe_begin_spec:
  assumes "subscribe_begin reqs auto_ack queue ident ref p = (res, p')"
  shows "observed p' = observed p" and "ob_dead (pr_out p') = ob_dead (pr_out p)"
    and "res = Inl e \<Longrightarrow> subscribed p' = subscribed p"
    and "res = Inr (act, es) \<Longrightarrow> subscribed p' = subscribed p \<union> sr_topic_filter ` set reqs
      \<and> fst ` set es = sr_topic_filter ` set reqs - subscribed p"
  using assms new_entries_keys [of reqs auto_ack queue ident ref p "[]"]
  by (auto simp: subscribe_begin_def Let_def split: prod.splits sum.splits dest: dead_kept)

lemma subscribe_end_spec:
  assumes "subscribe_end act es p = Some (res, p')"
  shows "observed p' = observed p" and "ob_dead (pr_out p') = ob_dead (pr_out p)"
    and "subscribed p' = (case res of Inl e \<Rightarrow> subscribed p - fst ` set es | Inr x \<Rightarrow> subscribed p)"
proof -
  obtain r out where f: "finish act (pr_out p) = Some (r, out)" using assms by (auto simp: subscribe_end_def split: option.splits)
  show "observed p' = observed p" "ob_dead (pr_out p') = ob_dead (pr_out p)"
    "subscribed p' = (case res of Inl e \<Rightarrow> subscribed p - fst ` set es | Inr x \<Rightarrow> subscribed p)"
    using assms dead_kept(3) [OF f] by (cases r; fastforce simp: subscribe_end_def f)+
qed

lemma finally_dead [simp]: "ob_dead (activity_finally act s) = ob_dead s"
  by (simp add: activity_finally_def sub_finally_def unsub_finally_def release_id_def split: operation.split)

lemma cut_spec:
  "observed (subscribe_cut act es p) = observed p" "ob_dead (pr_out (subscribe_cut act es p)) = ob_dead (pr_out p)"
  "subscribed (subscribe_cut act es p) = subscribed p - fst ` set es"
  "observed (unsubscribe_cut act p) = observed p" "ob_dead (pr_out (unsubscribe_cut act p)) = ob_dead (pr_out p)"
  "subscribed (unsubscribe_cut act p) = subscribed p"
  "observed (observe_cut topic act p) = observed p - {topic}"
  "ob_dead (pr_out (observe_cut topic act p)) = ob_dead (pr_out p)"
  "subscribed (observe_cut topic act p) = subscribed p"
proof -
  show "observed (subscribe_cut act es p) = observed p" "ob_dead (pr_out (subscribe_cut act es p)) = ob_dead (pr_out p)"
    "subscribed (subscribe_cut act es p) = subscribed p - fst ` set es" by (simp_all add: subscribe_cut_def)
  show "observed (unsubscribe_cut act p) = observed p" "ob_dead (pr_out (unsubscribe_cut act p)) = ob_dead (pr_out p)"
    "subscribed (unsubscribe_cut act p) = subscribed p" by (simp_all add: unsubscribe_cut_def)
  show "observed (observe_cut topic act p) = observed p - {topic}"
    "ob_dead (pr_out (observe_cut topic act p)) = ob_dead (pr_out p)"
    "subscribed (observe_cut topic act p) = subscribed p"
    by (auto simp: observe_cut_def subscribed_def observed_def)
qed

lemma restore_observers_spec:
  assumes "restore_observers obs ack p = (stage, p')"
  shows "observed p' = observed p" "subscribed p' = subscribed p" "ob_dead (pr_out p') = ob_dead (pr_out p)"
    and "stage = Unsubscribed ack \<or> (\<exists>act. stage = AwaitSuback act ack)"
  using assms by (auto simp: restore_observers_def split: if_splits prod.splits sum.splits dest: dead_kept)

lemma unsubscribe_begin_spec:
  assumes "unsubscribe_begin filters p = (Inr stage, p')"
  shows "observed p' = observed p" and "subscribed p' = subscribed p - set filters" and "ob_dead (pr_out p') = ob_dead (pr_out p)"
    and "(\<exists>act. stage = AwaitUnsuback act (filter (\<lambda>f. f \<notin> observed p) filters) (filter (\<lambda>f. f \<in> observed p) filters))
      \<or> set filters \<subseteq> observed p \<and> (stage = Unsubscribed None \<or> (\<exists>act. stage = AwaitSuback act None))"
proof -
  have obs: "filter (\<lambda>f. has_response_observer f (pr_index p)) filters = filter (\<lambda>f. f \<in> observed p) filters"
    "filter (\<lambda>f. f \<notin> set (filter (\<lambda>f. f \<in> observed p) filters)) filters = filter (\<lambda>f. f \<notin> observed p) filters"
    by (auto simp: observed_def intro: filter_cong)
  let ?p1 = "set_index (remove_all filters (pr_index p)) p"
  consider (send) act out where "send_unsubscribe (filter (\<lambda>f. f \<notin> observed p) filters) (pr_out p) = (Inr act, out)"
      "stage = AwaitUnsuback act (filter (\<lambda>f. f \<notin> observed p) filters) (filter (\<lambda>f. f \<in> observed p) filters)"
      "p' = ?p1\<lparr>pr_out := out\<rparr>"
    | (restore) "set filters \<subseteq> observed p" "restore_observers (filter (\<lambda>f. f \<in> observed p) filters) None ?p1 = (stage, p')"
    using assms unfolding unsubscribe_begin_def obs Let_def
    by (cases "restore_observers (filter (\<lambda>f. f \<in> observed p) filters) None ?p1")
      (auto simp: filter_empty_conv subset_iff split: option.splits if_splits prod.splits sum.splits)
  note cases = this
  show "observed p' = observed p" by (cases rule: cases) (simp_all add: restore_observers_spec(1))
  show "subscribed p' = subscribed p - set filters" by (cases rule: cases) (simp_all add: restore_observers_spec(2))
  show "ob_dead (pr_out p') = ob_dead (pr_out p)"
    by (cases rule: cases) (simp_all add: restore_observers_spec(3) dead_kept(2))
  show "(\<exists>act. stage = AwaitUnsuback act (filter (\<lambda>f. f \<notin> observed p) filters) (filter (\<lambda>f. f \<in> observed p) filters))
    \<or> set filters \<subseteq> observed p \<and> (stage = Unsubscribed None \<or> (\<exists>act. stage = AwaitSuback act None))"
    by (cases rule: cases) (use restore_observers_spec(4) in blast)+
qed

lemma unsuback_received_spec:
  assumes "unsuback_received act broker_filters obs p = Some (Inr stage, p')"
  shows "observed p' = observed p" "subscribed p' = subscribed p" "ob_dead (pr_out p') = ob_dead (pr_out p)"
    and "(\<exists>ack. stage = Unsubscribed ack) \<or> (\<exists>act ack. stage = AwaitSuback act ack)"
proof -
  obtain ack out where r: "finish act (pr_out p) = Some (Inr ack, out)"
    "restore_observers obs (Some (broker_filters, ack)) (p\<lparr>pr_out := out\<rparr>) = (stage, p')"
    using assms by (auto simp: unsuback_received_def apfst_def map_prod_def split: option.splits prod.splits sum.splits)
  show "observed p' = observed p" "subscribed p' = subscribed p" "ob_dead (pr_out p') = ob_dead (pr_out p)"
    "(\<exists>ack. stage = Unsubscribed ack) \<or> (\<exists>act ack. stage = AwaitSuback act ack)"
    using restore_observers_spec [OF r(2)] dead_kept(3) [OF r(1)] by auto
qed

lemma observers_restored_spec:
  assumes "observers_restored act ack p = Some (Inr stage, p')"
  shows "observed p' = observed p" "subscribed p' = subscribed p" "ob_dead (pr_out p') = ob_dead (pr_out p)"
    and "stage = Unsubscribed ack"
  using assms by (auto simp: observers_restored_def split: option.splits prod.splits sum.splits if_splits dest: dead_kept)

lemma observe_begin_spec:
  assumes "observe_begin topic p = (res, p')"
  shows "subscribed p' = subscribed p" and "ob_dead (pr_out p') = ob_dead (pr_out p)"
    and "observed p' = (case res of Inl e \<Rightarrow> observed p | Inr x \<Rightarrow> insert topic (observed p))"
    and "res = Inr (Some act) \<Longrightarrow> topic \<notin> subscribed p \<and> topic \<notin> observed p"
    and "res = Inr None \<Longrightarrow> topic \<in> wanted p"
proof -
  obtain new ix where ix: "add_response_observer topic (pr_index p) = (new, ix)" by (cases "add_response_observer topic (pr_index p)")
  then have parts: "ix = snd (add_response_observer topic (pr_index p))" "new = fst (add_response_observer topic (pr_index p))" by simp_all
  have fields: "new \<longleftrightarrow> topic \<notin> observed p" "subscribed (set_index ix p) = subscribed p"
    "observed (set_index ix p) = insert topic (observed p)" "index_contains topic ix \<longleftrightarrow> topic \<in> subscribed p"
    by (auto simp: parts subscribed_def observed_def)
  have undo: "subscribed (set_index (snd (remove_response_observer topic ix)) p) = subscribed p"
    "observed (set_index (snd (remove_response_observer topic ix)) p) = observed p - {topic}"
    by (auto simp: parts subscribed_def observed_def)
  consider "res = Inl (MQTTDisconnectedError ''Connection lost'')" "p' = p"
    | "topic \<in> observed p \<or> topic \<in> subscribed p" "res = Inr None" "p' = set_index ix p"
    | e out where "topic \<notin> observed p" "topic \<notin> subscribed p" "send_subscribe [observer_request topic] None (pr_out p) = (Inl e, out)"
        "res = Inl e" "p' = set_index (snd (remove_response_observer topic ix)) p\<lparr>pr_out := out\<rparr>"
    | a out where "topic \<notin> observed p" "topic \<notin> subscribed p" "send_subscribe [observer_request topic] None (pr_out p) = (Inr a, out)"
        "res = Inr (Some a)" "p' = set_index ix p\<lparr>pr_out := out\<rparr>"
  proof -
    have eq: "observe_begin topic p =
        (if ob_dead (pr_out p) then (Inl (MQTTDisconnectedError ''Connection lost''), p)
         else if topic \<in> observed p \<or> topic \<in> subscribed p then (Inr None, set_index ix p)
         else case send_subscribe [observer_request topic] None (pr_out p) of
                (Inl e, out) \<Rightarrow> (Inl e, set_index (snd (remove_response_observer topic ix)) p\<lparr>pr_out := out\<rparr>)
              | (Inr a, out) \<Rightarrow> (Inr (Some a), set_index ix p\<lparr>pr_out := out\<rparr>))"
      using fields(1,4) by (cases new) (simp_all add: observe_begin_def ix ensure_alive_def Let_def split: prod.split sum.split)
    obtain r out where send: "send_subscribe [observer_request topic] None (pr_out p) = (r, out)"
      by (cases "send_subscribe [observer_request topic] None (pr_out p)")
    consider "ob_dead (pr_out p)" | "\<not> ob_dead (pr_out p)" "topic \<in> observed p \<or> topic \<in> subscribed p"
      | "\<not> ob_dead (pr_out p)" "topic \<notin> observed p" "topic \<notin> subscribed p" by blast
    then show ?thesis
    proof cases
      case 1
      with assms eq show ?thesis by (intro that(1)) simp_all
    next
      case 2
      with assms eq show ?thesis by (intro that(2)) simp_all
    next
      case 3
      show ?thesis
      proof (cases r)
        case (Inl e)
        with 3 assms eq send show ?thesis by (intro that(3)) auto
      next
        case (Inr a)
        with 3 assms eq send show ?thesis by (intro that(4)) auto
      qed
    qed
  qed
  note cases = this
  show "subscribed p' = subscribed p" by (cases rule: cases) (simp_all add: fields undo)
  show "ob_dead (pr_out p') = ob_dead (pr_out p)" by (cases rule: cases) (simp_all add: dead_kept(1))
  show "observed p' = (case res of Inl e \<Rightarrow> observed p | Inr x \<Rightarrow> insert topic (observed p))"
    by (cases rule: cases) (simp_all add: fields undo)
  show "res = Inr (Some act) \<Longrightarrow> topic \<notin> subscribed p \<and> topic \<notin> observed p" by (cases rule: cases) simp_all
  show "res = Inr None \<Longrightarrow> topic \<in> wanted p" by (cases rule: cases) (auto simp: wanted_def)
qed

lemma observe_end_spec:
  assumes "observe_end topic act p = Some (res, p')"
  shows "subscribed p' = subscribed p" and "ob_dead (pr_out p') = ob_dead (pr_out p)"
    and "observed p' = (case res of Some e \<Rightarrow> observed p - {topic} | None \<Rightarrow> observed p)"
proof -
  obtain r out where f: "finish act (pr_out p) = Some (r, out)" using assms by (auto simp: observe_end_def split: option.splits)
  have undo: "subscribed (set_index (snd (remove_response_observer topic (pr_index p))) p) = subscribed p"
    "observed (set_index (snd (remove_response_observer topic (pr_index p))) p) = observed p - {topic}"
    by (auto simp: subscribed_def observed_def)
  show "subscribed p' = subscribed p" "ob_dead (pr_out p') = ob_dead (pr_out p)"
    "observed p' = (case res of Some e \<Rightarrow> observed p - {topic} | None \<Rightarrow> observed p)"
    using assms dead_kept(3) [OF f] undo by (cases r; fastforce simp: observe_end_def f)+
qed

lemma unobserve_begin_spec:
  assumes "unobserve_begin topic p = (Inr res, p')"
  shows "subscribed p' = subscribed p" and "ob_dead (pr_out p') = ob_dead (pr_out p)" and "observed p' = observed p - {topic}"
    and "res = Some act \<Longrightarrow> topic \<notin> subscribed p"
    and "res = None \<Longrightarrow> \<not> ob_dead (pr_out p) \<Longrightarrow> topic \<notin> observed p \<or> topic \<in> subscribed p"
proof -
  obtain old ix where ix: "remove_response_observer topic (pr_index p) = (old, ix)" by (cases "remove_response_observer topic (pr_index p)")
  then have parts: "ix = snd (remove_response_observer topic (pr_index p))" "old = fst (remove_response_observer topic (pr_index p))" by simp_all
  have fields: "old \<longleftrightarrow> topic \<in> observed p" "subscribed (set_index ix p) = subscribed p"
    "observed (set_index ix p) = observed p - {topic}" "index_contains topic ix \<longleftrightarrow> topic \<in> subscribed p"
    by (auto simp: parts subscribed_def observed_def)
  consider "topic \<notin> observed p \<or> topic \<in> subscribed p \<or> ob_dead (pr_out p)" "res = None" "p' = set_index ix p"
    | a out where "topic \<notin> subscribed p" "send_unsubscribe [topic] (pr_out p) = (Inr a, out)" "res = Some a"
        "p' = set_index ix p\<lparr>pr_out := out\<rparr>"
    using assms fields
    by (auto simp: unobserve_begin_def ix Let_def split: bool.splits if_splits prod.splits sum.splits)
  note cases = this
  show "subscribed p' = subscribed p" "observed p' = observed p - {topic}" by (cases rule: cases; simp add: fields)+
  show "ob_dead (pr_out p') = ob_dead (pr_out p)" by (cases rule: cases) (simp_all add: dead_kept(2))
  show "res = Some act \<Longrightarrow> topic \<notin> subscribed p" by (cases rule: cases) simp_all
  show "res = None \<Longrightarrow> \<not> ob_dead (pr_out p) \<Longrightarrow> topic \<notin> observed p \<or> topic \<in> subscribed p"
    by (cases rule: cases) auto
qed

lemma unobserve_end_spec:
  assumes "unobserve_end act p = Some (res, p')"
  shows "subscribed p' = subscribed p" and "ob_dead (pr_out p') = ob_dead (pr_out p)" and "observed p' = observed p"
  using assms by (auto simp: unobserve_end_def split: option.splits prod.splits sum.splits dest: dead_kept)

lemma detach_spec:
  assumes "detach filters p = (ds, p')"
  shows "pr_index p' = pr_index p" and "pr_out p' = pr_out p"
  using assms by (induction filters arbitrary: p ds p') (auto split: option.splits prod.splits)

lemma same_inv:
  assumes "sub_inv (p, ops, B)" and "subscribed p' = subscribed p" "observed p' = observed p"
    and "ob_dead (pr_out p) \<Longrightarrow> ob_dead (pr_out p')"
  shows "sub_inv (p', ops, B)"
  using op_begins(2) [of p ops B "{}" p' B] assms by (simp add: agree_def free_def)

lemma subscribe_step_inv:
  assumes inv: "sub_inv (p, ops, B)" and fr: "free (sr_topic_filter ` set reqs) ops"
    and b: "subscribe_begin reqs auto_ack queue ident ref p = (res, p')"
  shows "res = Inl e \<Longrightarrow> sub_inv (p', ops, B)"
    and "res = Inr (act, es) \<Longrightarrow> sub_inv (p', Subscribes reqs act es # ops, B)"
proof -
  note sp = subscribe_begin_spec [OF b]
  show "sub_inv (p', ops, B)" if "res = Inl e" using same_inv [OF inv sp(3) sp(1)] sp(2) that by blast
  show "sub_inv (p', Subscribes reqs act es # ops, B)" if "res = Inr (act, es)"
  proof (rule op_begins(1) [OF inv fr])
    let ?H = "sr_topic_filter ` set reqs"
    have sub: "subscribed p' = subscribed p \<union> ?H" "fst ` set es = ?H - subscribed p" using sp(4) [OF that] by auto
    show "agree (- ?H) p B p' B" by (rule agreeI) (simp add: sub sp(1))
    show "ob_dead (pr_out p) \<Longrightarrow> ob_dead (pr_out p')" by (simp add: sp(2))
    show "op_ok p' B (Subscribes reqs act es)" if "\<not> ob_dead (pr_out p')"
    proof -
      have "f \<in> B \<longleftrightarrow> f \<in> wanted p" if "f \<in> ?H" for f
        using sub_invD(2) [OF inv, of f] fr that \<open>\<not> ob_dead (pr_out p')\<close> sp(2) by (auto simp: free_busy)
      then have "\<forall>f \<in> ?H. f \<in> B \<longleftrightarrow> f \<in> subscribed p' - fst ` set es \<or> f \<in> observed p'"
        unfolding sub sp(1) wanted_def by blast
      then show ?thesis using sub by simp
    qed
  qed simp
qed

lemma subscribe_undone_inv:
  assumes inv: "sub_inv (p, as @ Subscribes reqs act es # bs, B)"
    and sp: "observed p' = observed p" "ob_dead (pr_out p') = ob_dead (pr_out p)"
    and sub: "subscribed p' = subscribed p - fst ` set es"
  shows "sub_inv (p', as @ bs, B)"
proof (rule op_proceeds(2) [OF inv held.simps(1)])
  let ?H = "sr_topic_filter ` set reqs"
  have ok: "op_ok p B (Subscribes reqs act es)" if "\<not> ob_dead (pr_out p')"
    using sub_invD(1) [OF inv, of "Subscribes reqs act es"] that sp(2) by simp
  show "\<forall>f \<in> ?H. f \<in> B \<longleftrightarrow> f \<in> wanted p'" if "\<not> ob_dead (pr_out p')"
    using ok [OF that] unfolding sub sp(1) wanted_def by simp
  show "agree (- ?H) p B p' B" if "\<not> ob_dead (pr_out p')"
    using ok [OF that] by (intro agreeI) (auto simp: sub sp(1))
qed (simp add: sp(2))

lemma subscribed_step_inv:
  assumes inv: "sub_inv (p, as @ Subscribes reqs act es # bs, B)" and e: "subscribe_end act es p = Some (res, p')"
  shows "res = Inr x \<Longrightarrow> sub_inv (p', as @ bs, B \<union> sr_topic_filter ` set reqs)" and "res = Inl y \<Longrightarrow> sub_inv (p', as @ bs, B)"
proof -
  let ?H = "sr_topic_filter ` set reqs"
  note sp = subscribe_end_spec [OF e]
  show "sub_inv (p', as @ bs, B \<union> ?H)" if "res = Inr x"
  proof (rule op_proceeds(2) [OF inv held.simps(1)])
    show "agree (- ?H) p B p' (B \<union> ?H)" by (rule agreeI) (auto simp: sp that)
    show "\<forall>f \<in> ?H. f \<in> B \<union> ?H \<longleftrightarrow> f \<in> wanted p'" if "\<not> ob_dead (pr_out p')"
      using sub_invD(1) [OF inv, of "Subscribes reqs act es"] that sp \<open>res = Inr x\<close> by (auto simp: wanted_def)
  qed (simp add: sp(2))
  show "sub_inv (p', as @ bs, B)" if "res = Inl y"
    using subscribe_undone_inv [OF inv sp(1,2)] sp(3) that by simp
qed

lemma free_wanted:
  assumes "sub_inv (p, ops, B)" and "free F ops" and "\<not> ob_dead (pr_out p)" and "f \<in> F"
  shows "f \<in> B \<longleftrightarrow> f \<in> wanted p"
  using sub_invD(2) [OF assms(1,3), of f] assms(2,4) by (auto simp: free_busy)

lemma unsubscribe_step_inv:
  assumes inv: "sub_inv (p, ops, B)" and fr: "free (set filters) ops" and b: "unsubscribe_begin filters p = (Inr stage, p')"
  shows "sub_inv (p', Unsubscribes filters stage # ops, B)"
proof (rule op_begins(1) [OF inv fr])
  note sp = unsubscribe_begin_spec [OF b]
  show "agree (- set filters) p B p' B" by (rule agreeI) (simp add: sp(1,2))
  show "ob_dead (pr_out p) \<Longrightarrow> ob_dead (pr_out p')" by (simp add: sp(3))
  show "op_ok p' B (Unsubscribes filters stage)" if "\<not> ob_dead (pr_out p')"
  proof -
    have w: "f \<in> B \<longleftrightarrow> f \<in> wanted p" if "f \<in> set filters" for f
      using free_wanted [OF inv fr _ that] \<open>\<not> ob_dead (pr_out p')\<close> sp(3) by simp
    from sp(4) show ?thesis using w by (auto simp: wanted_def sp(1,2))
  qed
qed simp

lemma unsuback_step_inv:
  assumes inv: "sub_inv (p, as @ Unsubscribes filters (AwaitUnsuback act bf obs) # bs, B)"
    and e: "unsuback_received act bf obs p = Some (Inr stage, p')"
  shows "sub_inv (p', as @ Unsubscribes filters stage # bs, B - set bf)"
proof (rule op_proceeds(1) [OF inv held.simps(2)])
  note sp = unsuback_received_spec [OF e]
  have ok: "op_ok p B (Unsubscribes filters (AwaitUnsuback act bf obs))" if "\<not> ob_dead (pr_out p')"
    using sub_invD(1) [OF inv, of "Unsubscribes filters (AwaitUnsuback act bf obs)"] that sp(3) by simp
  show "agree (- set filters) p B p' (B - set bf)" if "\<not> ob_dead (pr_out p')"
    using ok [OF that] by (intro agreeI) (auto simp: sp(1,2))
  show "ob_dead (pr_out p) \<Longrightarrow> ob_dead (pr_out p')" by (simp add: sp(3))
  show "op_ok p' (B - set bf) (Unsubscribes filters stage)" if "\<not> ob_dead (pr_out p')"
  proof -
    have "\<forall>f \<in> set filters. f \<in> B - set bf \<longleftrightarrow> f \<in> wanted p'"
      using ok [OF that] unfolding wanted_def sp(1,2) op_ok.simps by blast
    with sp(4) show ?thesis by auto
  qed
qed simp

lemma observe_step_inv:
  assumes inv: "sub_inv (p, ops, B)" and fr: "free {topic} ops" and b: "observe_begin topic p = (res, p')"
  shows "res = Inr (Some act) \<Longrightarrow> sub_inv (p', Observes topic act # ops, B)"
    and "(\<And>act. res \<noteq> Inr (Some act)) \<Longrightarrow> sub_inv (p', ops, B)"
proof -
  note sp = observe_begin_spec [OF b]
  have dead: "ob_dead (pr_out p) \<Longrightarrow> ob_dead (pr_out p')" by (simp add: sp(2))
  have ag: "agree (- {topic}) p B p' B" by (rule agreeI) (simp add: sp(1,3) split: sum.split)
  have w: "topic \<in> B \<longleftrightarrow> topic \<in> wanted p" if "\<not> ob_dead (pr_out p')"
    using free_wanted [OF inv fr, of topic] that sp(2) by simp
  show "sub_inv (p', Observes topic act # ops, B)" if r: "res = Inr (Some act)"
  proof (rule op_begins(1) [OF inv fr ag dead])
    show "op_ok p' B (Observes topic act)" if "\<not> ob_dead (pr_out p')"
      using sp(4) [OF r] w [OF that] by (simp add: sp(1,3) r wanted_def)
  qed simp_all
  show "sub_inv (p', ops, B)" if r: "\<And>act. res \<noteq> Inr (Some act)"
  proof (rule op_begins(2) [OF inv fr ag dead])
    show "\<forall>f \<in> {topic}. f \<in> B \<longleftrightarrow> f \<in> wanted p'" if "\<not> ob_dead (pr_out p')"
    proof (cases res)
      case (Inr x)
      then have "res = Inr None" using r by (cases x) auto
      then show ?thesis using sp(5) w [OF that] by (simp add: wanted_def sp(1,3))
    qed (use w [OF that] in \<open>simp add: wanted_def sp(1,3)\<close>)
  qed simp_all
qed

lemma observed_step_inv:
  assumes inv: "sub_inv (p, as @ Observes topic act # bs, B)" and e: "observe_end topic act p = Some (res, p')"
  shows "res = None \<Longrightarrow> sub_inv (p', as @ bs, insert topic B)" and "res = Some x \<Longrightarrow> sub_inv (p', as @ bs, B)"
proof -
  note sp = observe_end_spec [OF e]
  have dead: "ob_dead (pr_out p) \<Longrightarrow> ob_dead (pr_out p')" by (simp add: sp(2))
  have ok: "topic \<in> observed p" "topic \<notin> subscribed p" "topic \<notin> B" if "\<not> ob_dead (pr_out p')"
    using sub_invD(1) [OF inv, of "Observes topic act"] that sp(2) by simp_all
  show "sub_inv (p', as @ bs, insert topic B)" if "res = None"
    by (rule op_proceeds(2) [OF inv held.simps(3) _ dead]) (use ok that in \<open>auto simp: agree_def sp wanted_def\<close>)
  show "sub_inv (p', as @ bs, B)" if "res = Some x"
    by (rule op_proceeds(2) [OF inv held.simps(3) _ dead]) (use ok that in \<open>auto simp: agree_def sp wanted_def\<close>)
qed

lemma unobserve_step_inv:
  assumes inv: "sub_inv (p, ops, B)" and fr: "free {topic} ops" and b: "unobserve_begin topic p = (Inr res, p')"
  shows "res = Some act \<Longrightarrow> sub_inv (p', Unobserves topic act # ops, B)" and "res = None \<Longrightarrow> sub_inv (p', ops, B)"
proof -
  note sp = unobserve_begin_spec [OF b]
  have dead: "ob_dead (pr_out p) \<Longrightarrow> ob_dead (pr_out p')" by (simp add: sp(2))
  have ag: "agree (- {topic}) p B p' B" by (rule agreeI) (simp add: sp(1,3))
  show "sub_inv (p', Unobserves topic act # ops, B)" if "res = Some act"
    by (rule op_begins(1) [OF inv fr ag dead]) (use sp(4) [OF that] in \<open>simp_all add: wanted_def sp(1,3)\<close>)
  show "sub_inv (p', ops, B)" if r: "res = None"
  proof (rule op_begins(2) [OF inv fr ag dead])
    show "\<forall>f \<in> {topic}. f \<in> B \<longleftrightarrow> f \<in> wanted p'" if "\<not> ob_dead (pr_out p')"
      using sp(5) [OF r] free_wanted [OF inv fr, of topic] that sp(2) by (auto simp: wanted_def sp(1,3))
  qed simp_all
qed

lemma unobserved_step_inv:
  assumes inv: "sub_inv (p, as @ Unobserves topic act # bs, B)" and e: "unobserve_end act p = Some (res, p')"
  shows "sub_inv (p', as @ bs, B - {topic})"
proof (rule op_proceeds(2) [OF inv held.simps(4)])
  note sp = unobserve_end_spec [OF e]
  show "ob_dead (pr_out p) \<Longrightarrow> ob_dead (pr_out p')" by (simp add: sp(2))
  show "agree (- {topic}) p B p' (B - {topic})" by (rule agreeI) (simp add: sp)
  show "\<forall>f \<in> {topic}. f \<in> B - {topic} \<longleftrightarrow> f \<in> wanted p'" if "\<not> ob_dead (pr_out p')"
    using sub_invD(1) [OF inv, of "Unobserves topic act"] that sp(2) by (simp add: wanted_def sp)
qed

text \<open>Operations that end without their answer: the index is as if they had been granted.\<close>

lemma unsubscribe_cut_inv:
  assumes inv: "sub_inv (p, as @ Unsubscribes filters (AwaitUnsuback act bf obs) # bs, B)"
    and sp: "subscribed p' = subscribed p" "observed p' = observed p" "ob_dead (pr_out p') = ob_dead (pr_out p)"
  shows "sub_inv (p', as @ bs, B - set bf)"
proof (rule op_proceeds(2) [OF inv held.simps(2)])
  have ok: "op_ok p B (Unsubscribes filters (AwaitUnsuback act bf obs))" if "\<not> ob_dead (pr_out p')"
    using sub_invD(1) [OF inv, of "Unsubscribes filters (AwaitUnsuback act bf obs)"] that sp(3) by simp
  show "agree (- set filters) p B p' (B - set bf)" if "\<not> ob_dead (pr_out p')"
    using ok [OF that] by (intro agreeI) (auto simp: sp)
  show "\<forall>f \<in> set filters. f \<in> B - set bf \<longleftrightarrow> f \<in> wanted p'" if "\<not> ob_dead (pr_out p')"
    using ok [OF that] unfolding wanted_def sp op_ok.simps by blast
qed (simp add: sp)

lemma restore_cut_inv:
  assumes inv: "sub_inv (p, as @ Unsubscribes filters (AwaitSuback act ack) # bs, B)"
    and sp: "subscribed p' = subscribed p" "observed p' = observed p" "ob_dead (pr_out p') = ob_dead (pr_out p)"
  shows "sub_inv (p', as @ bs, B)"
  by (rule op_proceeds(2) [OF inv held.simps(2)])
    (use sub_invD(1) [OF inv, of "Unsubscribes filters (AwaitSuback act ack)"] in \<open>auto simp: sp agree_def wanted_def\<close>)

lemma observe_cut_inv:
  assumes inv: "sub_inv (p, as @ Observes topic act # bs, B)"
    and sp: "subscribed p' = subscribed p" "observed p' = observed p - {topic}" "ob_dead (pr_out p') = ob_dead (pr_out p)"
  shows "sub_inv (p', as @ bs, B)"
  by (rule op_proceeds(2) [OF inv held.simps(3)])
    (use sub_invD(1) [OF inv, of "Observes topic act"] in \<open>auto simp: agree_def sp wanted_def\<close>)

lemma unobserve_cut_inv:
  assumes inv: "sub_inv (p, as @ Unobserves topic act # bs, B)"
    and sp: "subscribed p' = subscribed p" "observed p' = observed p" "ob_dead (pr_out p') = ob_dead (pr_out p)"
  shows "sub_inv (p', as @ bs, B - {topic})"
  by (rule op_proceeds(2) [OF inv held.simps(4)])
    (use sub_invD(1) [OF inv, of "Unobserves topic act"] in \<open>auto simp: agree_def sp wanted_def\<close>)

lemma unsubscribe_fails_inv:
  assumes inv: "sub_inv (p, ops, B)" and fr: "free (set filters) ops" and b: "unsubscribe_begin filters p = (Inl e, p')"
  shows "if ob_dead (pr_out p) then p' = p else sub_inv (p', ops, B - (set filters - observed p))"
proof (cases "ob_dead (pr_out p)")
  case True
  then show ?thesis using b by (simp add: unsubscribe_begin_def ensure_alive_def)
next
  case False
  let ?obs = "filter (\<lambda>f. has_response_observer f (pr_index p)) filters"
  let ?p1 = "set_index (remove_all filters (pr_index p)) p"
  have "\<exists>out. send_unsubscribe (filter (\<lambda>f. f \<notin> set ?obs) filters) (pr_out ?p1) = (Inl e, out) \<and> p' = ?p1\<lparr>pr_out := out\<rparr>"
  proof (cases "filter (\<lambda>f. f \<notin> set ?obs) filters = []")
    case True
    then show ?thesis
      using b False by (auto simp: unsubscribe_begin_def ensure_alive_def Let_def apfst_def map_prod_def split: prod.splits)
  next
    case send: False
    then show ?thesis
      using b False by (auto simp: unsubscribe_begin_def ensure_alive_def Let_def split: prod.splits sum.splits)
  qed
  then obtain out where out: "send_unsubscribe (filter (\<lambda>f. f \<notin> set ?obs) filters) (pr_out ?p1) = (Inl e, out)"
    "p' = ?p1\<lparr>pr_out := out\<rparr>" by blast
  then have sp: "subscribed p' = subscribed p - set filters" "observed p' = observed p" "ob_dead (pr_out p') = ob_dead (pr_out p)"
    using dead_kept(2) [OF out(1)] by simp_all
  have "sub_inv (p', ops, B - (set filters - observed p))"
  proof (rule op_begins(2) [OF inv fr])
    show "agree (- set filters) p B p' (B - (set filters - observed p))" by (rule agreeI) (auto simp: sp)
    show "\<forall>f \<in> set filters. f \<in> B - (set filters - observed p) \<longleftrightarrow> f \<in> wanted p'"
      using free_wanted [OF inv fr False] by (auto simp: wanted_def sp)
  qed (simp add: sp)
  with False show ?thesis by simp
qed

lemma unobserve_fails_inv:
  assumes inv: "sub_inv (p, ops, B)" and fr: "free {topic} ops" and b: "unobserve_begin topic p = (Inl e, p')"
  shows "sub_inv (p', ops, B - {topic})"
proof -
  obtain old ix where ix: "remove_response_observer topic (pr_index p) = (old, ix)"
    by (cases "remove_response_observer topic (pr_index p)")
  then have i: "ix = snd (remove_response_observer topic (pr_index p))" by simp
  obtain out where out: "send_unsubscribe [topic] (pr_out p) = (Inl e, out)" "p' = (set_index ix p)\<lparr>pr_out := out\<rparr>"
    and sub: "\<not> index_contains topic ix"
    using b by (auto simp: unobserve_begin_def ix Let_def split: bool.splits if_splits prod.splits sum.splits)
  have sp: "subscribed p' = subscribed p" "observed p' = observed p - {topic}" "ob_dead (pr_out p') = ob_dead (pr_out p)"
    "topic \<notin> subscribed p"
    using dead_kept(2) [OF out(1)] sub by (auto simp: out(2) i subscribed_def observed_def)
  show ?thesis
    by (rule op_begins(2) [OF inv fr]) (auto simp: sp wanted_def intro!: agreeI)
qed

text \<open>
  Whatever the broker does with the filters in doubt, there is an ideal broker that follows every
  operation exactly and agrees with it on the other filters.
\<close>

definition doubt_inv :: "pystr set \<Rightarrow> sub_state \<Rightarrow> bool" where
  "doubt_inv U st \<longleftrightarrow> (case st of (p, ops, B) \<Rightarrow> \<exists>B0. sub_inv (p, ops, B0) \<and> B0 - U = B - U)"

lemma doubt_invI: "sub_inv (p, ops, B0) \<Longrightarrow> B0 - U = B - U \<Longrightarrow> doubt_inv U (p, ops, B)"
  by (auto simp: doubt_inv_def)

lemma doubt_invE:
  assumes "doubt_inv U (p, ops, B)" obtains B0 where "sub_inv (p, ops, B0)" and "B0 - U = B - U"
  using assms by (auto simp: doubt_inv_def)

lemma doubt_same:
  assumes "doubt_inv U (p, ops, B)" and "\<And>B0. sub_inv (p, ops, B0) \<Longrightarrow> sub_inv (p', ops', B0)"
  shows "doubt_inv U (p', ops', B)"
proof -
  from assms(1) obtain B0 where "sub_inv (p, ops, B0)" "B0 - U = B - U" by (rule doubt_invE)
  then show ?thesis by (intro doubt_invI [of p' ops' B0] assms(2))
qed

lemma doubt_add:
  assumes "doubt_inv U (p, ops, B)" and "\<And>B0. sub_inv (p, ops, B0) \<Longrightarrow> sub_inv (p', ops', B0 \<union> F)"
  shows "doubt_inv U (p', ops', B \<union> F)"
proof -
  from assms(1) obtain B0 where "sub_inv (p, ops, B0)" "B0 - U = B - U" by (rule doubt_invE)
  then show ?thesis by (intro doubt_invI [of p' ops' "B0 \<union> F"] assms(2)) auto
qed

lemma doubt_remove:
  assumes "doubt_inv U (p, ops, B)" and "\<And>B0. sub_inv (p, ops, B0) \<Longrightarrow> sub_inv (p', ops', B0 - F)"
  shows "doubt_inv U (p', ops', B - F)" and "F \<subseteq> U \<Longrightarrow> doubt_inv U (p', ops', B)"
proof -
  from assms(1) obtain B0 where "sub_inv (p, ops, B0)" "B0 - U = B - U" by (rule doubt_invE)
  then show "doubt_inv U (p', ops', B - F)" "F \<subseteq> U \<Longrightarrow> doubt_inv U (p', ops', B)"
    using assms(2) by (auto intro!: doubt_invI [of p' ops' "B0 - F"])
qed

lemma observers_restored_frame:
  assumes "observers_restored act ack p = Some (res, p')"
  shows "subscribed p' = subscribed p" "observed p' = observed p" "ob_dead (pr_out p') = ob_dead (pr_out p)"
  using assms by (auto simp: observers_restored_def split: option.splits prod.splits sum.splits if_splits dest: dead_kept)

lemma unsuback_failed_frame:
  assumes "unsuback_received act bf obs p = Some (Inl e, p')"
  shows "subscribed p' = subscribed p" "observed p' = observed p" "ob_dead (pr_out p') = ob_dead (pr_out p)"
  using assms by (auto simp: unsuback_received_def apfst_def map_prod_def split: option.splits prod.splits sum.splits dest: dead_kept)

lemma pstep_inv: "pstep U st st' \<Longrightarrow> doubt_inv U st \<Longrightarrow> doubt_inv U st'"
proof (induction rule: pstep.induct)
  case (subscribe reqs ops auto_ack queue ident ref p act es p' B)
  show ?case by (rule doubt_same [OF subscribe.prems]) (erule subscribe_step_inv(2) [OF _ subscribe.hyps refl])
next
  case (subscribe_fails reqs ops auto_ack queue ident ref p e p' B)
  show ?case by (rule doubt_same [OF subscribe_fails.prems]) (erule subscribe_step_inv(1) [OF _ subscribe_fails.hyps refl])
next
  case (subscribed act es p res p' as reqs bs B)
  show ?case by (rule doubt_add [OF subscribed.prems]) (erule subscribed_step_inv(1) [OF _ subscribed.hyps refl])
next
  case (rejected act es p e p' reqs as bs B)
  show ?case by (rule doubt_same [OF rejected.prems]) (erule subscribed_step_inv(2) [OF _ rejected.hyps(1) refl])
next
  case (subscribe_cut reqs p as act es bs B)
  show ?case by (rule doubt_same [OF subscribe_cut.prems], erule subscribe_undone_inv) (simp_all add: cut_spec)
next
  case (unsubscribe filters ops p stage p' B)
  show ?case by (rule doubt_same [OF unsubscribe.prems]) (erule unsubscribe_step_inv [OF _ unsubscribe.hyps])
next
  case (unsubscribe_fails filters ops p e p' B)
  show ?case
  proof (cases "ob_dead (pr_out p)")
    case True
    then have "p' = p" using unsubscribe_fails.hyps(2) by (simp add: unsubscribe_begin_def ensure_alive_def)
    then show ?thesis using unsubscribe_fails.prems by simp
  next
    case False
    show ?thesis
    proof (rule doubt_remove(2) [OF unsubscribe_fails.prems])
      show "set filters - observed p \<subseteq> U" using unsubscribe_fails.hyps(3) False by blast
      show "sub_inv (p', ops, B0 - (set filters - observed p))" if "sub_inv (p, ops, B0)" for B0
        using unsubscribe_fails_inv [OF that unsubscribe_fails.hyps(1,2)] False by simp
    qed
  qed
next
  case (unsuback act broker_filters observed p stage p' as filters bs B)
  show ?case by (rule doubt_remove(1) [OF unsuback.prems]) (erule unsuback_step_inv [OF _ unsuback.hyps])
next
  case (unsuback_fails act broker_filters observed p e p' as filters bs B)
  show ?case
    by (rule doubt_remove(2) [OF unsuback_fails.prems _ unsuback_fails.hyps(2)], erule unsubscribe_cut_inv)
      (rule unsuback_failed_frame [OF unsuback_fails.hyps(1)])+
next
  case (unsuback_cut broker_filters p as filters act observed bs B)
  show ?case
    by (rule doubt_remove(2) [OF unsuback_cut.prems _ unsuback_cut.hyps], erule unsubscribe_cut_inv)
      (simp_all add: cut_spec)
next
  case (restored act ack p stage p' as filters bs B)
  note sp = observers_restored_spec [OF restored.hyps]
  show ?case
  proof (rule doubt_same [OF restored.prems])
    fix B0
    assume inv: "sub_inv (p, as @ Unsubscribes filters (AwaitSuback act ack) # bs, B0)"
    show "sub_inv (p', as @ Unsubscribes filters stage # bs, B0)"
      by (rule op_proceeds(1) [OF inv held.simps(2)])
        (use sub_invD(1) [OF inv, of "Unsubscribes filters (AwaitSuback act ack)"] in
          \<open>auto simp: sp agree_def wanted_def\<close>)
  qed
next
  case (restore_fails act ack p e p' as filters bs B)
  show ?case
    by (rule doubt_same [OF restore_fails.prems], erule restore_cut_inv)
      (rule observers_restored_frame [OF restore_fails.hyps])+
next
  case (restore_cut p as filters act ack bs B)
  show ?case by (rule doubt_same [OF restore_cut.prems], erule restore_cut_inv) (simp_all add: cut_spec)
next
  case (unsubscribed p as filters ack bs B)
  show ?case
  proof (rule doubt_same [OF unsubscribed.prems])
    fix B0
    assume inv: "sub_inv (p, as @ Unsubscribes filters (Unsubscribed ack) # bs, B0)"
    show "sub_inv (p, as @ bs, B0)"
      by (rule op_proceeds(2) [OF inv held.simps(2)])
        (use sub_invD(1) [OF inv, of "Unsubscribes filters (Unsubscribed ack)"] in \<open>auto simp: agree_def\<close>)
  qed
next
  case (observe topic ops p act p' B)
  show ?case by (rule doubt_same [OF observe.prems]) (erule observe_step_inv(1) [OF _ observe.hyps refl])
next
  case (observe_over topic ops p res p' B)
  show ?case by (rule doubt_same [OF observe_over.prems]) (erule observe_step_inv(2) [OF _ observe_over.hyps])
next
  case (observed topic act p p' as bs B)
  have "doubt_inv U (p', as @ bs, B \<union> {topic})"
    by (rule doubt_add [OF observed.prems]) (use observed_step_inv(1) [OF _ observed.hyps] in simp)
  then show ?case by simp
next
  case (observe_rejected topic act p e p' as bs B)
  show ?case by (rule doubt_same [OF observe_rejected.prems]) (erule observed_step_inv(2) [OF _ observe_rejected.hyps(1) refl])
next
  case (observe_cut topic p as act bs B)
  show ?case by (rule doubt_same [OF observe_cut.prems], erule observe_cut_inv) (simp_all add: cut_spec)
next
  case (unobserve topic ops p act p' B)
  show ?case by (rule doubt_same [OF unobserve.prems]) (erule unobserve_step_inv(1) [OF _ unobserve.hyps refl])
next
  case (unobserve_over topic ops p p' B)
  show ?case by (rule doubt_same [OF unobserve_over.prems]) (erule unobserve_step_inv(2) [OF _ unobserve_over.hyps refl])
next
  case (unobserve_fails topic ops p e p' B)
  show ?case
    by (rule doubt_remove(2) [OF unobserve_fails.prems, of _ _ "{topic}"])
      (erule unobserve_fails_inv [OF _ unobserve_fails.hyps(1,2)], use unobserve_fails.hyps(3) in simp)
next
  case (unobserved act p p' as topic bs B)
  show ?case by (rule doubt_remove(1) [OF unobserved.prems]) (erule unobserved_step_inv [OF _ unobserved.hyps])
next
  case (unobserved_fails act p e p' topic as bs B)
  show ?case
    by (rule doubt_remove(2) [OF unobserved_fails.prems, of _ _ "{topic}"])
      (erule unobserved_step_inv [OF _ unobserved_fails.hyps(1)], use unobserved_fails.hyps(2) in simp)
next
  case (unobserve_cut topic p as act bs B)
  show ?case
  proof (rule doubt_remove(2) [OF unobserve_cut.prems])
    show "sub_inv (unsubscribe_cut act p, as @ bs, B0 - {topic})" if "sub_inv (p, as @ Unobserves topic act # bs, B0)" for B0
      using that by (rule unobserve_cut_inv) (simp_all add: cut_spec)
  qed (use unobserve_cut.hyps in simp)
next
  case (doubt B' B p ops)
  then show ?case by (auto elim!: doubt_invE intro: doubt_invI)
next
  case (detach filters p ds p' ops B)
  show ?case
    by (rule doubt_same [OF detach.prems], erule same_inv)
      (use detach_spec [OF detach.hyps] in \<open>simp_all add: subscribed_def observed_def\<close>)
next
  case (elsewhere p' p ops B)
  show ?case
    by (rule doubt_same [OF elsewhere.prems], erule same_inv)
      (use elsewhere.hyps in \<open>simp_all add: subscribed_def observed_def\<close>)
next
  case (lost p p' as op bs B)
  show ?case by (rule doubt_same [OF lost.prems]) (use lost.hyps in \<open>simp add: sub_inv_def apart_mid\<close>)
qed

interpretation subscribing_run: step_invariant "pstep U" "doubt_inv U" for U
  by unfold_locales (rule pstep_inv)

lemmas psteps_inv = subscribing_run.steps_kept

section \<open>Entries\<close>

lemma index_get_add [simp]: "index_get f (index_add g e ix) = (if f = g then Some e else index_get f ix)"
  by (auto simp: index_get_def index_add_def index_remove_def Let_def AList.update_conv' AList.delete_conv' split: option.splits)

lemma index_get_remove [simp]: "index_get f (snd (index_remove g ix)) = (if f = g then None else index_get f ix)"
  by (auto simp: index_get_def index_remove_def AList.delete_conv' split: option.splits)

lemma index_get_add_other: "f \<notin> fst ` set es \<Longrightarrow> index_get f (index_add_many es ix) = index_get f ix"
  by (induction es arbitrary: ix) (simp_all add: index_add_many_simps)

lemma index_get_added: "f \<in> fst ` set es \<Longrightarrow> \<exists>e. (f, e) \<in> set es \<and> index_get f (index_add_many es ix) = Some e"
proof (induction es arbitrary: ix)
  case (Cons x es)
  show ?case
  proof (cases "f \<in> fst ` set es")
    case True
    then show ?thesis using Cons.IH by (auto simp: index_add_many_simps)
  next
    case False
    then have "f = fst x" using Cons.prems by auto
    with False show ?thesis by (cases x) (auto simp: index_add_many_simps index_get_add_other)
  qed
qed simp

lemma index_get_remove_all [simp]: "index_get f (remove_all fs ix) = (if f \<in> set fs then None else index_get f ix)"
  by (induction fs arbitrary: ix) (auto simp: remove_all_def)

definition entry_for :: "pystr \<Rightarrow> bool \<Rightarrow> nat \<Rightarrow> int option \<Rightarrow> protocol \<Rightarrow> SubscriptionEntry \<Rightarrow> bool" where
  "entry_for f auto_ack queue ident p e \<longleftrightarrow> se_queue e = queue \<and> se_auto_ack e = auto_ack
     \<and> se_actual_filter e = shared_filter_to_actual f (pr_stripped_prefixes p) \<and> se_subscription_identifier e = ident"

lemma new_entries_for:
  assumes "\<forall>(f, e) \<in> set es. entry_for f auto_ack queue ident p e"
  shows "\<forall>(f, e) \<in> set (new_entries reqs auto_ack queue ident ref p es). entry_for f auto_ack queue ident p e"
  using assms
proof (induction reqs arbitrary: ref es)
  case (Cons req reqs)
  let ?f = "sr_topic_filter req"
  let ?e = "\<lparr>se_ref = ref, se_queue = queue, se_auto_ack = auto_ack,
    se_actual_filter = shared_filter_to_actual ?f (pr_stripped_prefixes p), se_subscription_identifier = ident\<rparr> :: SubscriptionEntry"
  have "\<forall>(f, e) \<in> set (AList.update ?f ?e es). entry_for f auto_ack queue ident p e"
    using Cons.prems by (auto simp: entry_for_def dest!: set_AList_update)
  then show ?case using Cons.IH Cons.prems by (auto simp: Let_def)
qed simp

lemma subscribe_sends:
  assumes "send_subscribe reqs ident s = (Inr act, s')"
  shows "\<exists>pid. ob_sent s' = ob_sent s @ [Subscribe \<lparr>sub_packet_id = pid, sub_subscriptions = reqs,
    sub_properties = subscribe_properties ident\<rparr>]"
  using assms
  by (auto simp: send_subscribe_def ensure_alive_def create_future_def Let_def send_def
      split: if_splits prod.splits sum.splits dest!: acquired_frame)

lemma finally_sends [simp]: "ob_sent (activity_finally act s) = ob_sent s"
  by (simp add: activity_finally_def sub_finally_def unsub_finally_def release_id_def split: operation.split)

lemma finish_sends: "finish act s = Some (res, s') \<Longrightarrow> ob_sent s' = ob_sent s"
  by (drule finish_state) (auto simp: activity_finally_def sub_finally_def unsub_finally_def release_id_def split: operation.splits)

section \<open>Properties\<close>

text \<open>
  C7: the broker holds what is wanted here.  Under every interleaving of subscribes, unsubscribes and
  response observers that hold their filters exclusively, on a connection that began without
  subscriptions and is not lost, each answer being the broker's to the operation that gets it: a
  filter that no operation under way holds is subscribed at the broker exactly when the application
  has an entry for it or a pending request observes it.  Excepted are the filters \<open>U\<close> in doubt: those of
  operations that were cancelled or raised at a write, of unsubscribes that failed here after removing
  the entry (no packet id, encoding), and those a broker refused only in part or would not unsubscribe.
\<close>

theorem broker_follows_interest:
  assumes "(pstep U)\<^sup>*\<^sup>* (MQTTProtocol_init k v stripped router bufsize rmax limit maxsize, [], {}) (p, ops, B)"
    and "\<not> ob_dead (pr_out p)" and "f \<notin> busy ops" and "f \<notin> U"
  shows "f \<in> B \<longleftrightarrow> index_contains f (pr_index p) \<or> has_response_observer f (pr_index p)"
proof -
  let ?p = "MQTTProtocol_init k v stripped router bufsize rmax limit maxsize"
  have "subscribed ?p = {}" "observed ?p = {}"
    by (simp_all add: subscribed_def observed_def MQTTProtocol_init_def inbound_init_def SubscriptionIndex_init_def
        index_contains_def has_response_observer_def)
  then have "sub_inv (?p, [], {})" by (simp add: sub_inv_def wanted_def)
  then have "doubt_inv U (?p, [], {})" by (rule doubt_invI) simp
  from psteps_inv [OF assms(1) this] obtain B0 where "sub_inv (p, ops, B0)" "B0 - U = B - U" by (rule doubt_invE)
  with sub_invD(2) [OF _ assms(2,3)] assms(4) show ?thesis
    by (auto simp: wanted_def subscribed_def observed_def)
qed

definition example_request :: SubscriptionRequest where
  "example_request = observer_request (str_lit ''a'')"

lemma example_subscribe:
  obtains es p1 where "subscribe_begin [example_request] True 0 None 0 example_protocol = (Inr (Subscribing 1 0 [example_request], es), p1)"
    and "ob_futures (pr_out p1) 0 = Waiting" "\<not> ob_dead (pr_out p1)" "ob_pending_subs (pr_out p1) = [(1, 0)]"
proof -
  let ?e = "\<lparr>se_ref = 0, se_queue = 0, se_auto_ack = True, se_actual_filter = shared_filter_to_actual (str_lit ''a'') [],
    se_subscription_identifier = None\<rparr> :: SubscriptionEntry"
  have enc: "encode (Subscribe \<lparr>sub_packet_id = 1, sub_subscriptions = [example_request], sub_properties = None\<rparr>) V311
      = Inr [0x82, 6, 0, 1, 0, 1, 97, 0]" by code_simp
  have new: "new_entries [example_request] True 0 None 0 example_protocol [] = [(str_lit ''a'', ?e)]"
    by (simp add: example_request_def observer_request_def example_protocol_def MQTTProtocol_init_def inbound_init_def
        SubscriptionIndex_init_def index_get_def Let_def)
  have "\<exists>p1. subscribe_begin [example_request] True 0 None 0 example_protocol
        = (Inr (Subscribing 1 0 [example_request], [(str_lit ''a'', ?e)]), p1)
      \<and> ob_futures (pr_out p1) 0 = Waiting \<and> \<not> ob_dead (pr_out p1) \<and> ob_pending_subs (pr_out p1) = [(1, 0)]"
    using enc unfolding subscribe_begin_def new Let_def
    by (simp add: example_protocol_def MQTTProtocol_init_def send_subscribe_def ensure_alive_def outbound_init_def
        acquire_id_def acquire_first create_future_def send_def Let_def subscribe_properties_def)
  then show ?thesis using that by blast
qed

theorem broker_follows_interest_witness:
  "\<exists>p. (pstep {str_lit ''b''})\<^sup>*\<^sup>* (example_protocol, [], {}) (p, [], {str_lit ''a''})
     \<and> (index_contains (str_lit ''a'') (pr_index p) \<or> has_response_observer (str_lit ''a'') (pr_index p))"
proof (rule example_subscribe)
  let ?U = "{str_lit ''b''}"
  let ?act = "Subscribing 1 0 [example_request]"
  let ?ack = "\<lparr>sback_packet_id = 1, sback_return_codes = [0], sback_properties = None\<rparr> :: SubAck"
  fix es p1
  assume b: "subscribe_begin [example_request] True 0 None 0 example_protocol = (Inr (?act, es), p1)"
    and w: "ob_futures (pr_out p1) 0 = Waiting" and alive: "\<not> ob_dead (pr_out p1)" and pend: "ob_pending_subs (pr_out p1) = [(1, 0)]"
  define p2 where "p2 = snd (dispatch (SubAck ?ack) p1)"
  have p2: "pr_index p2 = pr_index p1" "\<not> ob_dead (pr_out p2)" "ob_futures (pr_out p2) 0 = Answered (SubAck ?ack)"
    using w alive pend by (simp_all add: p2_def dispatch_def dispatch_outbound_def handle_suback_def set_result_def)
  obtain res p3 where e: "subscribe_end ?act es p2 = Some (Inr res, p3)"
    using p2(3) by (auto simp: subscribe_end_def finish_def await_reply_def check_reply_def raise_on_rejected_filters_def
        rejected_filters_def Let_def)
  have s1: "pstep ?U (example_protocol, [], {}) (p1, [Subscribes [example_request] ?act es], {})"
    by (rule pstep.subscribe [OF _ b]) (simp add: free_def)
  have s2: "pstep ?U (p1, [Subscribes [example_request] ?act es], {}) (p2, [Subscribes [example_request] ?act es], {})"
    by (rule pstep.elsewhere) (use p2 alive in simp_all)
  have s3: "pstep ?U (p2, [Subscribes [example_request] ?act es], {}) (p3, [], {str_lit ''a''})"
    using pstep.subscribed [OF e, of ?U "[]" "[example_request]" "[]" "{}"] by (simp add: example_request_def observer_request_def)
  have run: "(pstep ?U)\<^sup>*\<^sup>* (example_protocol, [], {}) (p3, [], {str_lit ''a''})"
    using s1 s2 s3 by (meson converse_rtranclp_into_rtranclp r_into_rtranclp)
  have "\<not> ob_dead (pr_out p3)" using subscribe_end_spec(2) [OF e] p2(2) by simp
  from broker_follows_interest [OF run [unfolded example_protocol_def] this, of "str_lit ''a''"] run show ?thesis by (auto simp: str_lit_def)
qed

lemma subscribe_atomic_parts:
  assumes "subscribe_begin reqs auto_ack queue ident ref p = (Inr (act, es), p1)"
  shows "index_get f (pr_index p) = Some e \<Longrightarrow> index_get f (pr_index p1) = Some e \<and> f \<notin> fst ` set es"
    and "f \<in> sr_topic_filter ` set reqs \<Longrightarrow> index_get f (pr_index p) = None \<Longrightarrow>
      f \<in> fst ` set es \<and> (\<exists>e. index_get f (pr_index p1) = Some e \<and> entry_for f auto_ack queue ident p e)"
    and "\<exists>pid. ob_sent (pr_out p1) = ob_sent (pr_out p) @ [Subscribe \<lparr>sub_packet_id = pid, sub_subscriptions = reqs,
      sub_properties = subscribe_properties ident\<rparr>]"
    and "subscribe_end act es p2 = Some (Inl err, p3) \<or> p3 = subscribe_cut act es p2 \<Longrightarrow>
      index_get f (pr_index p3) = (if f \<in> fst ` set es then None else index_get f (pr_index p2))
      \<and> ob_sent (pr_out p3) = ob_sent (pr_out p2)"
proof -
  have es: "es = new_entries reqs auto_ack queue ident ref p []" and ix: "pr_index p1 = index_add_many es (pr_index p)"
    and send: "send_subscribe reqs ident (pr_out p) = (Inr act, pr_out p1)"
    using assms by (auto simp: subscribe_begin_def Let_def split: prod.splits sum.splits)
  have keys: "fst ` set es = {f \<in> sr_topic_filter ` set reqs. index_get f (pr_index p) = None}"
    using new_entries_keys [of reqs auto_ack queue ident ref p "[]"]
    by (auto simp: es subscribed_def index_contains_def index_get_def)
  show "index_get f (pr_index p1) = Some e \<and> f \<notin> fst ` set es" if "index_get f (pr_index p) = Some e"
    using that index_get_add_other [of f es "pr_index p"] by (simp add: ix keys)
  show "f \<in> fst ` set es \<and> (\<exists>e. index_get f (pr_index p1) = Some e \<and> entry_for f auto_ack queue ident p e)"
    if "f \<in> sr_topic_filter ` set reqs" "index_get f (pr_index p) = None"
  proof -
    have f: "f \<in> fst ` set es" using that by (simp add: keys)
    from index_get_added [OF this, of "pr_index p"] obtain e where
      "(f, e) \<in> set es" "index_get f (pr_index p1) = Some e" by (auto simp: ix)
    then show ?thesis using new_entries_for [of "[]" auto_ack queue ident p reqs ref] f by (auto simp: es)
  qed
  show "\<exists>pid. ob_sent (pr_out p1) = ob_sent (pr_out p) @ [Subscribe \<lparr>sub_packet_id = pid, sub_subscriptions = reqs,
      sub_properties = subscribe_properties ident\<rparr>]"
    using subscribe_sends [OF send] .
  show "index_get f (pr_index p3) = (if f \<in> fst ` set es then None else index_get f (pr_index p2))
      \<and> ob_sent (pr_out p3) = ob_sent (pr_out p2)" if fails: "subscribe_end act es p2 = Some (Inl err, p3) \<or> p3 = subscribe_cut act es p2"
  proof -
    obtain out where "ob_sent out = ob_sent (pr_out p2)" "p3 = rollback es (p2\<lparr>pr_out := out\<rparr>)"
      using fails
    proof
      assume "subscribe_end act es p2 = Some (Inl err, p3)"
      then obtain e out where "finish act (pr_out p2) = Some (e, out)" "p3 = rollback es (p2\<lparr>pr_out := out\<rparr>)"
        by (auto simp: subscribe_end_def split: option.splits prod.splits sum.splits)
      then show thesis using that finish_sends by blast
    next
      assume "p3 = subscribe_cut act es p2"
      then show thesis using that [of "activity_finally act (pr_out p2)"] by (simp add: subscribe_cut_def)
    qed
    then show ?thesis by (auto simp: rollback_def)
  qed
qed

text \<open>A subscribe that fails before anything is sent.\<close>

lemma subscribe_unsent:
  assumes "subscribe_begin reqs auto_ack queue ident ref p = (Inl err, p1)"
  shows "index_get f (pr_index p1) = index_get f (pr_index p)" and "ob_sent (pr_out p1) = ob_sent (pr_out p)"
proof -
  define es where "es = new_entries reqs auto_ack queue ident ref p []"
  obtain out where out: "send_subscribe reqs ident (pr_out p) = (Inl err, out)"
    and p1: "p1 = rollback es ((set_index (index_add_many es (pr_index p)) p)\<lparr>pr_out := out\<rparr>)"
    using assms by (auto simp: subscribe_begin_def es_def Let_def split: prod.splits sum.splits)
  have keys: "fst ` set es = {f \<in> sr_topic_filter ` set reqs. index_get f (pr_index p) = None}"
    using new_entries_keys [of reqs auto_ack queue ident ref p "[]"]
    by (auto simp: es_def subscribed_def index_contains_def index_get_def)
  show "index_get f (pr_index p1) = index_get f (pr_index p)"
  proof (cases "f \<in> fst ` set es")
    case True
    then show ?thesis using keys by (auto simp: p1 rollback_def)
  next
    case False
    then show ?thesis using index_get_add_other [of f es "pr_index p"] by (auto simp: p1 rollback_def)
  qed
  have "ob_sent out = ob_sent (pr_out p)"
    using out by (auto simp: send_subscribe_def ensure_alive_def create_future_def Let_def send_def sub_finally_def
        release_id_def acquire_id_def split: if_splits prod.splits sum.splits option.splits)
  then show "ob_sent (pr_out p1) = ob_sent (pr_out p)" by (simp add: p1)
qed

text \<open>
  C8: a subscribe takes effect as a whole.  When it cannot send its SUBSCRIBE at all (the connection is
  lost, no packet id is free, the packet cannot be encoded) every filter has the entry it had, or none,
  and nothing is sent.  Otherwise, before its SUBSCRIBE, which names every requested filter, is sent,
  each filter that had no entry has one with the new queue and options, and entries that existed are
  left alone; and when the operation then fails, whether the broker refuses a filter, the connection is
  lost, the write raises or the task is cancelled, and whatever happened in between, exactly the entries
  it made are gone again and it sends nothing more.
\<close>

theorem subscribe_atomic:
  assumes "subscribe_begin reqs auto_ack queue ident ref p = (res, p1)"
  shows "case res of
      Inl err \<Rightarrow> index_get f (pr_index p1) = index_get f (pr_index p) \<and> ob_sent (pr_out p1) = ob_sent (pr_out p)
    | Inr (act, es) \<Rightarrow>
        (\<forall>e. index_get f (pr_index p) = Some e \<longrightarrow> index_get f (pr_index p1) = Some e \<and> f \<notin> fst ` set es)
      \<and> (f \<in> sr_topic_filter ` set reqs \<longrightarrow> index_get f (pr_index p) = None \<longrightarrow>
           f \<in> fst ` set es \<and> (\<exists>e. index_get f (pr_index p1) = Some e \<and> entry_for f auto_ack queue ident p e))
      \<and> (\<exists>pid. ob_sent (pr_out p1) = ob_sent (pr_out p) @ [Subscribe \<lparr>sub_packet_id = pid, sub_subscriptions = reqs,
           sub_properties = subscribe_properties ident\<rparr>])
      \<and> (\<forall>p2 p3 err. subscribe_end act es p2 = Some (Inl err, p3) \<or> p3 = subscribe_cut act es p2 \<longrightarrow>
           index_get f (pr_index p3) = (if f \<in> fst ` set es then None else index_get f (pr_index p2))
           \<and> ob_sent (pr_out p3) = ob_sent (pr_out p2))"
proof (cases res)
  case (Inl err)
  then show ?thesis using subscribe_unsent assms by auto
next
  case (Inr x)
  obtain act es where x: "x = (act, es)" by (cases x)
  then have b: "subscribe_begin reqs auto_ack queue ident ref p = (Inr (act, es), p1)" using assms Inr by simp
  note parts = subscribe_atomic_parts [OF b]
  have "\<forall>e. index_get f (pr_index p) = Some e \<longrightarrow> index_get f (pr_index p1) = Some e \<and> f \<notin> fst ` set es"
    using parts(1) by blast
  moreover have "f \<in> sr_topic_filter ` set reqs \<longrightarrow> index_get f (pr_index p) = None \<longrightarrow>
      f \<in> fst ` set es \<and> (\<exists>e. index_get f (pr_index p1) = Some e \<and> entry_for f auto_ack queue ident p e)"
    using parts(2) by blast
  moreover have "\<forall>p2 p3 err. subscribe_end act es p2 = Some (Inl err, p3) \<or> p3 = subscribe_cut act es p2 \<longrightarrow>
      index_get f (pr_index p3) = (if f \<in> fst ` set es then None else index_get f (pr_index p2))
      \<and> ob_sent (pr_out p3) = ob_sent (pr_out p2)"
    using parts(4) by blast
  ultimately show ?thesis unfolding Inr x sum.case prod.case using parts(3) by blast
qed

theorem subscribe_atomic_witness:
  "\<exists>es p1. subscribe_begin [example_request] True 0 None 0 example_protocol = (Inr (Subscribing 1 0 [example_request], es), p1)
     \<and> (\<exists>e. index_get (str_lit ''a'') (pr_index p1) = Some e \<and> se_queue e = 0)"
proof (rule example_subscribe)
  fix es p1
  assume b: "subscribe_begin [example_request] True 0 None 0 example_protocol = (Inr (Subscribing 1 0 [example_request], es), p1)"
  have "str_lit ''a'' \<in> sr_topic_filter ` set [example_request]" "index_get (str_lit ''a'') (pr_index example_protocol) = None"
    by (simp_all add: example_request_def observer_request_def example_protocol_def MQTTProtocol_init_def inbound_init_def
        SubscriptionIndex_init_def index_get_def)
  from subscribe_atomic [OF b, of "str_lit ''a''"] this b show ?thesis by (auto simp: entry_for_def)
qed

end
