(* ===== verification/Protocol_Run.thy ===== *)
theory Protocol_Run
  imports Protocol Complex_Main
begin

text \<open>
  \<open>MQTTProtocol.run\<close> and \<open>_ping_loop\<close> (\<open>protocol.py\<close>): the read loop and the ping loop as two tasks that
  \<open>asyncio.gather\<close> waits for, their end, and time, which the keepalive is about.

  \<open>run_step\<close> interleaves the two tasks with the other tasks of the program and with time.  Times are
  seconds of the event loop's clock.  A timer goes off at its time and a step that is ready is taken
  before time goes on: the bounds are those of an event loop that is never late.
\<close>

section \<open>State\<close>

text \<open>The ping loop: asleep until a time, in the write of a PINGREQ or awaiting its answer, each with the
  future of the ping and the time to give up, or at its end.\<close>

datatype ping_task =
    Asleep real | Writing nat real | Awaiting nat real | Ping_Returned | Ping_Raised mqtt_error

text \<open>
  The outcome of \<open>run\<close>; \<open>Run_Raised None\<close> is the \<open>BufferError\<close> that the read loop never raises.  In between the
  two tasks are cancelled and waited for.
\<close>

datatype run_outcome = Run_Returned | Run_Raised "mqtt_error option" | Run_Cancelled

datatype run_phase = Gathering | Closing run_outcome | Ended run_outcome

text \<open>
  \<open>rn_heard\<close> is when the ping loop last got an answer, \<open>rn_pings\<close> when it sent its PINGREQs, after the
  moment it started; they are kept for the statements only.
\<close>

record run_state =
  rn_protocol :: protocol
  rn_read :: loop_end
  rn_ping :: ping_task
  rn_phase :: run_phase
  rn_now :: real
  rn_heard :: real
  rn_pings :: "real list"

abbreviation rn_out :: "run_state \<Rightarrow> outbound" where
  "rn_out s \<equiv> pr_out (rn_protocol s)"

definition keepalive_of :: "run_state \<Rightarrow> real" where
  "keepalive_of s = real_of_int (pr_effective_keepalive (rn_protocol s))"

definition DRAIN_TIMEOUT_SECONDS :: real where "DRAIN_TIMEOUT_SECONDS = 30"

section \<open>The ping loop\<close>

definition ping_loop_begin :: "real \<Rightarrow> protocol \<Rightarrow> ping_task" where
  "ping_loop_begin now p =
     (if pr_effective_keepalive p = 0 then Ping_Returned
      else Asleep (now + real_of_int (pr_effective_keepalive p)))"

text \<open>The sleep is over: \<open>ping\<close> up to the write.\<close>

definition ping_send :: "run_state \<Rightarrow> run_state" where
  "ping_send s =
     (case ping (rn_out s) of (res, out) \<Rightarrow>
        s\<lparr>rn_protocol := (rn_protocol s)\<lparr>pr_out := out\<rparr>,
          rn_ping := (case res of
              Inl e \<Rightarrow> Ping_Raised e
            | Inr act \<Rightarrow> Writing (activity_future act) (rn_now s + DRAIN_TIMEOUT_SECONDS)),
          rn_pings := rn_pings s @ [rn_now s]\<rparr>)"

text \<open>The write is over, one way or the other.\<close>

definition ping_written :: "real \<Rightarrow> nat \<Rightarrow> stream_write \<Rightarrow> run_state \<Rightarrow> run_state" where
  "ping_written ping_timeout_s f r s =
     (case transport_write r (pr_transport (rn_protocol s)) of (err, t) \<Rightarrow>
        s\<lparr>rn_protocol := (rn_protocol s)\<lparr>pr_transport := t\<rparr>,
          rn_ping := (case err of
              None \<Rightarrow> Awaiting f (rn_now s + ping_timeout_s)
            | Some e \<Rightarrow> Ping_Raised e)\<rparr>)"

text \<open>The future of the ping is done: the loop sleeps again, or raises what the future holds.\<close>

definition ping_answered :: "mqtt_error + packet \<Rightarrow> run_state \<Rightarrow> run_state" where
  "ping_answered res s =
     (case res of
        Inr packet \<Rightarrow> s\<lparr>rn_ping := Asleep (rn_now s + keepalive_of s), rn_heard := rn_now s\<rparr>
      | Inl e \<Rightarrow> s\<lparr>rn_ping := Ping_Raised e\<rparr>)"

definition ping_gives_up :: "nat \<Rightarrow> run_state \<Rightarrow> run_state" where
  "ping_gives_up f s =
     (case ping_timeout f (rn_out s) of (e, out) \<Rightarrow>
        s\<lparr>rn_protocol := (rn_protocol s)\<lparr>pr_out := out\<rparr>, rn_ping := Ping_Raised e\<rparr>)"

section \<open>The run\<close>

definition run_begin :: "real \<Rightarrow> protocol \<Rightarrow> run_state" where
  "run_begin now p =
     \<lparr>rn_protocol = p, rn_read = AwaitingRead, rn_ping = ping_loop_begin now p, rn_phase = Gathering,
      rn_now = now, rn_heard = now, rn_pings = [now]\<rparr>"

text \<open>
  What the read loop does with what it is given to read; and how it goes on when there is room for the
  message it was holding.
\<close>

definition read_on :: "stream_write \<Rightarrow> stream_read list \<Rightarrow> run_state \<Rightarrow> run_state" where
  "read_on w reads s =
     (case run_read_loop w reads (rn_protocol s) of (l, p) \<Rightarrow> s\<lparr>rn_protocol := p, rn_read := l\<rparr>)"

definition read_resumed ::
  "InboundRecipient \<Rightarrow> ack_callback option \<Rightarrow> int option \<Rightarrow> stream_write \<Rightarrow> run_state \<Rightarrow> run_state" where
  "read_resumed r cb puback w s =
     (let p = snd (run_inbound (Done, resume r cb puback (pr_in (rn_protocol s))) (rn_protocol s)) in
      case dispatch_buffered Running p of
        ((Some e, st), p') \<Rightarrow>
          (case reject_oversized e w p' of (e', p'') \<Rightarrow> s\<lparr>rn_protocol := p'', rn_read := LoopRaised e'\<rparr>)
      | ((None, st), p') \<Rightarrow>
          s\<lparr>rn_protocol := p',
            rn_read := (case st of PDone \<Rightarrow> AwaitingRead | PRaised e \<Rightarrow> LoopRaised e | PBlocked r cb a \<Rightarrow> LoopBlocked r cb a)\<rparr>)"

text \<open>\<open>gather\<close> raises with the first task that does, and returns when both have; none of it, it waits.\<close>

definition gathered :: "run_state \<Rightarrow> run_outcome list" where
  "gathered s =
     (case rn_read s of LoopRaised e \<Rightarrow> [Run_Raised (Some e)] | LoopBufferError \<Rightarrow> [Run_Raised None] | _ \<Rightarrow> [])
     @ (case rn_ping s of Ping_Raised e \<Rightarrow> [Run_Raised (Some e)] | _ \<Rightarrow> [])
     @ (if rn_read s = Returned \<and> rn_ping s = Ping_Returned then [Run_Returned] else [])"

fun cause_of :: "run_outcome \<Rightarrow> mqtt_error option" where
  "cause_of (Run_Raised e) = e"
| "cause_of Run_Returned = None"
| "cause_of Run_Cancelled = None"

definition run_closed :: "run_outcome \<Rightarrow> run_state \<Rightarrow> run_state" where
  "run_closed out s = s\<lparr>rn_protocol := run_finally (cause_of out) (rn_protocol s), rn_phase := Ended out\<rparr>"

text \<open>Time may go on to \<open>t\<close> when no timer goes off before and nothing is ready.\<close>

definition may_wait :: "real \<Rightarrow> run_state \<Rightarrow> bool" where
  "may_wait t s \<longleftrightarrow> rn_now s \<le> t \<and> rn_phase s = Gathering \<and> gathered s = []
     \<and> (case rn_ping s of
          Asleep wake \<Rightarrow> t \<le> wake
        | Writing f give_up \<Rightarrow> t \<le> give_up
        | Awaiting f give_up \<Rightarrow> t \<le> give_up \<and> await_reply f (rn_out s) = None
        | _ \<Rightarrow> True)"

text \<open>
  What the other tasks may do to the protocol: anything but what only a handshake does to the keepalive,
  and \<open>_disconnecting\<close> is never reset.  This is more than they do.
\<close>

definition left_alone :: "protocol \<Rightarrow> protocol \<Rightarrow> bool" where
  "left_alone p p' \<longleftrightarrow> pr_effective_keepalive p' = pr_effective_keepalive p
     \<and> (pr_disconnecting p \<longrightarrow> pr_disconnecting p')"

inductive run_step :: "real \<Rightarrow> run_state \<Rightarrow> run_state \<Rightarrow> bool" for ping_timeout_s where
  time: "may_wait t s \<Longrightarrow> run_step ping_timeout_s s (s\<lparr>rn_now := t\<rparr>)"
| send: "rn_phase s = Gathering \<Longrightarrow> rn_ping s = Asleep wake \<Longrightarrow> wake \<le> rn_now s \<Longrightarrow>
    run_step ping_timeout_s s (ping_send s)"
| written: "rn_phase s = Gathering \<Longrightarrow> rn_ping s = Writing f give_up \<Longrightarrow>
    (r = DrainTimeout \<longrightarrow> give_up \<le> rn_now s) \<Longrightarrow>
    run_step ping_timeout_s s (ping_written ping_timeout_s f r s)"
| answered: "rn_phase s = Gathering \<Longrightarrow> rn_ping s = Awaiting f give_up \<Longrightarrow> await_reply f (rn_out s) = Some res \<Longrightarrow>
    run_step ping_timeout_s s (ping_answered res s)"
| gives_up: "rn_phase s = Gathering \<Longrightarrow> rn_ping s = Awaiting f give_up \<Longrightarrow> await_reply f (rn_out s) = None \<Longrightarrow>
    give_up \<le> rn_now s \<Longrightarrow> run_step ping_timeout_s s (ping_gives_up f s)"
| reads: "rn_phase s = Gathering \<Longrightarrow> rn_read s = AwaitingRead \<Longrightarrow> run_step ping_timeout_s s (read_on w rs s)"
| resumed: "rn_phase s = Gathering \<Longrightarrow> rn_read s = LoopBlocked r cb puback \<Longrightarrow>
    (\<And>flt entry. ir_subscription r = Some (flt, entry) \<Longrightarrow> \<not> queue_full (se_queue entry) (pr_in (rn_protocol s))) \<Longrightarrow>
    run_step ping_timeout_s s (read_resumed r cb puback w s)"
| gather: "rn_phase s = Gathering \<Longrightarrow> out \<in> set (gathered s) \<Longrightarrow>
    run_step ping_timeout_s s (s\<lparr>rn_phase := Closing out\<rparr>)"
| cancelled: "rn_phase s = Gathering \<Longrightarrow> run_step ping_timeout_s s (s\<lparr>rn_phase := Closing Run_Cancelled\<rparr>)"
| closed: "rn_phase s = Closing out \<Longrightarrow> run_step ping_timeout_s s (run_closed out s)"
| others: "left_alone (rn_protocol s) p \<Longrightarrow> run_step ping_timeout_s s (s\<lparr>rn_protocol := p\<rparr>)"

section \<open>What the loops leave alone\<close>

lemma left_alone_refl [simp]: "left_alone p p"
  by (simp add: left_alone_def)

lemma left_alone_trans: "left_alone p q \<Longrightarrow> left_alone q r \<Longrightarrow> left_alone p r"
  by (auto simp: left_alone_def)

lemma left_alone_halves [simp]:
  "left_alone p (q\<lparr>pr_out := out\<rparr>) = left_alone p q" "left_alone p (q\<lparr>pr_in := w\<rparr>) = left_alone p q"
  "left_alone p (q\<lparr>pr_buf := b\<rparr>) = left_alone p q" "left_alone p (q\<lparr>pr_transport := t\<rparr>) = left_alone p q"
  "left_alone (p\<lparr>pr_out := out\<rparr>) q = left_alone p q" "left_alone (p\<lparr>pr_in := w\<rparr>) q = left_alone p q"
  "left_alone (p\<lparr>pr_buf := b\<rparr>) q = left_alone p q" "left_alone (p\<lparr>pr_transport := t\<rparr>) q = left_alone p q"
  by (simp_all add: left_alone_def)

lemma send_packet_alone: "left_alone p (snd (send_packet packet r p))"
  by (simp add: send_packet_def split: prod.split option.split)

lemma abort_alone: "left_alone p (abort reason r p)"
  by (auto simp: abort_def Let_def send_packet_alone split: option.split)

lemma inbound_effects_alone: "left_alone p (fold inbound_effect evs p)"
proof (induction evs arbitrary: p)
  case (Cons ev evs)
  have "left_alone p (inbound_effect ev p)"
    by (simp add: inbound_effect_def send_packet_alone abort_alone split: event.split)
  then show ?case using Cons left_alone_trans by fastforce
qed simp

lemma write_failed_alone: "left_alone p q \<Longrightarrow> left_alone p (write_failed st q)"
  by (simp add: write_failed_def left_alone_def)

lemma run_inbound_alone: "left_alone p (snd (run_inbound res p))"
  using write_failed_alone [OF inbound_effects_alone [of "p\<lparr>pr_in := snd res\<rparr>"]] by (cases res) (simp add: run_inbound_def)

lemma dispatch_alone: "left_alone p (snd (dispatch packet p))"
  by (cases packet) (simp_all add: dispatch_def run_inbound_alone split: prod.split option.split)

lemma dispatch_buffered_alone: "left_alone p (snd (dispatch_buffered g p))"
proof (induction g p rule: dispatch_buffered.induct)
  case (1 g p)
  obtain x g' b where n: "iter_next g (pr_buf p) = (x, g', b)" by (metis prod.exhaust)
  show ?case
  proof (cases x)
    case (Yield packet)
    obtain st p' where d: "dispatch packet (p\<lparr>pr_buf := b\<rparr>) = (st, p')" by (metis prod.exhaust)
    have "left_alone p p'" using dispatch_alone [of "p\<lparr>pr_buf := b\<rparr>" packet] d by simp
    moreover have "left_alone p' (snd (dispatch_buffered g' p'))" if "st = PDone"
      using "1.IH" n d Yield that by simp
    ultimately show ?thesis
      by (subst dispatch_buffered.simps) (auto simp: n d Yield split: pstatus.split intro: left_alone_trans)
  qed (subst dispatch_buffered.simps, simp add: n)+
qed

lemma reject_oversized_alone: "left_alone p (snd (reject_oversized e w p))"
  by (simp add: reject_oversized_def abort_alone split: py_error.split)

lemma run_read_loop_alone: "left_alone p (snd (run_read_loop w reads p))"
proof (induction reads arbitrary: p)
  case (Cons r reads)
  obtain e st p1 where d: "dispatch_buffered Fresh p = ((e, st), p1)" by (metis prod.exhaust)
  have p1: "left_alone p p1" using dispatch_buffered_alone [of p Fresh] d by simp
  obtain res t where read: "transport_read r (pr_transport p1) = (res, t)" by (metis prod.exhaust)
  have "left_alone p (snd (reject_oversized e' w p1))" for e'
    using left_alone_trans [OF p1 reject_oversized_alone] .
  moreover have "left_alone p (snd (run_read_loop w reads (p1\<lparr>pr_transport := t, pr_buf := b\<rparr>)))" for b
    using left_alone_trans [OF p1] Cons [of "p1\<lparr>pr_transport := t, pr_buf := b\<rparr>"] by simp
  ultimately show ?case
    using p1 by (subst run_read_loop.simps)
      (simp add: d read split: option.split pstatus.split sum.split prod.split_asm, simp add: prod.case_eq_if)
next
  case Nil
  obtain e st p1 where d: "dispatch_buffered Fresh p = ((e, st), p1)" by (metis prod.exhaust)
  have p1: "left_alone p p1" using dispatch_buffered_alone [of p Fresh] d by simp
  have "left_alone p (snd (reject_oversized e' w p1))" for e'
    using left_alone_trans [OF p1 reject_oversized_alone] .
  with p1 show ?case
    by (subst run_read_loop.simps) (simp add: d prod.case_eq_if split: option.split pstatus.split)
qed

text \<open>The read loop returns only after \<open>disconnect\<close>.\<close>

lemma run_read_loop_returned: "run_read_loop w reads p = (Returned, p') \<Longrightarrow> pr_disconnecting p'"
proof (induction reads arbitrary: p)
  case Nil
  then show ?case
    by (subst (asm) run_read_loop.simps) (auto split: prod.splits option.splits pstatus.splits)
next
  case (Cons r reads)
  from Cons.prems show ?case
    by (subst (asm) run_read_loop.simps)
      (auto split: prod.splits option.splits pstatus.splits sum.splits if_splits dest: Cons.IH)
qed

section \<open>Invariant\<close>

text \<open>
  Where the ping loop is in its round, by the time of its last PINGREQ and of the last answer; and what is
  known of the tasks that have returned.
\<close>

definition round_ok :: "real \<Rightarrow> real \<Rightarrow> run_state \<Rightarrow> bool" where
  "round_ok k ping_timeout_s s \<longleftrightarrow>
     (let sent = last (rn_pings s); heard = rn_heard s; now = rn_now s in
      case rn_ping s of
        Asleep wake \<Rightarrow> wake = heard + k \<and> now \<le> wake
          \<and> sent \<le> heard \<and> heard \<le> sent + DRAIN_TIMEOUT_SECONDS + ping_timeout_s
      | Writing f give_up \<Rightarrow> sent = heard + k \<and> sent \<le> now \<and> now \<le> give_up \<and> give_up = sent + DRAIN_TIMEOUT_SECONDS
      | Awaiting f give_up \<Rightarrow> sent = heard + k \<and> sent \<le> now \<and> now \<le> give_up
          \<and> give_up \<le> sent + DRAIN_TIMEOUT_SECONDS + ping_timeout_s
      | Ping_Returned \<Rightarrow> k = 0
      | Ping_Raised e \<Rightarrow> now \<le> heard + k + DRAIN_TIMEOUT_SECONDS + ping_timeout_s)"

definition gap_ok :: "real \<Rightarrow> real \<Rightarrow> real \<Rightarrow> real \<Rightarrow> bool" where
  "gap_ok k ping_timeout_s a b \<longleftrightarrow> a + k \<le> b \<and> b \<le> a + k + DRAIN_TIMEOUT_SECONDS + ping_timeout_s"

definition returned_ok :: "real \<Rightarrow> run_state \<Rightarrow> bool" where
  "returned_ok k s \<longleftrightarrow> (rn_read s = Returned \<longrightarrow> pr_disconnecting (rn_protocol s))
     \<and> (rn_ping s = Ping_Returned \<longrightarrow> k = 0)
     \<and> (rn_phase s \<in> {Closing Run_Returned, Ended Run_Returned} \<longrightarrow>
          k = 0 \<and> pr_disconnecting (rn_protocol s))"

definition run_inv :: "real \<Rightarrow> real \<Rightarrow> run_state \<Rightarrow> bool" where
  "run_inv k ping_timeout_s s \<longleftrightarrow> keepalive_of s = k \<and> rn_pings s \<noteq> []
     \<and> successively (gap_ok k ping_timeout_s) (rn_pings s)
     \<and> (rn_phase s = Gathering \<longrightarrow> round_ok k ping_timeout_s s) \<and> returned_ok k s"

lemma keepalive_of_simps [simp]:
  "keepalive_of (s\<lparr>rn_now := t\<rparr>) = keepalive_of s" "keepalive_of (s\<lparr>rn_phase := ph\<rparr>) = keepalive_of s"
  "keepalive_of (s\<lparr>rn_ping := pt\<rparr>) = keepalive_of s" "keepalive_of (s\<lparr>rn_heard := t\<rparr>) = keepalive_of s"
  "keepalive_of (s\<lparr>rn_pings := ts\<rparr>) = keepalive_of s" "keepalive_of (s\<lparr>rn_read := l\<rparr>) = keepalive_of s"
  "keepalive_of (s\<lparr>rn_protocol := p\<lparr>pr_out := out\<rparr>\<rparr>) = keepalive_of (s\<lparr>rn_protocol := p\<rparr>)"
  "keepalive_of (s\<lparr>rn_protocol := p\<lparr>pr_transport := tr\<rparr>\<rparr>) = keepalive_of (s\<lparr>rn_protocol := p\<rparr>)"
  by (simp_all add: keepalive_of_def)

lemma run_inv_loop:
  assumes "run_inv k T s" and "left_alone (rn_protocol s) p"
    and "l = Returned \<Longrightarrow> rn_read s = Returned \<or> pr_disconnecting p"
  shows "run_inv k T (s\<lparr>rn_protocol := p, rn_read := l\<rparr>)"
proof -
  have "keepalive_of (s\<lparr>rn_protocol := p\<rparr>) = keepalive_of s"
    using assms(2) by (simp add: keepalive_of_def left_alone_def)
  with assms show ?thesis
    by (auto simp: run_inv_def round_ok_def returned_ok_def left_alone_def Let_def)
qed

lemma run_inv_begin:
  assumes "k = real_of_int (pr_effective_keepalive p)" and "0 \<le> k" and "0 \<le> T"
  shows "run_inv k T (run_begin now p)"
  using assms
  by (auto simp: run_inv_def run_begin_def ping_loop_begin_def keepalive_of_def round_ok_def returned_ok_def
      DRAIN_TIMEOUT_SECONDS_def Let_def)

lemma run_inv_send:
  assumes inv: "run_inv k T s" and "rn_phase s = Gathering" and "rn_ping s = Asleep wake" and "wake \<le> rn_now s" and "0 \<le> T"
  shows "run_inv k T (ping_send s)"
proof -
  obtain res out where p: "ping (rn_out s) = (res, out)" by (metis prod.exhaust)
  have r: "rn_now s = rn_heard s + k" "last (rn_pings s) \<le> rn_heard s"
    "rn_heard s \<le> last (rn_pings s) + DRAIN_TIMEOUT_SECONDS + T"
    using assms by (simp_all add: run_inv_def round_ok_def Let_def)
  then have "gap_ok k T (last (rn_pings s)) (rn_now s)" by (simp add: gap_ok_def)
  then have "successively (gap_ok k T) (rn_pings s @ [rn_now s])"
    using inv by (simp add: run_inv_def successively_append_iff)
  moreover have "keepalive_of s = k" using inv by (simp add: run_inv_def)
  ultimately show ?thesis
    using assms r
    by (simp add: ping_send_def p run_inv_def round_ok_def returned_ok_def Let_def DRAIN_TIMEOUT_SECONDS_def keepalive_of_def
        split: sum.split)
qed

lemma run_inv_written:
  assumes "run_inv k T s" and "rn_phase s = Gathering" and "rn_ping s = Writing f give_up" and "0 \<le> T"
  shows "run_inv k T (ping_written T f r s)"
  using assms
  by (auto simp: ping_written_def run_inv_def round_ok_def returned_ok_def Let_def keepalive_of_def
      split: prod.split option.split)

lemma run_inv_answered:
  assumes "run_inv k T s" and "rn_phase s = Gathering" and "rn_ping s = Awaiting f give_up" and "0 \<le> k"
  shows "run_inv k T (ping_answered res s)" and "run_inv k T (ping_gives_up f s)"
proof -
  show "run_inv k T (ping_answered res s)"
    using assms by (auto simp: ping_answered_def run_inv_def round_ok_def returned_ok_def Let_def split: sum.split)
  show "run_inv k T (ping_gives_up f s)"
    using assms
    by (auto simp: ping_gives_up_def run_inv_def round_ok_def returned_ok_def Let_def keepalive_of_def split: prod.split)
qed

lemma read_resumed_inv:
  assumes "run_inv k T s" shows "run_inv k T (read_resumed r cb puback w s)"
proof -
  define p where "p = snd (run_inbound (Done, resume r cb puback (pr_in (rn_protocol s))) (rn_protocol s))"
  have p: "left_alone (rn_protocol s) p" unfolding p_def by (rule run_inbound_alone)
  obtain e st p' where d: "dispatch_buffered Running p = ((e, st), p')" by (metis prod.exhaust)
  have p': "left_alone (rn_protocol s) p'" using left_alone_trans [OF p] dispatch_buffered_alone [of p Running] d by simp
  then have "left_alone (rn_protocol s) (snd (reject_oversized e' w p'))" for e'
    using reject_oversized_alone left_alone_trans by blast
  with p' show ?thesis
    unfolding read_resumed_def Let_def p_def [symmetric] d
    by (auto simp: prod.case_eq_if split: option.split pstatus.split intro!: run_inv_loop assms)
qed

lemma run_inv_phase:
  assumes "run_inv k T s" and "ph \<noteq> Gathering" and "ph \<noteq> Ended Run_Returned"
    and "ph = Closing Run_Returned \<Longrightarrow> Run_Returned \<in> set (gathered s)"
  shows "run_inv k T (s\<lparr>rn_phase := ph\<rparr>)"
  using assms
  by (auto simp: run_inv_def returned_ok_def gathered_def split: if_splits loop_end.splits ping_task.splits)

lemma run_step_inv:
  assumes "run_step T s s'" and "run_inv k T s" and "0 \<le> k" and "0 \<le> T"
  shows "run_inv k T s'"
  using assms(1)
proof cases
  case (time t)
  with assms(2) show ?thesis
    by (auto simp: run_inv_def round_ok_def returned_ok_def may_wait_def gathered_def Let_def split: ping_task.splits)
next
  case (send wake)
  with assms(2,4) show ?thesis by (simp add: run_inv_send)
next
  case (written f give_up r)
  with assms(2,4) show ?thesis by (simp add: run_inv_written)
next
  case (answered f give_up res)
  with assms(2,3) show ?thesis by (simp add: run_inv_answered)
next
  case (gives_up f give_up)
  with assms(2,3) show ?thesis by (simp add: run_inv_answered)
next
  case (reads w rs)
  obtain l p where l: "run_read_loop w rs (rn_protocol s) = (l, p)" by (metis prod.exhaust)
  then have "left_alone (rn_protocol s) p" using run_read_loop_alone [of "rn_protocol s" w rs] by simp
  with l reads assms(2) show ?thesis
    using run_read_loop_returned by (auto simp: read_on_def intro!: run_inv_loop)
next
  case (resumed r cb puback w)
  with assms(2) show ?thesis by (simp add: read_resumed_inv)
next
  case (gather out)
  with assms(2) show ?thesis by (auto intro: run_inv_phase)
next
  case cancelled
  with assms(2) show ?thesis by (auto intro: run_inv_phase)
next
  case (closed out)
  have "left_alone (rn_protocol s) (run_finally (cause_of out) (rn_protocol s))" by (simp add: run_finally_def)
  with closed assms(2) show ?thesis
    by (auto simp: run_closed_def run_inv_def returned_ok_def left_alone_def keepalive_of_def)
next
  case (others p)
  with run_inv_loop [OF assms(2), of p "rn_read s"] show ?thesis by simp
qed

interpretation keepalive_run: step_invariant "run_step T" "\<lambda>s. 0 \<le> k \<and> 0 \<le> T \<and> run_inv k T s" for k T
  by unfold_locales (blast intro: run_step_inv)

lemma run_reaches:
  assumes "(run_step T)\<^sup>*\<^sup>* (run_begin now p) s" and "0 \<le> pr_effective_keepalive p" and "0 \<le> T"
  shows "run_inv (real_of_int (pr_effective_keepalive p)) T s"
  using keepalive_run.steps_kept [OF assms(1), of "real_of_int (pr_effective_keepalive p)"] run_inv_begin [OF refl] assms(2,3)
  by simp

section \<open>Properties\<close>

text \<open>The ping loop has something to do now; it does, and otherwise there is time for the others.\<close>

definition ping_ready :: "run_state \<Rightarrow> bool" where
  "ping_ready s \<longleftrightarrow>
     (case rn_ping s of
        Asleep wake \<Rightarrow> wake \<le> rn_now s
      | Writing f give_up \<Rightarrow> give_up \<le> rn_now s
      | Awaiting f give_up \<Rightarrow> give_up \<le> rn_now s \<or> await_reply f (rn_out s) \<noteq> None
      | _ \<Rightarrow> False)"

lemma ping_ready_moves:
  assumes "rn_phase s = Gathering" and "ping_ready s"
  shows "\<exists>s'. run_step T s s' \<and> rn_ping s' \<noteq> rn_ping s"
proof (cases "rn_ping s")
  case (Asleep wake)
  then have "run_step T s (ping_send s)" using assms by (intro run_step.send) (simp_all add: ping_ready_def)
  moreover have "rn_ping (ping_send s) \<noteq> rn_ping s"
    by (simp add: Asleep ping_send_def split: prod.split sum.split)
  ultimately show ?thesis by blast
next
  case (Writing f give_up)
  then have "run_step T s (ping_written T f WriteOSError s)" using assms by (intro run_step.written) simp_all
  moreover have "rn_ping (ping_written T f WriteOSError s) \<noteq> rn_ping s"
    by (simp add: Writing ping_written_def transport_write_def)
  ultimately show ?thesis by blast
next
  case (Awaiting f give_up)
  show ?thesis
  proof (cases "await_reply f (rn_out s)")
    case None
    then have "run_step T s (ping_gives_up f s)"
      using assms Awaiting by (intro run_step.gives_up) (simp_all add: ping_ready_def)
    moreover have "rn_ping (ping_gives_up f s) \<noteq> rn_ping s" by (simp add: Awaiting ping_gives_up_def split: prod.split)
    ultimately show ?thesis by blast
  next
    case (Some res)
    then have "run_step T s (ping_answered res s)" using assms Awaiting by (intro run_step.answered)
    moreover have "rn_ping (ping_answered res s) \<noteq> rn_ping s" by (simp add: Awaiting ping_answered_def split: sum.split)
    ultimately show ?thesis by blast
  qed
qed (use assms in \<open>simp_all add: ping_ready_def\<close>)

lemma time_goes_on:
  assumes "rn_phase s = Gathering" and "gathered s = []" and "\<not> ping_ready s"
  shows "\<exists>t > rn_now s. may_wait t s"
proof (cases "rn_ping s")
  case (Asleep wake)
  with assms show ?thesis by (intro exI [of _ wake]) (simp add: may_wait_def ping_ready_def)
next
  case (Writing f give_up)
  with assms show ?thesis by (intro exI [of _ give_up]) (simp add: may_wait_def ping_ready_def)
next
  case (Awaiting f give_up)
  with assms show ?thesis by (intro exI [of _ give_up]) (simp add: may_wait_def ping_ready_def)
qed (use assms in \<open>auto simp: may_wait_def intro!: exI [of _ "rn_now s + 1"]\<close>)

text \<open>
  C22: the keepalive.  With a keepalive of \<open>k\<close> seconds, the PINGREQs of the ping loop follow each other at
  intervals of at least \<open>k\<close> and at most \<open>k\<close> plus the time a write and an answer may take, the first \<open>k\<close> after the
  start; a run goes on only while a ping was answered no longer ago than that, so a broker that is
  silent is noticed; and time is never held up: the run is over, the ping loop can act, or time goes on.
\<close>

theorem keepalive_kept:
  fixes p T
  defines "k \<equiv> real_of_int (pr_effective_keepalive p)"
  assumes "(run_step T)\<^sup>*\<^sup>* (run_begin now p) s" and "0 < pr_effective_keepalive p" and "0 \<le> T"
  shows "successively (\<lambda>a b. a + k \<le> b \<and> b \<le> a + k + DRAIN_TIMEOUT_SECONDS + T) (rn_pings s)
    \<and> (rn_phase s = Gathering \<longrightarrow> rn_now s \<le> rn_heard s + k + DRAIN_TIMEOUT_SECONDS + T
        \<and> (gathered s \<noteq> [] \<or> ping_ready s \<and> (\<exists>s'. run_step T s s' \<and> rn_ping s' \<noteq> rn_ping s)
            \<or> (\<exists>t > rn_now s. may_wait t s)))"
proof -
  have inv: "run_inv k T s" unfolding k_def using assms(2-4) by (intro run_reaches) simp_all
  have "rn_now s \<le> rn_heard s + k + DRAIN_TIMEOUT_SECONDS + T" if "rn_phase s = Gathering"
    using inv that assms(3,4)
    by (auto simp: run_inv_def round_ok_def returned_ok_def k_def DRAIN_TIMEOUT_SECONDS_def Let_def split: ping_task.splits)
  moreover have "successively (\<lambda>a b. a + k \<le> b \<and> b \<le> a + k + DRAIN_TIMEOUT_SECONDS + T) (rn_pings s)"
    using inv by (simp add: run_inv_def gap_ok_def [abs_def])
  ultimately show ?thesis using time_goes_on [of s] ping_ready_moves [of s T] by blast
qed

definition pinging_protocol :: "int \<Rightarrow> protocol" where
  "pinging_protocol keepalive = MQTTProtocol_init keepalive V311 [] None 0 None None (\<lambda>q. 0)"

lemma example_first_ping:
  "\<exists>s. (run_step 10)\<^sup>*\<^sup>* (run_begin 0 (pinging_protocol 2)) s \<and> rn_pings s = [0, 2] \<and> rn_phase s = Gathering
     \<and> rn_now s = 2"
proof -
  let ?s = "run_begin 0 (pinging_protocol 2)" and ?t = "(run_begin 0 (pinging_protocol 2))\<lparr>rn_now := 2\<rparr>"
  have k: "pr_effective_keepalive (pinging_protocol 2) = 2" by (simp add: pinging_protocol_def MQTTProtocol_init_def)
  have "may_wait 2 ?s" by (simp add: may_wait_def run_begin_def ping_loop_begin_def gathered_def k)
  then have "run_step 10 ?s ?t" by (rule run_step.time)
  moreover have "run_step 10 ?t (ping_send ?t)"
    by (rule run_step.send [of _ 2]) (simp_all add: run_begin_def ping_loop_begin_def k)
  moreover have "rn_pings (ping_send ?t) = [0, 2] \<and> rn_phase (ping_send ?t) = Gathering \<and> rn_now (ping_send ?t) = 2"
    by (simp add: ping_send_def run_begin_def split: prod.split)
  ultimately show ?thesis by (meson converse_rtranclp_into_rtranclp r_into_rtranclp)
qed

theorem keepalive_kept_witness:
  "\<exists>s. (run_step 10)\<^sup>*\<^sup>* (run_begin 0 (pinging_protocol 2)) s \<and> rn_pings s = [0, 2]
     \<and> rn_now s \<le> rn_heard s + 2 + 30 + 10"
proof -
  obtain s where s: "(run_step 10)\<^sup>*\<^sup>* (run_begin 0 (pinging_protocol 2)) s" "rn_pings s = [0, 2]"
    "rn_phase s = Gathering" using example_first_ping by blast
  have "pr_effective_keepalive (pinging_protocol 2) = 2" by (simp add: pinging_protocol_def MQTTProtocol_init_def)
  with keepalive_kept [OF s(1)] s show ?thesis by (auto simp: DRAIN_TIMEOUT_SECONDS_def)
qed

text \<open>
  how a run ends.  A run returns only when the read loop returned after \<open>disconnect\<close> and there is no
  keepalive: with one the ping loop does not return, and the run ends with an exception or a
  cancellation.
\<close>

theorem run_returned_when_told:
  assumes "(run_step T)\<^sup>*\<^sup>* (run_begin now p) s" and "0 \<le> pr_effective_keepalive p" and "0 \<le> T"
    and "rn_phase s \<in> {Closing Run_Returned, Ended Run_Returned}"
  shows "pr_effective_keepalive p = 0 \<and> pr_disconnecting (rn_protocol s)"
  using run_reaches [OF assms(1-3)] assms(4) by (auto simp: run_inv_def returned_ok_def)

text \<open>
  An answer that comes after its ping timed out is taken for the answer of the next ping, which is
  completed by it: the waiters of all pings, the application's and the loop's, are one queue.
\<close>

lemma late_pingresp_credited:
  assumes "ob_ping_waiters s = []" and "ping s = (Inr (Pinging f), s1)" and "ping_timeout f s1 = (e, s2)"
    and "ping s2 = (Inr (Pinging g), s3)"
  shows "await_reply g s3 = None \<and> await_reply g (handle_pingresp s3) = Some (Inr PingResp)"
  using assms
  by (auto simp: ping_def create_future_def ping_timeout_def send_def Let_def await_reply_def handle_pingresp_def
      resolve_def split: sum.splits)

end
