(* ===== verification/Task_Cancellation.thy ===== *)
theory Task_Cancellation
  imports Mqtt_Prelude
begin

text \<open>
  The helpers of \<open>_compat.py\<close> for tasks that are cancelled while they wait: \<open>wait_for\<close>, as it is defined
  for Python before 3.12, with \<open>_cancel_and_wait\<close>, and \<open>defer_cancellation\<close>, as it is defined since 3.11.

  Of asyncio, \<open>wait_for\<close> uses a task, its \<open>cancel()\<close>, and \<open>asyncio.wait\<close> with and without a timeout; a
  cancellation of the caller is delivered at the \<open>await\<close> where it is suspended, also when what it
  waits for is done already.  \<open>wstep\<close> interleaves the caller with the task it waits for, the timer and
  cancellations, which may come again and again.
\<close>

section \<open>Waiting with a timeout\<close>

text \<open>A task: running, with \<open>cancel()\<close> called on it or not, or done.\<close>

datatype ('a, 'e) task_result = Task_Value 'a | Task_Exception 'e | Task_Cancelled

datatype ('a, 'e) awaited_task = Task_Running bool | Task_Done "('a, 'e) task_result"

datatype ('a, 'e) wait_outcome = Wait_Returned 'a | Wait_Raised 'e | Wait_CancelledError | Wait_TimeoutError

text \<open>
  Where \<open>wait_for\<close> is: awaiting without a timeout, in its first \<open>asyncio.wait\<close>, in \<open>_cancel_and_wait\<close> after
  a cancellation or after the timeout, or at its end.
\<close>

datatype ('a, 'e) wait_phase =
    Awaiting_Directly | First_Wait | Cancelling_Task | Timed_Out | Wait_Over "('a, 'e) wait_outcome"

text \<open>
  \<open>wf_cancelled\<close>: a cancellation of the caller waits to be delivered.  \<open>wf_expired\<close>: the time is up.
  \<open>wf_requests\<close> counts the cancellations of the caller, for the statements only.
\<close>

record ('a, 'e) wait_for =
  wf_task :: "('a, 'e) awaited_task"
  wf_phase :: "('a, 'e) wait_phase"
  wf_cancelled :: bool
  wf_expired :: bool
  wf_requests :: nat

definition wait_for_begin :: "('a, 'e) awaited_task \<Rightarrow> 't option \<Rightarrow> ('a, 'e) wait_for" where
  "wait_for_begin task timeout =
     \<lparr>wf_task = task, wf_phase = (case timeout of None \<Rightarrow> Awaiting_Directly | Some t \<Rightarrow> First_Wait),
      wf_cancelled = False, wf_expired = False, wf_requests = 0\<rparr>"

fun task_cancel :: "('a, 'e) awaited_task \<Rightarrow> ('a, 'e) awaited_task" where
  "task_cancel (Task_Running b) = Task_Running True"
| "task_cancel (Task_Done r) = Task_Done r"

text \<open>\<open>task.result()\<close> of a task that is done.\<close>

fun outcome_of :: "('a, 'e) task_result \<Rightarrow> ('a, 'e) wait_outcome" where
  "outcome_of (Task_Value v) = Wait_Returned v"
| "outcome_of (Task_Exception e) = Wait_Raised e"
| "outcome_of Task_Cancelled = Wait_CancelledError"

text \<open>\<open>_cancel_and_wait\<close> up to its await, and how the await ends, if it does: with a \<open>CancelledError\<close> or not.\<close>

definition cancel_and_wait :: "('a, 'e) wait_phase \<Rightarrow> ('a, 'e) wait_for \<Rightarrow> ('a, 'e) wait_for" where
  "cancel_and_wait phase w = w\<lparr>wf_task := task_cancel (wf_task w), wf_phase := phase\<rparr>"

definition waited :: "('a, 'e) wait_for \<Rightarrow> (unit + ('a, 'e) task_result) option" where
  "waited w =
     (if wf_cancelled w then Some (Inl ())
      else case wf_task w of Task_Running b \<Rightarrow> None | Task_Done r \<Rightarrow> Some (Inr r))"

definition over :: "('a, 'e) wait_outcome \<Rightarrow> ('a, 'e) wait_for \<Rightarrow> ('a, 'e) wait_for" where
  "over out w = w\<lparr>wf_phase := Wait_Over out\<rparr>"

text \<open>\<open>wait_for\<close> from where it is suspended to its next \<open>await\<close> or its end; None while it stays suspended.\<close>

definition wait_for_resume :: "('a, 'e) wait_for \<Rightarrow> ('a, 'e) wait_for option" where
  "wait_for_resume w =
     (case wf_phase w of
        Awaiting_Directly \<Rightarrow>
          (case wf_task w of Task_Done r \<Rightarrow> Some (over (outcome_of r) w) | Task_Running b \<Rightarrow> None)
      | First_Wait \<Rightarrow>
          if wf_cancelled w then Some (cancel_and_wait Cancelling_Task (w\<lparr>wf_cancelled := False\<rparr>))
          else (case wf_task w of
                  Task_Done r \<Rightarrow> Some (over (outcome_of r) w)
                | Task_Running b \<Rightarrow> if wf_expired w then Some (cancel_and_wait Timed_Out w) else None)
      | Cancelling_Task \<Rightarrow>
          (case waited w of None \<Rightarrow> None | Some x \<Rightarrow> Some (over Wait_CancelledError w))
      | Timed_Out \<Rightarrow>
          (case waited w of
             None \<Rightarrow> None
           | Some (Inl u) \<Rightarrow> Some (over Wait_CancelledError w)
           | Some (Inr Task_Cancelled) \<Rightarrow> Some (over Wait_TimeoutError w)
           | Some (Inr r) \<Rightarrow> Some (over (outcome_of r) w))
      | Wait_Over out \<Rightarrow> None)"

text \<open>
  \<open>cancel()\<close> of the caller.  Awaiting directly, it runs inside the awaited object itself, which gets
  the cancellation.
\<close>

definition cancel_caller :: "('a, 'e) wait_for \<Rightarrow> ('a, 'e) wait_for" where
  "cancel_caller w =
     (let w = w\<lparr>wf_requests := wf_requests w + 1\<rparr> in
      if wf_phase w = Awaiting_Directly then w\<lparr>wf_task := task_cancel (wf_task w)\<rparr>
      else w\<lparr>wf_cancelled := True\<rparr>)"

inductive wstep :: "('a, 'e) wait_for \<Rightarrow> ('a, 'e) wait_for \<Rightarrow> bool" where
  finishes: "wf_task w = Task_Running b \<Longrightarrow> wstep w (w\<lparr>wf_task := Task_Done r\<rparr>)"
| expires: "wstep w (w\<lparr>wf_expired := True\<rparr>)"
| cancels: "\<nexists>out. wf_phase w = Wait_Over out \<Longrightarrow> wstep w (cancel_caller w)"
| resumes: "wait_for_resume w = Some w' \<Longrightarrow> wstep w w'"

section \<open>Invariant\<close>

text \<open>
  A cancellation that was asked for is on its way to the caller or has become its outcome; the task has
  been cancelled before it is left to itself; and a timeout or a result is reported only as it was.
\<close>

definition cancel_seen :: "('a, 'e) wait_for \<Rightarrow> bool" where
  "cancel_seen w \<longleftrightarrow> wf_cancelled w \<or> wf_phase w \<in> {Cancelling_Task, Wait_Over Wait_CancelledError}"

definition wait_inv :: "('a, 'e) wait_for \<Rightarrow> bool" where
  "wait_inv w \<longleftrightarrow> wf_phase w \<noteq> Awaiting_Directly
     \<and> (wf_requests w > 0 \<longrightarrow> (if \<exists>out. wf_phase w = Wait_Over out
          then wf_phase w = Wait_Over Wait_CancelledError else cancel_seen w))
     \<and> (wf_requests w = 0 \<longrightarrow> \<not> wf_cancelled w \<and> wf_phase w \<noteq> Cancelling_Task)
     \<and> (wf_phase w \<noteq> First_Wait \<longrightarrow> wf_task w \<noteq> Task_Running False)
     \<and> (wf_phase w = Timed_Out \<longrightarrow> wf_expired w)
     \<and> (\<forall>out. wf_phase w = Wait_Over out \<longrightarrow>
          (out = Wait_CancelledError \<and> wf_requests w > 0)
          \<or> (\<exists>r. wf_task w = Task_Done r
               \<and> (out = outcome_of r \<or> out = Wait_TimeoutError \<and> r = Task_Cancelled \<and> wf_expired w)))"

lemma outcome_not_timeout [simp]: "outcome_of r \<noteq> Wait_TimeoutError" "Wait_TimeoutError \<noteq> outcome_of r"
  by (cases r; simp)+

lemma task_cancel_not_fresh [simp]: "task_cancel t \<noteq> Task_Running False"
  by (cases t) simp_all

lemma wait_inv_begin: "wait_inv (wait_for_begin task (Some timeout))"
  by (simp add: wait_inv_def wait_for_begin_def)

lemma wait_inv_resume:
  assumes "wait_for_resume w = Some w'" and "wait_inv w"
  shows "wait_inv w'"
proof (cases "wf_phase w")
  case First_Wait
  with assms show ?thesis
    by (cases "wf_task w")
      (auto simp: wait_for_resume_def wait_inv_def cancel_seen_def cancel_and_wait_def over_def split: if_splits)
next
  case Cancelling_Task
  with assms show ?thesis
    by (cases "wf_task w")
      (auto simp: wait_for_resume_def wait_inv_def over_def waited_def split: if_splits)
next
  case Timed_Out
  with assms show ?thesis
    by (cases "wf_task w")
      (auto simp: wait_for_resume_def wait_inv_def cancel_seen_def over_def waited_def
        split: if_splits task_result.splits)
qed (use assms in \<open>auto simp: wait_for_resume_def wait_inv_def\<close>)

lemma wstep_inv: "wstep w w' \<Longrightarrow> wait_inv w \<Longrightarrow> wait_inv w'"
proof (induction rule: wstep.induct)
  case (finishes w b r)
  then show ?case by (auto simp: wait_inv_def cancel_seen_def)
next
  case (cancels w)
  then show ?case by (auto simp: wait_inv_def cancel_caller_def cancel_seen_def Let_def)
next
  case (expires w)
  then show ?case by (auto simp: wait_inv_def cancel_seen_def)
next
  case (resumes w w')
  then show ?case by (rule wait_inv_resume)
qed

interpretation waiting_run: step_invariant wstep wait_inv
  by unfold_locales (rule wstep_inv)

text \<open>\<open>wait_for\<close> goes on as soon as there is something to go on with.\<close>

lemma wait_for_ready:
  assumes "\<nexists>out. wf_phase w = Wait_Over out" and "wf_phase w \<noteq> Awaiting_Directly"
    and "wf_cancelled w \<or> (\<exists>r. wf_task w = Task_Done r)"
  shows "wait_for_resume w \<noteq> None"
  using assms
  by (cases "wf_phase w"; cases "wf_task w")
    (auto simp: wait_for_resume_def waited_def split: task_result.split)

section \<open>Deferring a cancellation\<close>

text \<open>
  What \<open>defer_cancellation\<close> uses of the running task: the number of cancellations it counts, and whether
  its next \<open>await\<close> raises \<open>CancelledError\<close>.  \<open>uncancel()\<close> resets the latter with the last cancellation since
  Python 3.13: \<open>resets\<close>.  The body may be cancelled in turn; whatever it returns or raises is its result.
\<close>

record running_task =
  rt_cancelling :: nat
  rt_must_cancel :: bool

definition request_cancel :: "running_task \<Rightarrow> running_task" where
  "request_cancel t = \<lparr>rt_cancelling = rt_cancelling t + 1, rt_must_cancel = True\<rparr>"

definition uncancel :: "bool \<Rightarrow> running_task \<Rightarrow> running_task" where
  "uncancel resets t =
     (if rt_cancelling t > 0
      then \<lparr>rt_cancelling = rt_cancelling t - 1,
            rt_must_cancel = (rt_must_cancel t \<and> \<not> (resets \<and> rt_cancelling t = 1))\<rparr>
      else t)"

definition defer_cancellation ::
  "bool \<Rightarrow> (running_task option \<Rightarrow> 'r \<times> running_task option) \<Rightarrow> running_task option \<Rightarrow> 'r \<times> running_task option" where
  "defer_cancellation resets body task =
     (let cancels = (case task of None \<Rightarrow> 0 | Some t \<Rightarrow> rt_cancelling t);
          task = (map_option (uncancel resets) ^^ cancels) task
      in case body task of (result, task) \<Rightarrow> (result, (map_option request_cancel ^^ cancels) task))"

lemma uncancel_all:
  "(map_option (uncancel resets) ^^ rt_cancelling t) (Some t) =
     Some \<lparr>rt_cancelling = 0, rt_must_cancel = (rt_must_cancel t \<and> \<not> (resets \<and> rt_cancelling t > 0))\<rparr>"
proof (induction "rt_cancelling t" arbitrary: t)
  case (Suc n)
  then have "rt_cancelling (uncancel resets t) = n" by (simp add: uncancel_def flip: Suc.hyps(2))
  with Suc.hyps(1) [of "uncancel resets t"] show ?case
    by (auto simp: funpow_Suc_right uncancel_def simp del: funpow.simps simp flip: Suc.hyps(2))
qed simp

lemma request_cancels:
  "(map_option request_cancel ^^ n) (Some t) =
     Some \<lparr>rt_cancelling = rt_cancelling t + n, rt_must_cancel = (rt_must_cancel t \<or> n > 0)\<rparr>"
  by (induction n) (simp_all add: request_cancel_def)

text \<open>
  The body runs with no cancellation counted.  Afterwards the task counts those from before and those
  that came meanwhile, and if there are any from before the next \<open>await\<close> raises.
\<close>

lemma defer_cancellation_restores:
  assumes "body (Some \<lparr>rt_cancelling = 0, rt_must_cancel = (rt_must_cancel t \<and> \<not> (resets \<and> rt_cancelling t > 0))\<rparr>)
      = (result, Some t')"
  shows "defer_cancellation resets body (Some t) =
    (result, Some \<lparr>rt_cancelling = rt_cancelling t' + rt_cancelling t,
                   rt_must_cancel = (rt_must_cancel t' \<or> rt_cancelling t > 0)\<rparr>)"
  using assms by (simp add: defer_cancellation_def uncancel_all request_cancels Let_def)

section \<open>Properties\<close>

text \<open>
  C23: \<open>wait_for\<close> never hides a cancellation.  Whatever the task, the timer and any number of
  cancellations do and in which order: when \<open>wait_for\<close> with a timeout is over and its caller was
  cancelled meanwhile, it raised \<open>CancelledError\<close>, also when the task had a result by then; the task is done
  or has been cancelled, never left running; \<open>TimeoutError\<close> means that the time was up and the task ended by
  the cancellation, a result that the task returned it; and before its end \<open>wait_for\<close> goes on as soon as the
  task is done or a cancellation is there.
\<close>

theorem wait_for_keeps_cancellation:
  assumes "wstep\<^sup>*\<^sup>* (wait_for_begin task (Some timeout)) w"
  shows "case wf_phase w of
      Wait_Over out \<Rightarrow>
        (wf_requests w > 0 \<longrightarrow> out = Wait_CancelledError) \<and> wf_task w \<noteq> Task_Running False
        \<and> (wf_requests w = 0 \<longrightarrow> (\<exists>r. wf_task w = Task_Done r
             \<and> (out = outcome_of r \<or> out = Wait_TimeoutError \<and> r = Task_Cancelled \<and> wf_expired w)))
    | phase \<Rightarrow> wf_cancelled w \<or> (\<exists>r. wf_task w = Task_Done r) \<longrightarrow> wait_for_resume w \<noteq> None"
proof -
  have inv: "wait_inv w" using waiting_run.steps_kept [OF assms wait_inv_begin] .
  show ?thesis
  proof (cases "\<exists>out. wf_phase w = Wait_Over out")
    case True
    with inv show ?thesis by (auto simp: wait_inv_def)
  next
    case False
    with inv have "wf_cancelled w \<or> (\<exists>r. wf_task w = Task_Done r) \<longrightarrow> wait_for_resume w \<noteq> None"
      using wait_for_ready [of w] by (auto simp: wait_inv_def)
    with False show ?thesis by (auto split: wait_phase.split)
  qed
qed

text \<open>The task is done, and before the caller runs again it is cancelled.\<close>

theorem wait_for_keeps_cancellation_witness:
  "\<exists>w :: (nat, nat) wait_for. wstep\<^sup>*\<^sup>* (wait_for_begin (Task_Running False) (Some (30 :: nat))) w
     \<and> wf_task w = Task_Done (Task_Value 5) \<and> wf_requests w = 1 \<and> wf_phase w = Wait_Over Wait_CancelledError"
proof -
  define w0 :: "(nat, nat) wait_for" where "w0 = wait_for_begin (Task_Running False) (Some (30 :: nat))"
  define w1 where "w1 = cancel_caller (w0\<lparr>wf_task := Task_Done (Task_Value 5)\<rparr>)"
  define w2 where "w2 = cancel_and_wait Cancelling_Task (w1\<lparr>wf_cancelled := False\<rparr>)"
  have "wstep w0 (w0\<lparr>wf_task := Task_Done (Task_Value 5)\<rparr>)"
    by (rule wstep.finishes [of _ False]) (simp add: w0_def wait_for_begin_def)
  moreover have "wstep (w0\<lparr>wf_task := Task_Done (Task_Value 5)\<rparr>) w1"
    unfolding w1_def by (rule wstep.cancels) (simp add: w0_def wait_for_begin_def)
  moreover have "wstep w1 w2"
    by (rule wstep.resumes)
      (simp add: w2_def w1_def w0_def wait_for_begin_def wait_for_resume_def cancel_caller_def)
  moreover have "wstep w2 (over Wait_CancelledError w2)"
    by (rule wstep.resumes)
      (simp add: w2_def w1_def w0_def wait_for_begin_def wait_for_resume_def cancel_caller_def cancel_and_wait_def waited_def)
  ultimately have steps: "wstep\<^sup>*\<^sup>* w0 (over Wait_CancelledError w2)" by (meson r_into_rtranclp rtranclp_trans)
  moreover have "wf_task (over Wait_CancelledError w2) = Task_Done (Task_Value 5)"
    "wf_requests (over Wait_CancelledError w2) = 1"
    by (simp_all add: over_def w2_def w1_def w0_def wait_for_begin_def cancel_caller_def cancel_and_wait_def)
  moreover have "\<exists>out. wf_phase (over Wait_CancelledError w2) = Wait_Over out" by (simp add: over_def)
  ultimately show ?thesis
    using wait_for_keeps_cancellation [OF steps [unfolded w0_def]] unfolding w0_def by auto
qed

end
