(* ===== verification/Client_Options.thy ===== *)
theory Client_Options
  imports Protocol Complex_Main
begin

text \<open>
  What \<open>client.py\<close> checks and builds before anything is sent: the options of \<open>MQTTClient\<close> and the CONNECT
  properties made of them, the snapshot \<open>ConnectionInfo\<close> of a handshake, \<open>UnsubscribeResult\<close>, and the
  arguments of \<open>publish\<close>, \<open>subscribe\<close>, \<open>request\<close>, \<open>ping\<close> and \<open>auth\<close>.

  \<open>user_properties\<close> is the one argument whose type is checked at run time: \<open>pyval\<close> are the Python values
  that matter there.  A float is a rational number, an infinity or \<open>nan\<close>.  Random bytes are arguments.
\<close>

section \<open>Options\<close>

datatype client_error =
    Client_TypeError string
  | Client_ValueError string
  | Client_RuntimeError string
  | Client_UnicodeEncodeError
  | Client_Topic_Error topic_error
  | Client_Dispatcher_Error dispatcher_error
  | Client_OSError
  | Client_BufferError
  | Client_MQTT_Error mqtt_error

datatype pyval = PyStr pystr | PyTuple "pyval list" | PyOther

datatype pyfloat = Finite rat | Infinite bool | NaN

text \<open>\<open>x > 0\<close>; every comparison with \<open>nan\<close> is false.\<close>

fun positive :: "pyfloat \<Rightarrow> bool" where
  "positive (Finite r) = (r > 0)"
| "positive (Infinite negative) = (\<not> negative)"
| "positive NaN = False"

definition MAX_SUBSCRIPTION_IDENTIFIER :: int where "MAX_SUBSCRIPTION_IDENTIFIER = 268435455"
definition UNSUBACK_REJECTION_THRESHOLD :: int where "UNSUBACK_REJECTION_THRESHOLD = 0x80"
definition MAX_SESSION_EXPIRY_INTERVAL :: int where "MAX_SESSION_EXPIRY_INTERVAL = 0xFFFFFFFF"
definition MAX_RECEIVE_MAXIMUM :: int where "MAX_RECEIVE_MAXIMUM = 65535"
definition MAX_PACKET_SIZE :: int where "MAX_PACKET_SIZE = 268435460"
definition MAX_STRING_BYTES :: nat where "MAX_STRING_BYTES = 65535"

definition validate_user_string :: "pystr \<Rightarrow> client_error + unit" where
  "validate_user_string s =
     (case utf8_encode s of
        Inl e \<Rightarrow> Inl (Client_ValueError ''user_properties strings must be valid UTF-8'')
      | Inr bs \<Rightarrow>
          if length bs > MAX_STRING_BYTES
          then Inl (Client_ValueError ''user_properties strings must not exceed 65535 UTF-8 bytes'')
          else if 0 \<in> set s then Inl (Client_ValueError ''user_properties strings must not contain U+0000'')
          else Inr ())"

fun validate_user_properties :: "pyval list \<Rightarrow> client_error + (pystr \<times> pystr) list" where
  "validate_user_properties [] = Inr []"
| "validate_user_properties (pair # pairs) =
     (case pair of
        PyTuple [PyStr name, PyStr val] \<Rightarrow>
          (case validate_user_string name of
             Inl e \<Rightarrow> Inl e
           | Inr _ \<Rightarrow>
          (case validate_user_string val of
             Inl e \<Rightarrow> Inl e
           | Inr _ \<Rightarrow>
          (case validate_user_properties pairs of Inl e \<Rightarrow> Inl e | Inr kvs \<Rightarrow> Inr ((name, val) # kvs))))
      | _ \<Rightarrow> Inl (Client_TypeError ''user_properties must contain (name, value) string pairs''))"

definition in_range :: "int \<Rightarrow> int option \<Rightarrow> int \<Rightarrow> bool" where
  "in_range lo v hi = (case v of None \<Rightarrow> True | Some i \<Rightarrow> lo \<le> i \<and> i \<le> hi)"

definition build_connect_properties ::
  "version \<Rightarrow> int \<Rightarrow> int option \<Rightarrow> int option \<Rightarrow> pyval list \<Rightarrow> bool option \<Rightarrow> bool option
     \<Rightarrow> client_error + ConnectProperties option" where
  "build_connect_properties version session_expiry_interval receive_maximum maximum_packet_size user_properties
       request_response_information request_problem_information =
     (if version \<noteq> V50 then
        if receive_maximum \<noteq> None \<or> maximum_packet_size \<noteq> None \<or> user_properties \<noteq> []
           \<or> request_response_information \<noteq> None \<or> request_problem_information \<noteq> None
        then Inl (Client_RuntimeError ''MQTT 5.0 is required'') else Inr None
      else if \<not> in_range 0 (Some session_expiry_interval) MAX_SESSION_EXPIRY_INTERVAL
      then Inl (Client_ValueError ''session_expiry_interval must be in 0..4294967295'')
      else if \<not> in_range 1 receive_maximum MAX_RECEIVE_MAXIMUM
      then Inl (Client_ValueError ''receive_maximum must be in 1..65535'')
      else if \<not> in_range 1 maximum_packet_size MAX_PACKET_SIZE
      then Inl (Client_ValueError ''maximum_packet_size must be in 1..268435460'')
      else (case validate_user_properties user_properties of
              Inl e \<Rightarrow> Inl e
            | Inr kvs \<Rightarrow>
                Inr (Some
                  \<lparr>cp_session_expiry_interval = Some session_expiry_interval, cp_receive_maximum = receive_maximum,
                   cp_maximum_packet_size = maximum_packet_size, cp_topic_alias_maximum = None,
                   cp_request_response_information = request_response_information,
                   cp_request_problem_information = request_problem_information,
                   cp_authentication_method = None, cp_authentication_data = None, cp_user_properties = kvs\<rparr>)))"

text \<open>The keyword arguments of \<open>MQTTClient\<close> that the model looks at, and what the client keeps of them.\<close>

record client_options =
  opt_client_id :: pystr
  opt_keepalive :: int
  opt_clean_session :: bool
  opt_username :: "pystr option"
  opt_password :: "pystr option"
  opt_will :: "Will option"
  opt_mqtt_connect_timeout :: pyfloat
  opt_version :: version
  opt_session_expiry_interval :: int
  opt_receive_maximum :: "int option"
  opt_maximum_packet_size :: "int option"
  opt_user_properties :: "pyval list"
  opt_request_response_information :: "bool option"
  opt_request_problem_information :: "bool option"
  opt_stripped_prefixes :: "pystr list"
  opt_max_pending_requests :: int
  opt_session_replay_buffer_size :: int
  opt_session_replay_timeout :: pyfloat

record client_config = client_options +
  cfg_connect_properties :: "ConnectProperties option"
  cfg_request_dispatcher :: RequestDispatcher

definition MQTTClient_init :: "client_options \<Rightarrow> client_error + client_config" where
  "MQTTClient_init opts =
     (if \<not> positive (opt_mqtt_connect_timeout opts)
      then Inl (Client_ValueError ''mqtt_connect_timeout must be positive'')
      else if opt_session_replay_buffer_size opts < 0
      then Inl (Client_ValueError ''session_replay_buffer_size must be non-negative'')
      else if \<not> positive (opt_session_replay_timeout opts)
      then Inl (Client_ValueError ''session_replay_timeout must be positive'')
      else if (case opt_will opts of None \<Rightarrow> False | Some w \<Rightarrow> will_properties w \<noteq> None) \<and> opt_version opts \<noteq> V50
      then Inl (Client_RuntimeError ''will properties require MQTT 5.0'')
      else (case build_connect_properties (opt_version opts) (opt_session_expiry_interval opts)
                   (opt_receive_maximum opts) (opt_maximum_packet_size opts) (opt_user_properties opts)
                   (opt_request_response_information opts) (opt_request_problem_information opts) of
              Inl e \<Rightarrow> Inl e
            | Inr props \<Rightarrow>
           (case RequestDispatcher_init (opt_max_pending_requests opts) of
              Inl e \<Rightarrow> Inl (Client_Dispatcher_Error e)
            | Inr dispatcher \<Rightarrow> Inr (client_options.extend opts (client_config.fields props dispatcher)))))"

text \<open>\<open>create_client\<close> has every option but \<open>stripped_prefixes\<close>.\<close>

definition create_client :: "client_options \<Rightarrow> client_error + client_config" where
  "create_client opts = MQTTClient_init (opts\<lparr>opt_stripped_prefixes := DEFAULT_STRIPPED_PREFIXES\<rparr>)"

text \<open>The CONNECT packet and the protocol object of \<open>_connect\<close>; encoding the password may fail.\<close>

definition connect_packet :: "client_config \<Rightarrow> client_error + Connect" where
  "connect_packet cfg =
     (case (case opt_password cfg of None \<Rightarrow> Inr None | Some p \<Rightarrow> rmap Some (utf8_encode p)) of
        Inl e \<Rightarrow> Inl Client_UnicodeEncodeError
      | Inr password \<Rightarrow>
          Inr \<lparr>con_client_id = opt_client_id cfg, con_clean_session = opt_clean_session cfg,
               con_keepalive = opt_keepalive cfg, con_username = opt_username cfg, con_password = password,
               con_will = opt_will cfg, con_properties = cfg_connect_properties cfg\<rparr>)"

definition client_protocol :: "client_config \<Rightarrow> RequestDispatcher \<Rightarrow> (nat \<Rightarrow> nat) \<Rightarrow> protocol" where
  "client_protocol cfg dispatcher maxsize =
     (let props = cfg_connect_properties cfg in
      MQTTProtocol_init (opt_keepalive cfg) (opt_version cfg) (opt_stripped_prefixes cfg) (Some dispatcher)
        (opt_session_replay_buffer_size cfg)
        (case props of None \<Rightarrow> None | Some p \<Rightarrow> cp_receive_maximum p)
        (case props of None \<Rightarrow> None | Some p \<Rightarrow> cp_maximum_packet_size p) maxsize)"

section \<open>Results\<close>

record ConnectionInfo =
  ci_connection_id :: int
  ci_session_present :: bool
  ci_return_code :: int
  ci_properties :: "ConnAckProperties option"
  ci_effective_client_id :: pystr
  ci_effective_keepalive :: int
  ci_effective_session_expiry_interval :: "int option"

definition from_connack :: "Connect \<Rightarrow> ConnAck \<Rightarrow> version \<Rightarrow> int \<Rightarrow> ConnectionInfo" where
  "from_connack packet connack version connection_id =
     (let properties = cack_properties connack;
          client_id = con_client_id packet;
          keepalive = con_keepalive packet;
          expiry = (if version = V50
                    then Some (case con_properties packet of
                                 None \<Rightarrow> 0
                               | Some p \<Rightarrow> (case cp_session_expiry_interval p of None \<Rightarrow> 0 | Some e \<Rightarrow> e))
                    else None)
      in case properties of
           None \<Rightarrow>
             \<lparr>ci_connection_id = connection_id, ci_session_present = cack_session_present connack,
              ci_return_code = cack_return_code connack, ci_properties = properties,
              ci_effective_client_id = client_id, ci_effective_keepalive = keepalive,
              ci_effective_session_expiry_interval = expiry\<rparr>
         | Some p \<Rightarrow>
             \<lparr>ci_connection_id = connection_id, ci_session_present = cack_session_present connack,
              ci_return_code = cack_return_code connack, ci_properties = properties,
              ci_effective_client_id =
                (if client_id = [] then case ca_assigned_client_identifier p of None \<Rightarrow> client_id | Some i \<Rightarrow> i
                 else client_id),
              ci_effective_keepalive = (case ca_server_keep_alive p of None \<Rightarrow> keepalive | Some k \<Rightarrow> k),
              ci_effective_session_expiry_interval =
                (if version = V50 then case ca_session_expiry_interval p of None \<Rightarrow> expiry | Some e \<Rightarrow> Some e
                 else expiry)\<rparr>)"

record UnsubscribeResult =
  ur_topic_filters :: "pystr list"
  ur_reason_codes :: "int list"
  ur_properties :: "UnsubAckProperties option"

definition from_unsuback :: "pystr list \<Rightarrow> UnsubAck \<Rightarrow> UnsubscribeResult" where
  "from_unsuback topic_filters unsuback =
     \<lparr>ur_topic_filters = topic_filters, ur_reason_codes = unsack_reason_codes unsuback,
      ur_properties = unsack_properties unsuback\<rparr>"

definition failures :: "UnsubscribeResult \<Rightarrow> (pystr \<times> int) list" where
  "failures r =
     fold (\<lambda>(f, code) d. if code \<ge> UNSUBACK_REJECTION_THRESHOLD then AList.update f code d else d)
       (zip (ur_topic_filters r) (ur_reason_codes r)) []"

definition reason_string :: "UnsubscribeResult \<Rightarrow> pystr option" where
  "reason_string r = (case ur_properties r of None \<Rightarrow> None | Some p \<Rightarrow> ua_reason_string p)"

definition user_properties :: "UnsubscribeResult \<Rightarrow> (pystr \<times> pystr) list" where
  "user_properties r = (case ur_properties r of None \<Rightarrow> [] | Some p \<Rightarrow> ua_user_properties p)"

section \<open>Opening a transport\<close>

text \<open>
  \<open>_default_transport_factory\<close> with \<open>open_tcp\<close> and \<open>open_tls\<close>.  \<open>connects\<close> says whether \<open>asyncio.open_connection\<close>
  succeeds, which is input, and \<open>default_context\<close> is what \<open>ssl.create_default_context\<close> returns.  The
  transport comes with the context of its connection, if it is encrypted.
\<close>

datatype 'c tls_option = TlsNone | TlsBool bool | TlsContext 'c

type_synonym 'c opened_transport = "client_error + StreamTransport \<times> 'c option"

definition open_connection :: "(pystr \<Rightarrow> int \<Rightarrow> 'c option \<Rightarrow> bool) \<Rightarrow> pystr \<Rightarrow> int \<Rightarrow> 'c option \<Rightarrow> 'c opened_transport" where
  "open_connection connects host port ctx =
     (if connects host port ctx then Inr (StreamTransport_init, ctx) else Inl Client_OSError)"

definition open_tcp :: "(pystr \<Rightarrow> int \<Rightarrow> 'c option \<Rightarrow> bool) \<Rightarrow> pystr \<Rightarrow> int \<Rightarrow> 'c opened_transport" where
  "open_tcp connects host port = open_connection connects host port None"

definition open_tls ::
  "(pystr \<Rightarrow> int \<Rightarrow> 'c option \<Rightarrow> bool) \<Rightarrow> 'c \<Rightarrow> pystr \<Rightarrow> int \<Rightarrow> 'c option \<Rightarrow> 'c opened_transport" where
  "open_tls connects default_context host port ssl_context =
     (let ctx = (case ssl_context of Some c \<Rightarrow> c | None \<Rightarrow> default_context)
      in open_connection connects host port (Some ctx))"

definition default_transport_factory ::
  "(pystr \<Rightarrow> int \<Rightarrow> 'c option \<Rightarrow> bool) \<Rightarrow> 'c \<Rightarrow> pystr \<Rightarrow> int \<Rightarrow> 'c tls_option \<Rightarrow> 'c opened_transport" where
  "default_transport_factory connects default_context host port tls =
     (case tls of
        TlsNone \<Rightarrow> open_tcp connects host port
      | TlsBool b \<Rightarrow>
          if \<not> b then open_tcp connects host port else open_tls connects default_context host port None
      | TlsContext c \<Rightarrow> open_tls connects default_context host port (Some c))"

section \<open>Arguments of the operations\<close>

datatype payload = Payload_Bytes bytes | Payload_Str pystr

definition not_connected :: client_error where
  "not_connected = Client_MQTT_Error (Outbound.MQTTDisconnectedError ''Not connected'')"

text \<open>The packet \<open>publish\<close> hands to the protocol; \<open>online\<close> says whether there is one.\<close>

definition client_publish ::
  "version \<Rightarrow> bool \<Rightarrow> pystr \<Rightarrow> payload \<Rightarrow> QoS \<Rightarrow> bool \<Rightarrow> PublishProperties option \<Rightarrow> client_error + Publish" where
  "client_publish version online topic payload qos retain properties =
     (case validate_publish topic of
        Inl e \<Rightarrow> Inl (Client_Topic_Error e)
      | Inr _ \<Rightarrow>
          if \<not> online then Inl not_connected
          else if properties \<noteq> None \<and> version \<noteq> V50 then Inl (Client_RuntimeError ''properties require MQTT 5.0'')
          else (case (case payload of Payload_Bytes bs \<Rightarrow> Inr bs | Payload_Str s \<Rightarrow> utf8_encode s) of
                  Inl e \<Rightarrow> Inl Client_UnicodeEncodeError
                | Inr bs \<Rightarrow>
                    Inr \<lparr>pub_topic = topic, pub_payload = bs, pub_qos = qos, pub_retain = retain, pub_dup = False,
                         pub_packet_id = None, pub_properties = properties\<rparr>))"

definition client_ping :: "bool \<Rightarrow> client_error + unit" where
  "client_ping online = (if \<not> online then Inl not_connected else Inr ())"

text \<open>The requests of a \<open>Subscription\<close> (\<open>_do_subscribe\<close>) that \<open>subscribe\<close> accepts.\<close>

fun validate_filters :: "pystr list \<Rightarrow> client_error + unit" where
  "validate_filters [] = Inr ()"
| "validate_filters (f # fs) =
     (case validate_subscribe_topic f of Inl e \<Rightarrow> Inl (Client_Topic_Error e) | Inr _ \<Rightarrow> validate_filters fs)"

record Subscription =
  su_filters :: "pystr list"
  su_qos :: QoS
  su_auto_ack :: bool
  su_receive_buffer_size :: int
  su_no_local :: bool
  su_retain_as_published :: bool
  su_retain_handling :: RetainHandling
  su_subscription_identifier :: "int option"

definition client_subscribe :: "version \<Rightarrow> Subscription \<Rightarrow> client_error + Subscription" where
  "client_subscribe version sub =
     (case validate_filters (su_filters sub) of
        Inl e \<Rightarrow> Inl e
      | Inr _ \<Rightarrow>
          let uses_v5_option = su_no_local sub \<or> su_retain_as_published sub \<or> su_retain_handling sub \<noteq> SEND_ON_SUBSCRIBE in
          if uses_v5_option \<and> version \<noteq> V50
          then Inl (Client_RuntimeError ''no_local, retain_as_published, and retain_handling require MQTT 5.0'')
          else (case su_subscription_identifier sub of
                  None \<Rightarrow> Inr sub
                | Some i \<Rightarrow>
                    if version \<noteq> V50 then Inl (Client_RuntimeError ''subscription_identifier requires MQTT 5.0'')
                    else if \<not> (1 \<le> i \<and> i \<le> MAX_SUBSCRIPTION_IDENTIFIER)
                    then Inl (Client_ValueError ''subscription_identifier must be in 1..268435455'')
                    else Inr sub))"

definition subscription_requests :: "Subscription \<Rightarrow> SubscriptionRequest list" where
  "subscription_requests sub =
     map (\<lambda>f. \<lparr>sr_topic_filter = f, sr_qos = su_qos sub, sr_no_local = su_no_local sub,
              sr_retain_as_published = su_retain_as_published sub, sr_retain_handling = su_retain_handling sub\<rparr>)
       (su_filters sub)"

text \<open>\<open>bytes.hex()\<close>, and the reply topic and properties of \<open>request\<close> from two draws of \<open>os.urandom(16)\<close>.\<close>

definition hex_digit :: "nat \<Rightarrow> nat" where
  "hex_digit d = (if d < 10 then 48 + d else 87 + d)"

definition hex :: "bytes \<Rightarrow> pystr" where
  "hex bs = concat (map (\<lambda>b. [hex_digit (unat b div 16), hex_digit (unat b mod 16)]) bs)"

definition empty_publish_properties :: PublishProperties where
  "empty_publish_properties =
     \<lparr>pp_payload_format_indicator = None, pp_message_expiry_interval = None, pp_topic_alias = None,
      pp_response_topic = None, pp_correlation_data = None, pp_subscription_identifier = None,
      pp_content_type = None, pp_user_properties = []\<rparr>"

definition request_properties ::
  "version \<Rightarrow> PublishProperties option \<Rightarrow> bytes \<Rightarrow> bytes \<Rightarrow> client_error + pystr \<times> bytes \<times> PublishProperties" where
  "request_properties version properties random1 random2 =
     (if version \<noteq> V50 then Inl (Client_RuntimeError ''request() requires MQTT 5.0'')
      else
        let given = (case properties of None \<Rightarrow> None | Some p \<Rightarrow> pp_response_topic p);
            corr = (case (case properties of None \<Rightarrow> None | Some p \<Rightarrow> pp_correlation_data p) of
                      None \<Rightarrow> random2 | Some c \<Rightarrow> c)
        in case (case given of
                   None \<Rightarrow> Inr (str_lit ''_zmqtt/reply/'' @ hex random1)
                 | Some t \<Rightarrow> (case validate_response_topic t of Inl e \<Rightarrow> Inl (Client_Topic_Error e) | Inr _ \<Rightarrow> Inr t)) of
             Inl e \<Rightarrow> Inl e
           | Inr reply_topic \<Rightarrow>
               Inr (reply_topic, corr,
                 (case properties of None \<Rightarrow> empty_publish_properties | Some p \<Rightarrow> p)
                   \<lparr>pp_response_topic := Some reply_topic, pp_correlation_data := Some corr\<rparr>))"

text \<open>\<open>request\<close> up to the wait of \<open>register\<close>, and the PUBLISH that follows it.\<close>

definition request_begin ::
  "version \<Rightarrow> PublishProperties option \<Rightarrow> bytes \<Rightarrow> bytes \<Rightarrow> RequestDispatcher
     \<Rightarrow> client_error + PublishProperties \<times> nat \<times> nat \<times> RequestDispatcher" where
  "request_begin version properties random1 random2 d =
     (case request_properties version properties random1 random2 of
        Inl e \<Rightarrow> Inl e
      | Inr (reply_topic, corr, req_props) \<Rightarrow>
          (case register_begin reply_topic corr d of
             Inl e \<Rightarrow> Inl (Client_Dispatcher_Error e)
           | Inr (r, t, d') \<Rightarrow> Inr (req_props, r, t, d')))"

definition request_publish ::
  "version \<Rightarrow> bool \<Rightarrow> pystr \<Rightarrow> payload \<Rightarrow> QoS \<Rightarrow> PublishProperties \<Rightarrow> client_error + Publish" where
  "request_publish version online topic payload qos req_props =
     client_publish version online topic payload qos False (Some req_props)"

definition client_auth :: "version \<Rightarrow> bool \<Rightarrow> pystr \<Rightarrow> bytes option \<Rightarrow> client_error + Auth" where
  "client_auth version online meth data =
     (if version \<noteq> V50 then Inl (Client_RuntimeError ''AUTH requires MQTT 5.0'')
      else if \<not> online then Inl not_connected
      else Inr \<lparr>auth_reason_code = 0x18,
                auth_properties = Some \<lparr>ap_authentication_method = Some meth, ap_authentication_data = data,
                                        ap_reason_string = None, ap_user_properties = []\<rparr>\<rparr>)"

section \<open>Transports and results\<close>

text \<open>An encrypted connection is opened exactly when one was asked for, with the context that was given.\<close>

lemma tls_as_asked:
  assumes "default_transport_factory connects default_context host port tls = Inr (t, security)"
  shows "is_connected t \<and> security =
    (case tls of TlsNone \<Rightarrow> None | TlsBool b \<Rightarrow> if b then Some default_context else None | TlsContext c \<Rightarrow> Some c)"
  using assms
  by (auto simp: default_transport_factory_def open_tcp_def open_tls_def open_connection_def is_connected_def
      StreamTransport_init_def split: tls_option.splits if_splits)

text \<open>The warning about a rejected unsubscribe is logged exactly when the result has failures.\<close>

lemma failures_empty:
  "fold (\<lambda>(f, code) d. if code \<ge> n then AList.update f code d else d) xs d = [] \<longleftrightarrow>
     d = [] \<and> filter (\<lambda>(f, code). code \<ge> n) xs = []" for n :: int
proof (induction xs arbitrary: d)
  case (Cons x xs)
  show ?case by (cases x) (simp add: Cons.IH)
qed simp

lemma warned_of_failures:
  "warn_on_rejected_unsubscribe filters unsuback = None \<longleftrightarrow> failures (from_unsuback filters unsuback) = []"
  by (simp add: warn_on_rejected_unsubscribe_def failures_def from_unsuback_def failures_empty
      UNSUBACK_REJECTION_THRESHOLD_def Let_def)

section \<open>Options that were accepted can be sent\<close>

lemma rconcat_total: "(\<And>x. x \<in> set xs \<Longrightarrow> \<exists>b. f x = Inr b) \<Longrightarrow> \<exists>bs. rconcat f xs = Inr bs"
proof (induction xs)
  case (Cons x xs)
  then obtain b bs where "f x = Inr b" "rconcat f xs = Inr bs" by (meson list.set_intros)
  then show ?case by simp
qed simp

lemma validated_string_encodes:
  assumes "validate_user_string s = Inr ()"
  shows "\<exists>bs. encode_str s = Inr bs"
proof -
  from assms obtain bs where "utf8_encode s = Inr bs" and "length bs \<le> 65535"
    by (auto simp: validate_user_string_def MAX_STRING_BYTES_def split: sum.splits if_splits)
  then show ?thesis by (simp add: encode_str_def pack_H_def)
qed

lemma validated_pairs:
  assumes "validate_user_properties pairs = Inr kvs"
  shows "pairs = map (\<lambda>(name, val). PyTuple [PyStr name, PyStr val]) kvs"
    and "\<And>kv. kv \<in> set kvs \<Longrightarrow> validate_user_string (fst kv) = Inr () \<and> validate_user_string (snd kv) = Inr ()"
  using assms
  by (induction pairs arbitrary: kvs) (auto split: pyval.splits list.splits sum.splits)

lemma user_pair_encodes:
  assumes "validate_user_string (fst kv) = Inr ()" and "validate_user_string (snd kv) = Inr ()"
  shows "\<exists>bs. encode_user_pair USER_PROPERTY kv = Inr bs"
  using validated_string_encodes [OF assms(1)] validated_string_encodes [OF assms(2)]
  by (auto simp: encode_user_pair_def byte_of_def)

text \<open>The three wire types of the options.\<close>

lemma option_prop_encodes:
  "0 \<le> i \<Longrightarrow> i \<le> MAX_SESSION_EXPIRY_INTERVAL \<Longrightarrow> \<exists>bs. encode_prop SESSION_EXPIRY_INTERVAL (PInt i) = Inr bs"
  "1 \<le> i \<Longrightarrow> i \<le> MAX_RECEIVE_MAXIMUM \<Longrightarrow> \<exists>bs. encode_prop RECEIVE_MAXIMUM (PInt i) = Inr bs"
  "1 \<le> i \<Longrightarrow> i \<le> MAX_PACKET_SIZE \<Longrightarrow> \<exists>bs. encode_prop MAXIMUM_PACKET_SIZE (PInt i) = Inr bs"
  "\<exists>bs. encode_prop REQUEST_RESPONSE_INFORMATION (PBool b) = Inr bs"
  "\<exists>bs. encode_prop REQUEST_PROBLEM_INFORMATION (PBool b) = Inr bs"
  by (simp_all add: encode_prop_def wire_type_defs pack_B_def pack_H_def pack_I_def MAX_SESSION_EXPIRY_INTERVAL_def
      MAX_RECEIVE_MAXIMUM_def MAX_PACKET_SIZE_def)

lemma in_range_simps [simp]: "in_range lo None hi" "in_range lo (Some i) hi \<longleftrightarrow> lo \<le> i \<and> i \<le> hi"
  by (simp_all add: in_range_def)

lemma built_properties:
  assumes "build_connect_properties V50 expiry rmax size_max pairs rr rp = Inr props"
  obtains kvs where "validate_user_properties pairs = Inr kvs"
    and "props = Some \<lparr>cp_session_expiry_interval = Some expiry, cp_receive_maximum = rmax,
                   cp_maximum_packet_size = size_max, cp_topic_alias_maximum = None,
                   cp_request_response_information = rr, cp_request_problem_information = rp,
                   cp_authentication_method = None, cp_authentication_data = None, cp_user_properties = kvs\<rparr>"
    and "0 \<le> expiry" and "expiry \<le> MAX_SESSION_EXPIRY_INTERVAL" and "in_range 1 rmax MAX_RECEIVE_MAXIMUM"
    and "in_range 1 size_max MAX_PACKET_SIZE"
  using assms by (auto simp: build_connect_properties_def split: if_splits sum.splits)

lemma present_member: "x \<in> set (present l) \<longleftrightarrow> (fst x, Some (snd x)) \<in> set l"
  by (force simp: present_def List.map_filter_def)

lemma built_properties_encode:
  assumes "build_connect_properties V50 expiry rmax size_max pairs rr rp = Inr (Some p)"
  shows "\<exists>raw. encode_props (block_dict (connect_items p) (cp_user_properties p)) = Inr raw"
proof -
  from assms obtain kvs where kvs: "validate_user_properties pairs = Inr kvs"
    and p: "p = \<lparr>cp_session_expiry_interval = Some expiry, cp_receive_maximum = rmax,
                   cp_maximum_packet_size = size_max, cp_topic_alias_maximum = None,
                   cp_request_response_information = rr, cp_request_problem_information = rp,
                   cp_authentication_method = None, cp_authentication_data = None, cp_user_properties = kvs\<rparr>"
    and ranges: "0 \<le> expiry" "expiry \<le> MAX_SESSION_EXPIRY_INTERVAL" "in_range 1 rmax MAX_RECEIVE_MAXIMUM"
      "in_range 1 size_max MAX_PACKET_SIZE"
    by (auto elim: built_properties)
  have pairs: "\<exists>bs. encode_prop USER_PROPERTY (PPairs kvs) = Inr bs"
    using rconcat_total [of kvs "encode_user_pair USER_PROPERTY"] user_pair_encodes validated_pairs(2) [OF kvs]
    by (simp add: encode_prop_def wire_type_defs)
  show ?thesis
    unfolding encode_props_def block_dict_eq [OF connect_items_ok]
  proof (rule rconcat_total)
    fix x assume in_dict: "x \<in> set (present (connect_items p) @ up_dict (cp_user_properties p))"
    obtain pid v where x: "x = (pid, v)" by (cases x)
    show "\<exists>b. (case x of (pid, v) \<Rightarrow> encode_prop pid v) = Inr b"
      using in_dict ranges pairs option_prop_encodes
      by (auto simp: x p present_member map_option_eq_Some [THEN trans [OF eq_commute]] connect_items_def up_dict_def
          split: if_splits)
  qed
qed

lemma init_options:
  assumes "MQTTClient_init opts = Inr cfg"
  shows "client_options.truncate cfg = client_options.truncate opts"
    and "build_connect_properties (opt_version opts) (opt_session_expiry_interval opts)
           (opt_receive_maximum opts) (opt_maximum_packet_size opts) (opt_user_properties opts)
           (opt_request_response_information opts) (opt_request_problem_information opts)
         = Inr (cfg_connect_properties cfg)"
  using assms
  by (auto simp: MQTTClient_init_def client_options.defs client_config.defs split: if_splits sum.splits)

section \<open>Requests\<close>

lemma hex_digit_inj: "hex_digit a = hex_digit b \<Longrightarrow> a < 16 \<Longrightarrow> b < 16 \<Longrightarrow> a = b"
  by (auto simp: hex_digit_def split: if_splits)

lemma hex_Cons: "hex (b # bs) = hex_digit (unat b div 16) # hex_digit (unat b mod 16) # hex bs"
  by (simp add: hex_def)

lemma hex_digit_range: "d < 16 \<Longrightarrow> hex_digit d \<in> {48..57} \<union> {97..102}"
  by (auto simp: hex_digit_def)

lemma byte_nibbles: "unat (b :: 8 word) div 16 < 16" "unat (b :: 8 word) mod 16 < 16"
  using unat_byte_lt [of b] by linarith+

lemma hex_chars: "c \<in> set (hex bs) \<Longrightarrow> c \<in> {48..57} \<union> {97..102}"
proof (induction bs)
  case (Cons b bs)
  then show ?case using hex_digit_range [OF byte_nibbles(1) [of b]] hex_digit_range [OF byte_nibbles(2) [of b]]
    by (auto simp: hex_Cons)
qed (simp add: hex_def)

lemma hex_inj: "hex as = hex bs \<Longrightarrow> as = bs"
proof (induction as arbitrary: bs)
  case Nil
  then show ?case by (cases bs) (simp_all add: hex_def)
next
  case (Cons a as)
  then obtain b bs' where bs: "bs = b # bs'" by (cases bs) (simp_all add: hex_def)
  have "unat a div 16 = unat b div 16" "unat a mod 16 = unat b mod 16"
    using Cons.prems bs by (auto simp: hex_Cons intro!: hex_digit_inj byte_nibbles)
  then have "unat a = unat b" by (metis div_mult_mod_eq)
  then have "a = b" by (metis mk_byte_unat)
  with Cons bs show ?case by (simp add: hex_Cons)
qed

lemma reply_topic_valid: "validate_publish (str_lit ''_zmqtt/reply/'' @ hex bs) = Inr ()"
proof -
  have "c \<noteq> HASH \<and> c \<noteq> PLUS \<and> c \<noteq> DOLLAR" if "c \<in> set (hex bs)" for c using hex_chars [OF that] by auto
  then show ?thesis by (auto simp: validate_publish_def str_lit_def)
qed

lemma request_properties_cases:
  assumes "request_properties v props r1 r2 = Inr (topic, corr, sent)"
  shows "v = V50" and "validate_publish topic = Inr ()"
    and "topic = (case Option.bind props pp_response_topic of None \<Rightarrow> str_lit ''_zmqtt/reply/'' @ hex r1 | Some t \<Rightarrow> t)"
    and "corr = (case Option.bind props pp_correlation_data of None \<Rightarrow> r2 | Some c \<Rightarrow> c)"
    and "sent = (case props of None \<Rightarrow> empty_publish_properties | Some p \<Rightarrow> p)
                  \<lparr>pp_response_topic := Some topic, pp_correlation_data := Some corr\<rparr>"
  using assms reply_topic_valid
  by (auto simp: request_properties_def validate_response_topic_def split: if_splits option.splits sum.splits)

section \<open>Results of an unsubscribe\<close>

lemma update_all:
  assumes "map_of (fold (\<lambda>(f, code) d. if P code then AList.update f code d else d) l d) f = Some c"
  shows "(f, c) \<in> set l \<and> P c \<or> map_of d f = Some c"
  using assms
proof (induction l arbitrary: d)
  case (Cons x l)
  obtain g code where x: "x = (g, code)" by (cases x)
  define d' where "d' = (if P code then AList.update g code d else d)"
  have "map_of d' f = Some c \<Longrightarrow> map_of d f = Some c \<or> (f, c) = x \<and> P c"
    by (auto simp: d'_def x update_conv' split: if_splits)
  with Cons.IH [of d'] Cons.prems show ?case by (auto simp: x d'_def)
qed simp

lemma failures_sound:
  assumes "map_of (failures r) f = Some code"
  shows "(f, code) \<in> set (zip (ur_topic_filters r) (ur_reason_codes r))" and "code \<ge> 0x80"
  using update_all [OF assms [unfolded failures_def]] by (simp_all add: UNSUBACK_REJECTION_THRESHOLD_def)

lemma failures_v311: "ur_reason_codes r = [] \<Longrightarrow> failures r = []"
  by (simp add: failures_def)

section \<open>Properties\<close>

text \<open>
  C16: accepted options reach the broker.  When the constructor accepts the options of an MQTT 5.0 client,
  the CONNECT properties hold exactly these values, every one of them can be encoded, and the broker
  decodes the block to the same values; only a block longer than a property block may be is left
  unchecked by the constructor.  A client of MQTT 3.1.1 that was accepted sends no properties; its
  \<open>session_expiry_interval\<close> is ignored, as documented, and it was given none of the other five options.
\<close>

theorem connect_options_sent:
  assumes "MQTTClient_init opts = Inr cfg"
  shows "if opt_version opts = V50 then
      \<exists>p raw. cfg_connect_properties cfg = Some p
        \<and> cp_session_expiry_interval p = Some (opt_session_expiry_interval opts)
        \<and> cp_receive_maximum p = opt_receive_maximum opts
        \<and> cp_maximum_packet_size p = opt_maximum_packet_size opts
        \<and> cp_request_response_information p = opt_request_response_information opts
        \<and> cp_request_problem_information p = opt_request_problem_information opts
        \<and> map (\<lambda>(name, val). PyTuple [PyStr name, PyStr val]) (cp_user_properties p) = opt_user_properties opts
        \<and> encode_props (block_dict (connect_items p) (cp_user_properties p)) = Inr raw
        \<and> (int (length raw) \<le> MAX_MQTT_VARINT \<longrightarrow>
             (\<exists>bs. encode_connect_properties (Some p) = Inr bs
                \<and> (\<forall>rest. decode_connect_properties (bs @ rest) 0 = Inr (Some p, length bs))))
    else cfg_connect_properties cfg = None \<and> opt_receive_maximum opts = None \<and> opt_maximum_packet_size opts = None
      \<and> opt_user_properties opts = [] \<and> opt_request_response_information opts = None
      \<and> opt_request_problem_information opts = None"
proof (cases "opt_version opts = V50")
  case True
  note built = init_options(2) [OF assms, unfolded True]
  obtain p where cfg: "cfg_connect_properties cfg = Some p"
    and fields: "cp_session_expiry_interval p = Some (opt_session_expiry_interval opts)"
      "cp_receive_maximum p = opt_receive_maximum opts" "cp_maximum_packet_size p = opt_maximum_packet_size opts"
      "cp_request_response_information p = opt_request_response_information opts"
      "cp_request_problem_information p = opt_request_problem_information opts"
      "map (\<lambda>(name, val). PyTuple [PyStr name, PyStr val]) (cp_user_properties p) = opt_user_properties opts"
    by (rule built_properties [OF built]) (use validated_pairs(1) in fastforce)
  obtain raw where raw: "encode_props (block_dict (connect_items p) (cp_user_properties p)) = Inr raw"
    using built_properties_encode [OF built [unfolded cfg]] by blast
  have "\<exists>bs. encode_connect_properties (Some p) = Inr bs
      \<and> (\<forall>rest. decode_connect_properties (bs @ rest) 0 = Inr (Some p, length bs))"
    if fits: "int (length raw) \<le> MAX_MQTT_VARINT"
  proof -
    have "block_dict (connect_items p) (cp_user_properties p) \<noteq> []"
      using fields(1) by (auto simp: connect_dict_Nil)
    with raw fits obtain bs where bs: "encode_connect_properties (Some p) = Inr bs"
      by (auto simp: encode_connect_properties_def encode_props_block_def encode_varint_def)
    with connect_props.dec_enc [OF bs, of 0] fields(1) show ?thesis by (auto simp: connect_props_seen_def)
  qed
  with cfg raw fields show ?thesis unfolding if_P [OF True] by blast
next
  case False
  with init_options(2) [OF assms] show ?thesis
    by (auto simp: build_connect_properties_def split: if_splits)
qed

definition example_options :: "client_options" where
  "example_options =
     \<lparr>opt_client_id = str_lit ''c'', opt_keepalive = 60, opt_clean_session = True, opt_username = None,
      opt_password = None, opt_will = None, opt_mqtt_connect_timeout = Finite 30, opt_version = V50,
      opt_session_expiry_interval = 0, opt_receive_maximum = Some 10, opt_maximum_packet_size = None,
      opt_user_properties = [PyTuple [PyStr (str_lit ''k''), PyStr (str_lit ''v'')]],
      opt_request_response_information = None, opt_request_problem_information = Some False,
      opt_stripped_prefixes = [], opt_max_pending_requests = 1000, opt_session_replay_buffer_size = 1000,
      opt_session_replay_timeout = Finite 30\<rparr>"

lemma example_options_accepted:
  obtains cfg where "MQTTClient_init example_options = Inr cfg"
proof -
  have e: "utf8_encode (str_lit ''k'') = Inr [107]" "utf8_encode (str_lit ''v'') = Inr [118]" by code_simp+
  have "validate_user_string (str_lit ''k'') = Inr ()" "validate_user_string (str_lit ''v'') = Inr ()"
    unfolding validate_user_string_def e by (simp_all add: MAX_STRING_BYTES_def str_lit_def)
  then have "\<exists>cfg. MQTTClient_init example_options = Inr cfg"
    by (simp add: MQTTClient_init_def example_options_def build_connect_properties_def RequestDispatcher_init_def
        MAX_SESSION_EXPIRY_INTERVAL_def MAX_RECEIVE_MAXIMUM_def)
  with that show ?thesis by blast
qed

theorem connect_options_sent_witness:
  "\<exists>cfg p. MQTTClient_init example_options = Inr cfg \<and> cfg_connect_properties cfg = Some p
     \<and> cp_receive_maximum p = Some 10 \<and> cp_request_problem_information p = Some False"
proof (rule example_options_accepted)
  fix cfg assume "MQTTClient_init example_options = Inr cfg"
  with connect_options_sent [OF this] show ?thesis by (auto simp: example_options_def)
qed

lemma registered_waits:
  assumes "register_begin topic corr d = Inr (r, t, d')"
  shows "map_of (rd_pending d') (topic, corr) = Some r"
    and "pr_future (rd_requests d' r) = FPending" and "\<not> pr_claimed (rd_requests d' r)"
proof -
  obtain i d1 where ti: "topic_interest topic (d\<lparr>rd_capacity := rd_capacity d - 1\<rparr>) = (i, d1)" by fastforce
  obtain r2 d2 where aw: "add_waiter (topic, corr) i d1 = (r2, d2)" by fastforce
  from assms obtain d3 where tr: "ensure_topic_ready i d2 = Inr (t, d3)" "r = r2" "d' = d3"
    by (auto simp: register_begin_def ti aw Let_def)
  have "rd_pending d3 = rd_pending d2" "rd_requests d3 = rd_requests d2"
    using tr(1) by (auto simp: ensure_topic_ready_def Let_def split: option.splits)
  moreover have "map_of (rd_pending d2) (topic, corr) = Some r2" "pr_future (rd_requests d2 r2) = FPending"
    "\<not> pr_claimed (rd_requests d2 r2)"
    using aw by (auto simp: add_waiter_def Let_def update_conv')
  ultimately show "map_of (rd_pending d') (topic, corr) = Some r" "pr_future (rd_requests d' r) = FPending"
    "\<not> pr_claimed (rd_requests d' r)" using tr by simp_all
qed

lemma waiting_answered:
  assumes "map_of (rd_pending d) (msg_topic m, corr) = Some r" and "pr_future (rd_requests d r) = FPending"
    and "\<not> pr_claimed (rd_requests d r)" and "msg_properties m = Some mp" and "pp_correlation_data mp = Some corr"
  shows "\<exists>c d'. claim m d = (Some c, d') \<and> cr_pending c = r \<and> pr_future (rd_requests (Request_Response.complete c d') r) = FResult m"
  using assms by (simp add: claim_def Request_Response.complete_def Let_def)

text \<open>
  C17: a request can be answered.  The reply topic that \<open>request\<close> sends is the given one or a generated
  one, and it is a valid topic to publish to; every property but this topic and the correlation data
  stays as given.  Once the request is registered, any message on this topic with this correlation
  data is claimed for it and completes it.  Generated topics of different random bytes differ.
\<close>

theorem request_answered:
  assumes "request_begin v props r1 r2 d = Inr (sent, r, t, d')"
  shows "\<exists>topic corr. v = V50 \<and> validate_publish topic = Inr ()
    \<and> pp_response_topic sent = Some topic \<and> pp_correlation_data sent = Some corr
    \<and> (\<forall>p. props = Some p \<longrightarrow>
         (sent = p\<lparr>pp_response_topic := Some topic, pp_correlation_data := Some corr\<rparr>
          \<and> (pp_response_topic p \<noteq> None \<longrightarrow> pp_response_topic p = Some topic)
          \<and> (pp_correlation_data p \<noteq> None \<longrightarrow> pp_correlation_data p = Some corr)))
    \<and> (\<forall>m mp. msg_topic m = topic \<and> msg_properties m = Some mp \<and> pp_correlation_data mp = Some corr \<longrightarrow>
         (\<exists>c d''. claim m d' = (Some c, d'') \<and> cr_pending c = r \<and> pr_future (rd_requests (Request_Response.complete c d'') r) = FResult m))
    \<and> (\<forall>r1' r2' topic' corr' sent'. request_properties v None r1' r2' = Inr (topic', corr', sent') \<longrightarrow>
         (Option.bind props pp_response_topic = None \<longrightarrow> (topic = topic' \<longleftrightarrow> r1 = r1')))"
proof -
  from assms obtain topic corr where rp: "request_properties v props r1 r2 = Inr (topic, corr, sent)"
    and reg: "register_begin topic corr d = Inr (r, t, d')"
    by (auto simp: request_begin_def split: sum.splits prod.splits)
  note q = request_properties_cases [OF rp]
  have distinct: "topic = topic' \<longleftrightarrow> r1 = r1'"
    if "request_properties v None r1' r2' = Inr (topic', corr', sent')" and "Option.bind props pp_response_topic = None"
    for r1' r2' topic' corr' sent'
    using request_properties_cases(3) [OF that(1)] q(3) that(2) hex_inj by auto
  have answered: "\<exists>c d''. claim m d' = (Some c, d'') \<and> cr_pending c = r \<and> pr_future (rd_requests (Request_Response.complete c d'') r) = FResult m"
    if "msg_topic m = topic \<and> msg_properties m = Some mp \<and> pp_correlation_data mp = Some corr" for m mp
    using waiting_answered [of d' m corr r mp] registered_waits [OF reg] that by blast
  show ?thesis
    by (intro exI [of _ topic] exI [of _ corr] conjI allI impI) (use q distinct answered in auto)
qed

theorem request_answered_witness:
  "\<exists>sent r t d'. request_begin V50 None [1] [2] sample_dispatcher = Inr (sent, r, t, d')
     \<and> pp_response_topic sent = Some (str_lit ''_zmqtt/reply/01'') \<and> pp_correlation_data sent = Some [2]"
proof -
  have t: "str_lit ''_zmqtt/reply/'' @ hex [1] = str_lit ''_zmqtt/reply/01''" by code_simp
  have rp: "\<exists>sent. request_properties V50 None [1] [2] = Inr (str_lit ''_zmqtt/reply/01'', [2], sent)"
    by (simp add: request_properties_def Let_def t del: append.simps)
  have "\<exists>r t d'. register_begin (str_lit ''_zmqtt/reply/01'') [2] sample_dispatcher = Inr (r, t, d')"
    by (simp add: sample_dispatcher_def register_begin_def bind_def ensure_unique_def require_protocol_def
        topic_interest_def add_waiter_def ensure_topic_ready_def blank_interest_def Let_def)
  with rp obtain sent r t d' where b: "request_begin V50 None [1] [2] sample_dispatcher = Inr (sent, r, t, d')"
    and s: "request_properties V50 None [1] [2] = Inr (str_lit ''_zmqtt/reply/01'', [2], sent)"
    by (auto simp: request_begin_def)
  from request_answered [OF b] request_properties_cases(5) [OF s] b show ?thesis by auto
qed

section \<open>Options of \<open>create_client\<close>\<close>

text \<open>The prefixes that were asked for make no difference.\<close>

lemma create_client_prefixes:
  "create_client (opts\<lparr>opt_stripped_prefixes := ps\<rparr>) = create_client opts"
  "create_client opts = Inr cfg \<Longrightarrow> opt_stripped_prefixes cfg = DEFAULT_STRIPPED_PREFIXES"
  using init_options(1) [of "opts\<lparr>opt_stripped_prefixes := DEFAULT_STRIPPED_PREFIXES\<rparr>" cfg]
  by (auto simp: create_client_def client_options.defs)

end
