(* ===== verification/Client_Run.thy ===== *)
theory Client_Run
  imports Subscribing Client_Options
begin

text \<open>
  The life of a client (\<open>MQTTClient\<close> of \<open>client.py\<close>): \<open>_connect\<close>, the attempts and delays of
  \<open>_connect_with_retry\<close>, \<open>_run_loop\<close> with the recovery of a lost connection and the renewal of the
  subscriptions, \<open>__aenter__\<close>, \<open>__aexit__\<close>, and what they tell the application: \<open>connection_info\<close>,
  \<open>on_connection_recovery_failed\<close> and the failure that ends the waiting in \<open>get_message\<close>.

  Delays are values of any linear order with a multiplication \<open>mul\<close>, so that nothing depends on how
  floats round.  What an attempt meets is input: the transport factory raises, or opens a transport with
  the outcome of its writes and what can be read from it.  The dispatcher, the queues and the flags
  of the entries are objects that outlive a connection; while there is a protocol it holds them.  The
  \<open>i\<close>-th \<open>Subscription\<close> the application makes has the reference \<open>i\<close>, and its queue too.
\<close>

section \<open>State\<close>

record 'd ReconnectConfig =
  rc_enabled :: bool
  rc_initial_delay :: 'd
  rc_max_delay :: 'd
  rc_backoff_factor :: 'd
  rc_max_attempts :: "int option"

record sub_object = Subscription +
  so_registered_filters :: "pystr list"
  so_detached :: bool

text \<open>
  Where the client is.  \<open>Trying\<close> and \<open>Sleeping\<close> are inside \<open>_connect_with_retry\<close>, called by \<open>__aenter__\<close> or
  (with True) by the run loop, with the next delay and the number of failed attempts; \<open>Restoring\<close> and
  \<open>Resubscribing\<close> renew the subscriptions of a new connection.
\<close>

datatype 'd phase =
    Idle
  | Trying bool 'd int
  | Sleeping bool 'd 'd int
  | Restoring "nat list"
  | Resubscribing "nat list" operation "(pystr \<times> SubscriptionEntry) list"
  | Running
  | Ended "client_error option"

text \<open>
  \<open>cl_signal\<close> is the future \<open>_subscription_failure\<close>, an object known by its number: every \<open>__aenter__\<close> that
  succeeds makes a new one, and \<open>cl_failures\<close> holds their results.  \<open>cl_callback\<close> is what the next call of
  \<open>on_connection_recovery_failed\<close> raises, if it raises.  The last three fields record what happened: the
  calls of \<open>on_connection_recovery_failed\<close> in this run, the transports that were let go, in the state
  they were left in, and the snapshots of all successful handshakes.
\<close>

record 'd client =
  cl_config :: client_config
  cl_reconnect :: "'d ReconnectConfig"
  cl_connection_info :: "ConnectionInfo option"
  cl_connection_id :: int
  cl_protocol :: "protocol option"
  cl_dispatcher :: RequestDispatcher
  cl_queues :: "nat \<Rightarrow> QueuedMessage list"
  cl_detached_entries :: "nat set"
  cl_objects :: "nat \<Rightarrow> sub_object"
  cl_subscriptions :: "nat list"
  cl_detached_filters :: "(pystr \<times> SubscriptionEntry) list"
  cl_signal :: "nat option"
  cl_failures :: "nat \<Rightarrow> client_error option"
  cl_next_signal :: nat
  cl_callback :: "client_error option"
  cl_phase :: "'d phase"
  cl_to_restore :: "nat list"
  cl_recovery_failed :: nat
  cl_abandoned :: "StreamTransport list"
  cl_history :: "ConnectionInfo list"

definition client_init :: "client_config \<Rightarrow> 'd ReconnectConfig \<Rightarrow> (nat \<Rightarrow> sub_object) \<Rightarrow> 'd client" where
  "client_init cfg rc objects =
     \<lparr>cl_config = cfg, cl_reconnect = rc, cl_connection_info = None, cl_connection_id = 0, cl_protocol = None,
      cl_dispatcher = cfg_request_dispatcher cfg, cl_queues = \<lambda>_. [], cl_detached_entries = {},
      cl_objects = objects, cl_subscriptions = [], cl_detached_filters = [], cl_signal = None, cl_failures = \<lambda>_. None,
      cl_next_signal = 0, cl_callback = None, cl_phase = Idle,
      cl_to_restore = [], cl_recovery_failed = 0, cl_abandoned = [], cl_history = []\<rparr>"

definition connection_info :: "'d client \<Rightarrow> client_error + ConnectionInfo" where
  "connection_info c =
     (case cl_connection_info c of
        None \<Rightarrow> Inl (Client_MQTT_Error (Outbound.MQTTDisconnectedError ''No active connection information''))
      | Some info \<Rightarrow> Inr info)"

section \<open>One attempt\<close>

text \<open>
  The factory raises (or is cancelled); or it opens a transport and the handshake runs on it to its end;
  or the task is cancelled while the handshake waits, after these reads.
\<close>

datatype attempt =
    FactoryRaises client_error
  | Opened stream_write "stream_read list"
  | HandshakeCancelled stream_write "stream_read list"

abbreviation cancelled_error :: client_error where
  "cancelled_error \<equiv> Client_MQTT_Error CancelledError"

fun attempt_cancelled :: "attempt \<Rightarrow> bool" where
  "attempt_cancelled (FactoryRaises e) = (e = cancelled_error)"
| "attempt_cancelled (Opened w reads) = False"
| "attempt_cancelled (HandshakeCancelled w reads) = True"

definition current_dispatcher :: "'d client \<Rightarrow> RequestDispatcher" where
  "current_dispatcher c =
     (case Option.bind (cl_protocol c) (\<lambda>p. ib_router (pr_in p)) of None \<Rightarrow> cl_dispatcher c | Some d \<Rightarrow> d)"

definition current_queues :: "'d client \<Rightarrow> nat \<Rightarrow> QueuedMessage list" where
  "current_queues c = (case cl_protocol c of None \<Rightarrow> cl_queues c | Some p \<Rightarrow> ib_queues (pr_in p))"

definition current_flags :: "'d client \<Rightarrow> nat set" where
  "current_flags c = (case cl_protocol c of None \<Rightarrow> cl_detached_entries c | Some p \<Rightarrow> ib_detached (pr_in p))"

text \<open>\<open>asyncio.Queue(n)\<close> is unbounded for \<open>n\<close> at most 0, which the inbound flow writes as the bound 0.\<close>

definition new_protocol :: "'d client \<Rightarrow> protocol" where
  "new_protocol c =
     (let p = client_protocol (cl_config c) (current_dispatcher c)
                (\<lambda>i. nat (su_receive_buffer_size (cl_objects c i)))
      in p\<lparr>pr_in := (pr_in p)\<lparr>ib_queues := current_queues c, ib_detached := current_flags c\<rparr>\<rparr>)"

definition handshake_raised :: "mqtt_error option \<Rightarrow> client_error" where
  "handshake_raised e = (case e of None \<Rightarrow> Client_BufferError | Some e \<Rightarrow> Client_MQTT_Error e)"

text \<open>
  \<open>_connect\<close>, with what is left to read behind the CONNACK.  The password is encoded after the transport
  is open and outside the \<open>try\<close> that closes it.
\<close>

definition client_connect :: "attempt \<Rightarrow> 'd client \<Rightarrow> (client_error + stream_read list) \<times> 'd client" where
  "client_connect att c =
     (case att of
        FactoryRaises e \<Rightarrow> (Inl e, c)
      | Opened w reads \<Rightarrow>
     (case connect_packet (cl_config c) of
        Inl e \<Rightarrow> (Inl e, c\<lparr>cl_abandoned := StreamTransport_init # cl_abandoned c\<rparr>)
      | Inr packet \<Rightarrow>
     (case connect packet w reads (new_protocol c) of
        (Inl e, rest, p) \<Rightarrow>
          (Inl (handshake_raised e), c\<lparr>cl_abandoned := transport_close (pr_transport p) # cl_abandoned c\<rparr>)
      | (Inr connack, rest, p) \<Rightarrow>
          let info = from_connack packet connack (opt_version (cl_config c)) (cl_connection_id c + 1);
              p = restore_detached (cl_detached_filters c) p;
              p = p\<lparr>pr_in := (pr_in p)\<lparr>ib_router := map_option (bind (nat (ci_connection_id info))) (ib_router (pr_in p))\<rparr>\<rparr>
          in (Inr rest,
              c\<lparr>cl_abandoned := (case cl_protocol c of None \<Rightarrow> [] | Some old \<Rightarrow> [pr_transport old]) @ cl_abandoned c,
                cl_protocol := Some p, cl_connection_info := Some info,
                cl_connection_id := ci_connection_id info, cl_history := cl_history c @ [info]\<rparr>)))
      | HandshakeCancelled w reads \<Rightarrow>
     (case connect_packet (cl_config c) of
        Inl e \<Rightarrow> (Inl e, c\<lparr>cl_abandoned := StreamTransport_init # cl_abandoned c\<rparr>)
      | Inr packet \<Rightarrow>
     (case connect packet w reads (new_protocol c) of (res, rest, p) \<Rightarrow>
        (Inl cancelled_error, c\<lparr>cl_abandoned := transport_close (pr_transport p) # cl_abandoned c\<rparr>))))"

section \<open>Attempts and delays\<close>

definition is_connect_error :: "client_error \<Rightarrow> bool" where
  "is_connect_error e = (case e of Client_MQTT_Error (MQTTConnectError code props) \<Rightarrow> True | _ \<Rightarrow> False)"

definition is_timeout_or_os_error :: "client_error \<Rightarrow> bool" where
  "is_timeout_or_os_error e =
     (case e of Client_OSError \<Rightarrow> True | Client_MQTT_Error (MQTTTimeoutError msg) \<Rightarrow> True | _ \<Rightarrow> False)"

definition is_disconnected_error :: "client_error \<Rightarrow> bool" where
  "is_disconnected_error e =
     (case e of Client_MQTT_Error (Outbound.MQTTDisconnectedError msg) \<Rightarrow> True | _ \<Rightarrow> False)"

datatype retry_outcome = Connected "stream_read list" | GaveUp client_error | Again

text \<open>The body of the loop of \<open>_connect_with_retry\<close> up to its sleep, after \<open>attempt\<close> failures.\<close>

definition connect_once :: "int \<Rightarrow> attempt \<Rightarrow> 'd client \<Rightarrow> retry_outcome \<times> 'd client" where
  "connect_once attempt att c =
     (case client_connect att c of
        (Inr reads, c') \<Rightarrow> (Connected reads, c')
      | (Inl e, c') \<Rightarrow>
          if is_connect_error e then (GaveUp e, c')
          else if is_timeout_or_os_error e then
            let attempt = attempt + 1; max_a = rc_max_attempts (cl_reconnect c) in
            if \<not> rc_enabled (cl_reconnect c) \<or> (case max_a of None \<Rightarrow> False | Some m \<Rightarrow> attempt \<ge> m)
            then (GaveUp e, c') else (Again, c')
          else (GaveUp e, c'))"

definition next_delay :: "('d :: linorder \<Rightarrow> 'd \<Rightarrow> 'd) \<Rightarrow> 'd ReconnectConfig \<Rightarrow> 'd \<Rightarrow> 'd" where
  "next_delay mul rc delay = min (mul delay (rc_backoff_factor rc)) (rc_max_delay rc)"

text \<open>
  The loop on what successive attempts meet, with the delays slept; None when it wants another attempt.
\<close>

fun retry_loop ::
  "('d :: linorder \<Rightarrow> 'd \<Rightarrow> 'd) \<Rightarrow> 'd \<Rightarrow> int \<Rightarrow> attempt list \<Rightarrow> 'd client
     \<Rightarrow> (client_error + stream_read list) option \<times> 'd list \<times> 'd client" where
  "retry_loop mul delay attempt [] c = (None, [], c)"
| "retry_loop mul delay attempt (att # atts) c =
     (case connect_once attempt att c of
        (Connected reads, c') \<Rightarrow> (Some (Inr reads), [], c')
      | (GaveUp e, c') \<Rightarrow> (Some (Inl e), [], c')
      | (Again, c') \<Rightarrow>
          (case retry_loop mul (next_delay mul (cl_reconnect c) delay) (attempt + 1) atts c' of
             (res, slept, c'') \<Rightarrow> (res, delay # slept, c'')))"

definition connect_with_retry ::
  "('d :: linorder \<Rightarrow> 'd \<Rightarrow> 'd) \<Rightarrow> bool \<Rightarrow> attempt list \<Rightarrow> 'd client
     \<Rightarrow> (client_error + stream_read list) option \<times> 'd list \<times> 'd client" where
  "connect_with_retry mul wait_before_first_attempt atts c =
     (let delay = rc_initial_delay (cl_reconnect c) in
      if wait_before_first_attempt
      then (case retry_loop mul (next_delay mul (cl_reconnect c) delay) 0 atts c of
              (res, slept, c') \<Rightarrow> (res, delay # slept, c'))
      else retry_loop mul delay 0 atts c)"

section \<open>The run loop\<close>

definition notify_connection_recovery_failed :: "'d client \<Rightarrow> 'd client" where
  "notify_connection_recovery_failed c = c\<lparr>cl_recovery_failed := cl_recovery_failed c + 1\<rparr>"

text \<open>
  What ends the run loop when the recovery has failed with \<open>e\<close>: the callback is awaited before \<open>raise\<close>,
  so an exception of its own takes the place of \<open>e\<close>.  The call is one step.
\<close>

definition recovery_error :: "client_error \<Rightarrow> 'd client \<Rightarrow> client_error" where
  "recovery_error e c = (case cl_callback c of None \<Rightarrow> e | Some x \<Rightarrow> x)"

text \<open>The run task ends with an exception, or without: its callback \<open>_notify_subscription_failure\<close>.\<close>

definition notify_subscription_failure :: "client_error option \<Rightarrow> 'd client \<Rightarrow> 'd client" where
  "notify_subscription_failure failure c =
     (let c = c\<lparr>cl_connection_info := None, cl_phase := Ended failure\<rparr> in
      case (failure, cl_signal c) of
        (Some e, Some n) \<Rightarrow> if cl_failures c n = None then c\<lparr>cl_failures := (cl_failures c)(n := Some e)\<rparr> else c
      | _ \<Rightarrow> c)"

text \<open>The \<open>finally\<close> of the loop: cancelling the task of \<open>protocol.run\<close> ends it, unless it has ended.\<close>

definition stop_protocol :: "protocol \<Rightarrow> protocol" where
  "stop_protocol p = (if ob_dead (pr_out p) then p else run_finally None p)"

text \<open>An exception inside the \<open>try\<close> of the loop.\<close>

definition loop_raised :: "('d :: linorder \<Rightarrow> 'd \<Rightarrow> 'd) \<Rightarrow> client_error \<Rightarrow> 'd client \<Rightarrow> 'd client" where
  "loop_raised mul e c =
     (let rc = cl_reconnect c; c = c\<lparr>cl_connection_info := None\<rparr> in
      if is_disconnected_error e \<or> is_timeout_or_os_error e then
        if \<not> rc_enabled rc
        then notify_subscription_failure (Some (recovery_error e c))
               (notify_connection_recovery_failed (c\<lparr>cl_protocol := map_option stop_protocol (cl_protocol c)\<rparr>))
        else c\<lparr>cl_protocol :=
                  map_option (\<lambda>p. stop_protocol (p\<lparr>pr_transport := transport_close (pr_transport p)\<rparr>)) (cl_protocol c),
                cl_to_restore := cl_subscriptions c,
                cl_phase := Sleeping True (rc_initial_delay rc) (next_delay mul rc (rc_initial_delay rc)) 0\<rparr>
      else notify_subscription_failure (Some e) (c\<lparr>cl_protocol := map_option stop_protocol (cl_protocol c)\<rparr>))"

text \<open>
  What follows an attempt: \<open>__aenter__\<close> starts the run loop or raises, the run loop goes on with the
  new connection or gives the recovery up.
\<close>

definition after_attempt ::
  "('d :: linorder \<Rightarrow> 'd \<Rightarrow> 'd) \<Rightarrow> bool \<Rightarrow> 'd \<Rightarrow> int \<Rightarrow> retry_outcome \<Rightarrow> 'd client \<Rightarrow> 'd client" where
  "after_attempt mul recovering delay attempt out c =
     (case out of
        Again \<Rightarrow> c\<lparr>cl_phase := Sleeping recovering delay (next_delay mul (cl_reconnect c) delay) (attempt + 1)\<rparr>
      | Connected reads \<Rightarrow>
          if recovering then c\<lparr>cl_phase := Restoring (cl_to_restore c)\<rparr>
          else c\<lparr>cl_phase := Restoring [], cl_signal := Some (cl_next_signal c),
                 cl_failures := (cl_failures c)(cl_next_signal c := None),
                 cl_next_signal := cl_next_signal c + 1, cl_recovery_failed := 0\<rparr>
      | GaveUp e \<Rightarrow>
          if \<not> recovering then c\<lparr>cl_phase := Idle\<rparr>
          else if is_connect_error e \<or> is_timeout_or_os_error e
          then notify_subscription_failure (Some (recovery_error e c)) (notify_connection_recovery_failed c)
          else notify_subscription_failure (Some e) c)"

text \<open>\<open>_reconnect\<close> of the next subscription, up to its wait and behind it.\<close>

definition reconnect_begin :: "('d :: linorder \<Rightarrow> 'd \<Rightarrow> 'd) \<Rightarrow> nat \<Rightarrow> nat list \<Rightarrow> nat \<Rightarrow> protocol \<Rightarrow> 'd client \<Rightarrow> 'd client" where
  "reconnect_begin mul i is ref p c =
     (let sub = cl_objects c i in
      if so_detached sub then c\<lparr>cl_phase := Restoring is\<rparr>
      else case subscribe_begin (subscription_requests (Subscription.truncate sub)) (su_auto_ack sub) i
                  (su_subscription_identifier sub) ref p of
             (Inl e, p') \<Rightarrow> loop_raised mul (Client_MQTT_Error e) (c\<lparr>cl_protocol := Some p'\<rparr>)
           | (Inr (act, es), p') \<Rightarrow> c\<lparr>cl_protocol := Some p', cl_phase := Resubscribing (i # is) act es\<rparr>)"

definition set_registered :: "nat \<Rightarrow> pystr list \<Rightarrow> 'd client \<Rightarrow> 'd client" where
  "set_registered i fs c =
     c\<lparr>cl_objects := (cl_objects c)(i := (cl_objects c i)\<lparr>so_registered_filters := fs\<rparr>)\<rparr>"

definition reconnect_end ::
  "('d :: linorder \<Rightarrow> 'd \<Rightarrow> 'd) \<Rightarrow> nat \<Rightarrow> nat list \<Rightarrow> mqtt_error + packet \<times> (pystr \<times> nat) list \<Rightarrow> protocol \<Rightarrow> 'd client \<Rightarrow> 'd client" where
  "reconnect_end mul i is res p' c =
     (case res of
        Inl e \<Rightarrow> loop_raised mul (Client_MQTT_Error e) (c\<lparr>cl_protocol := Some p'\<rparr>)
      | Inr (suback, queues) \<Rightarrow>
          set_registered i (map fst queues) (c\<lparr>cl_protocol := Some p', cl_phase := Restoring is\<rparr>))"

text \<open>\<open>__aexit__\<close> with the outcome of the last write.\<close>

definition client_disconnect :: "stream_write \<Rightarrow> 'd client \<Rightarrow> 'd client" where
  "client_disconnect w c =
     (let c = c\<lparr>cl_connection_info := None, cl_phase := Idle\<rparr>;
          dispatcher = cancel_pending (current_dispatcher c)
      in case cl_protocol c of
           None \<Rightarrow> c\<lparr>cl_dispatcher := dispatcher, cl_detached_filters := []\<rparr>
         | Some p \<Rightarrow>
             let p' = disconnect w (stop_protocol p) in
             c\<lparr>cl_dispatcher := dispatcher, cl_queues := ib_queues (pr_in p'), cl_detached_entries := ib_detached (pr_in p'),
               cl_protocol := None, cl_abandoned := pr_transport p' # cl_abandoned c, cl_detached_filters := []\<rparr>)"

section \<open>Subscriptions\<close>

text \<open>\<open>Subscription.__aenter__\<close>, up to the wait of its subscribe and behind it.\<close>

definition start_begin ::
  "nat \<Rightarrow> nat \<Rightarrow> 'd client \<Rightarrow> (client_error + operation \<times> (pystr \<times> SubscriptionEntry) list) \<times> 'd client" where
  "start_begin i ref c =
     (let sub = cl_objects c i in
      case cl_protocol c of
        None \<Rightarrow> (Inl not_connected, c)
      | Some p \<Rightarrow>
          if so_detached sub then (Inl (Client_RuntimeError ''A detached subscription cannot be restarted''), c)
          else
            let c = c\<lparr>cl_subscriptions := cl_subscriptions c @ [i]\<rparr> in
            (case subscribe_begin (subscription_requests (Subscription.truncate sub)) (su_auto_ack sub) i
                    (su_subscription_identifier sub) ref p of
               (Inl e, p') \<Rightarrow> (Inl (Client_MQTT_Error e), c\<lparr>cl_protocol := Some p'\<rparr>)
             | (Inr waiting, p') \<Rightarrow> (Inr waiting, c\<lparr>cl_protocol := Some p'\<rparr>)))"

definition start_end ::
  "nat \<Rightarrow> mqtt_error + packet \<times> (pystr \<times> nat) list \<Rightarrow> 'd client \<Rightarrow> client_error option \<times> 'd client" where
  "start_end i res c =
     (case res of
        Inl e \<Rightarrow> (Some (Client_MQTT_Error e), c)
      | Inr (suback, queues) \<Rightarrow> (None, set_registered i (map fst queues) c))"

text \<open>\<open>_stop\<close>: None when nothing was sent; a failed unsubscribe is logged and swallowed.\<close>

definition stop_begin :: "bool \<Rightarrow> nat \<Rightarrow> 'd client \<Rightarrow> unsubscribing option \<times> 'd client" where
  "stop_begin was_cancelled i c =
     (if i \<notin> set (cl_subscriptions c) then (None, c)
      else
        let c = c\<lparr>cl_subscriptions := remove1 i (cl_subscriptions c)\<rparr> in
        if was_cancelled \<or> so_registered_filters (cl_objects c i) = [] then (None, c)
        else case cl_protocol c of
               None \<Rightarrow> (None, c)
             | Some p \<Rightarrow>
                 (case unsubscribe_begin (so_registered_filters (cl_objects c i)) p of
                    (Inl e, p') \<Rightarrow> (None, c\<lparr>cl_protocol := Some p'\<rparr>)
                  | (Inr waiting, p') \<Rightarrow> (Some waiting, c\<lparr>cl_protocol := Some p'\<rparr>)))"

definition stop_end :: "mqtt_error + (pystr list \<times> packet) option \<Rightarrow> UnsubscribeResult option" where
  "stop_end sent =
     (case sent of
        Inr (Some (fs, UnsubAck unsuback)) \<Rightarrow> Some (from_unsuback fs unsuback)
      | _ \<Rightarrow> None)"

definition empty_queue :: "nat \<Rightarrow> 'd client \<Rightarrow> 'd client" where
  "empty_queue i c =
     (case cl_protocol c of
        None \<Rightarrow> c\<lparr>cl_queues := (cl_queues c)(i := [])\<rparr>
      | Some p \<Rightarrow> c\<lparr>cl_protocol := Some (p\<lparr>pr_in := (pr_in p)\<lparr>ib_queues := (ib_queues (pr_in p))(i := [])\<rparr>\<rparr>)\<rparr>)"

definition detach_local :: "nat \<Rightarrow> 'd client \<Rightarrow> 'd client" where
  "detach_local i c =
     (let c = c\<lparr>cl_objects := (cl_objects c)(i := (cl_objects c i)\<lparr>so_detached := True\<rparr>)\<rparr>;
          c = (case cl_protocol c of
                 None \<Rightarrow> c
               | Some p \<Rightarrow>
                   (case detach (so_registered_filters (cl_objects c i)) p of
                      (ds, p') \<Rightarrow>
                        c\<lparr>cl_protocol := Some p',
                          cl_detached_filters := fold (\<lambda>(f, entry). AList.update f entry) ds (cl_detached_filters c)\<rparr>))
      in empty_queue i c)"

definition subscription_detach :: "nat \<Rightarrow> 'd client \<Rightarrow> 'd client" where
  "subscription_detach i c =
     (if i \<notin> set (cl_subscriptions c) then c
      else detach_local i (c\<lparr>cl_subscriptions := remove1 i (cl_subscriptions c)\<rparr>))"




text \<open>\<open>_queue.get\<close>, and \<open>_notify_capacity_available\<close> after it.\<close>

definition take_message :: "nat \<Rightarrow> 'd client \<Rightarrow> (QueuedMessage \<times> 'd client) option" where
  "take_message i c =
     (case current_queues c i of
        [] \<Rightarrow> None
      | m # ms \<Rightarrow>
          Some (m, case cl_protocol c of
                     None \<Rightarrow> c\<lparr>cl_queues := (cl_queues c)(i := ms)\<rparr>
                   | Some p \<Rightarrow>
                       c\<lparr>cl_protocol := Some (p\<lparr>pr_in := (pr_in p)\<lparr>ib_queues := (ib_queues (pr_in p))(i := ms)\<rparr>\<rparr>)\<rparr>))"

definition notify_capacity_available :: "(Publish \<Rightarrow> bool) \<Rightarrow> 'd client \<Rightarrow> pstatus \<times> 'd client" where
  "notify_capacity_available fails c =
     (case cl_protocol c of
        None \<Rightarrow> (PDone, c)
      | Some p \<Rightarrow> (case subscribe_drain fails p of (st, p') \<Rightarrow> (st, c\<lparr>cl_protocol := Some p'\<rparr>)))"

section \<open>Interleavings\<close>

text \<open>
  What the tasks of a connection may do to the protocol between the steps of the client: its transport
  is never reopened, only a handshake sets the keepalive, and the flag \<open>detached\<close> of an entry is never reset.
\<close>

definition activity :: "protocol \<Rightarrow> protocol \<Rightarrow> bool" where
  "activity p p' \<longleftrightarrow>
     (tr_writer_closed (pr_transport p) \<longrightarrow> tr_writer_closed (pr_transport p'))
     \<and> pr_effective_keepalive p' = pr_effective_keepalive p
     \<and> ib_detached (pr_in p) \<subseteq> ib_detached (pr_in p')"

fun live :: "'d phase \<Rightarrow> bool" where
  "live (Restoring is) = True"
| "live (Resubscribing is act es) = True"
| "live Running = True"
| "live ph = False"

fun recovering :: "'d phase \<Rightarrow> bool" where
  "recovering (Trying rec delay n) = rec"
| "recovering (Sleeping rec slept delay n) = rec"
| "recovering ph = False"

fun connecting :: "'d phase \<Rightarrow> bool" where
  "connecting (Trying rec delay n) = (\<not> rec)"
| "connecting (Sleeping rec slept delay n) = (\<not> rec)"
| "connecting ph = False"

text \<open>
  \<open>disconnect\<close> may be called at any time but during \<open>connect\<close>, and \<open>connect\<close> before the first and after every
  \<open>disconnect\<close>.  \<open>connect\<close> may be cancelled while it sleeps, opens a transport or shakes hands; a \<open>disconnect\<close>
  during a recovery cancels it at its sleep or before its transport is open (\<open>disconnect\<close>) or in its
  handshake (\<open>disconnect_handshake\<close>).  \<open>MQTTConnectError\<close> comes from handshakes only.  The rules \<open>active\<close> and \<open>started\<close> allow more than the code
  does: what holds in every state that can be reached here holds of the code.
\<close>

inductive cstep :: "('d :: linorder \<Rightarrow> 'd \<Rightarrow> 'd) \<Rightarrow> 'd client \<Rightarrow> 'd client \<Rightarrow> bool" for mul where
  connect: "cl_phase c = Idle \<Longrightarrow>
    cstep mul c (c\<lparr>cl_phase := Trying False (rc_initial_delay (cl_reconnect c)) 0\<rparr>)"
| attempt: "cl_phase c = Trying rec delay n \<Longrightarrow> connect_once n att c = (out, c') \<Longrightarrow> (rec \<longrightarrow> \<not> attempt_cancelled att) \<Longrightarrow>
    cstep mul c (after_attempt mul rec delay n out c')"
| connect_cancelled: "cl_phase c = Sleeping False slept delay n \<Longrightarrow> cstep mul c (c\<lparr>cl_phase := Idle\<rparr>)"
| wake: "cl_phase c = Sleeping rec slept delay n \<Longrightarrow> cstep mul c (c\<lparr>cl_phase := Trying rec delay n\<rparr>)"
| reconnect: "cl_phase c = Restoring (i # is) \<Longrightarrow> cl_protocol c = Some p \<Longrightarrow>
    cstep mul c (reconnect_begin mul i is ref p c)"
| reconnected: "cl_phase c = Resubscribing (i # is) act es \<Longrightarrow> cl_protocol c = Some p \<Longrightarrow>
    subscribe_end act es p = Some (res, p') \<Longrightarrow> (\<forall>e. res = Inl e \<longrightarrow> \<not> is_connect_error (Client_MQTT_Error e)) \<Longrightarrow>
    cstep mul c (reconnect_end mul i is res p' c)"
| restored: "cl_phase c = Restoring [] \<Longrightarrow> cstep mul c (c\<lparr>cl_phase := Running\<rparr>)"
| raised: "live (cl_phase c) \<Longrightarrow> \<not> is_connect_error e \<Longrightarrow> cstep mul c (loop_raised mul e c)"
| returned: "cl_phase c = Running \<Longrightarrow>
    cstep mul c (notify_subscription_failure None (c\<lparr>cl_protocol := map_option stop_protocol (cl_protocol c)\<rparr>))"
| disconnect: "\<not> connecting (cl_phase c) \<Longrightarrow> cstep mul c (client_disconnect w c)"
| disconnect_handshake: "cl_phase c = Trying True delay n \<Longrightarrow>
    client_connect (HandshakeCancelled r reads) c = (res, c') \<Longrightarrow> cstep mul c (client_disconnect w c')"
| callback: "cstep mul c (c\<lparr>cl_callback := x\<rparr>)"
| active: "cl_protocol c = Some p \<Longrightarrow> activity p p' \<Longrightarrow> cstep mul c (c\<lparr>cl_protocol := Some p'\<rparr>)"
| start: "start_begin i ref c = (res, c') \<Longrightarrow> cstep mul c c'"
| started: "start_end i res c = (e, c') \<Longrightarrow> cstep mul c c'"
| stop: "stop_begin was_cancelled i c = (res, c') \<Longrightarrow> cstep mul c c'"
| detach: "cstep mul c (subscription_detach i c)"
| take: "take_message i c = Some (m, c') \<Longrightarrow> cstep mul c c'"
| capacity: "notify_capacity_available fails c = (st, c') \<Longrightarrow> cstep mul c c'"

section \<open>What the operations leave alone\<close>

lemma activity_refl [simp]: "activity p p"
  by (simp add: activity_def)

lemma activity_trans: "activity p q \<Longrightarrow> activity q r \<Longrightarrow> activity p r"
  by (auto simp: activity_def)

lemma activity_halves [simp]:
  "activity p (q\<lparr>pr_out := out\<rparr>) = activity p q" "activity p (q\<lparr>pr_buf := b\<rparr>) = activity p q"
  "activity p (set_index ix q) = activity p q"
  "ib_detached w = ib_detached (pr_in q) \<Longrightarrow> activity p (q\<lparr>pr_in := w\<rparr>) = activity p q"
  by (simp_all add: activity_def set_index_def)

text \<open>No handler of the inbound flow touches the flags.\<close>

lemma deliver_flags:
  "ib_detached (snd (deliver r cb w)) = ib_detached w" "ib_detached (after_delivery puback b w) = ib_detached w"
  "ib_detached (complete_ack ack pid w) = ib_detached w" "ib_detached (emit e w) = ib_detached w"
  by (simp_all add: deliver_def after_delivery_def complete_ack_def emit_def put_message_def Let_def split: option.split)

lemma deliver_then_flags: "ib_detached (snd (deliver_then r cb puback w)) = ib_detached w"
  using deliver_flags(1) [of r cb w] deliver_flags(2)
  by (auto simp: deliver_then_def split: prod.split delivery.split)

lemma deliver_replay_flags: "ib_detached (snd (deliver_replay q r w)) = ib_detached w"
  by (simp add: deliver_replay_def deliver_qos1_publish_def accept_qos2_publish_def start_flight_def deliver_then_flags
      deliver_flags split: QoS.split option.split)

lemma select_flags: "ib_detached (snd (select_recipient_or_buffer q w)) = ib_detached w"
  by (auto simp: select_recipient_or_buffer_def select_recipient_def accept_def accept_no_session_def accept_idle_def accept_buffered_def
      Let_def deliver_flags
      split: prod.split option.split replay.split)

lemma select_recipient_flags: "ib_detached (snd (select_recipient q w)) = ib_detached w"
  by (auto simp: select_recipient_def Let_def split: prod.split option.split)

lemma await_replay_flags: "ib_detached (snd (await_replay fails q r w)) = ib_detached w"
proof (cases "deliver_replay q r w")
  case (Pair st w')
  then show ?thesis using deliver_replay_flags [of q r w] by (cases st) (simp_all add: await_replay_def)
qed

lemma deliver_pending_flags: "deliver_pending fails ps us b w = (st, b', w') \<Longrightarrow> ib_detached w' = ib_detached w"
proof (induction ps arbitrary: us b w)
  case (Cons q ps)
  obtain r w1 where r: "select_recipient q w = (r, w1)" by fastforce
  obtain st2 w2 where d: "await_replay fails q r w1 = (st2, w2)" by fastforce
  have "ib_detached w1 = ib_detached w" "ib_detached w2 = ib_detached w1"
    using select_recipient_flags [of q w] await_replay_flags [of fails q r w1] r d by simp_all
  with Cons r d show ?case by (auto split: if_splits status.splits)
qed simp

lemma drain_flags: "ib_detached (snd (drain fails w)) = ib_detached w"
  by (auto simp: drain_def no_session_drain_def idle_drain_def buffered_drain_def cancel_expiration_def
      split: replay.split prod.split status.split dest: deliver_pending_flags)

lemma with_recipient_flags:
  assumes "\<And>r w. ib_detached (snd (k r w)) = ib_detached w"
  shows "ib_detached (snd (with_recipient q k w)) = ib_detached w"
  using assms select_flags [of q w] by (auto simp: with_recipient_def split: prod.split sum.split option.split)

lemma hold_quota_flags: "ib_detached (snd (hold_receive_quota pid w)) = ib_detached w"
  by (auto simp: hold_receive_quota_def emit_def Let_def)

lemma qos_flags:
  "ib_detached (snd (deliver_qos1_publish q r w)) = ib_detached w"
  "ib_detached (snd (accept_qos2_publish q r w)) = ib_detached w"
  by (simp_all add: deliver_qos1_publish_def accept_qos2_publish_def start_flight_def deliver_then_flags deliver_flags
      split: option.split)

lemma handle_flags:
  "ib_detached (snd (handle_publish q w)) = ib_detached w" "ib_detached (snd (handle_pubrel a w)) = ib_detached w"
proof -
  have quota: "ib_detached w1 = ib_detached w" if "hold_receive_quota pid w = (e, w1)" for pid e w1
    using hold_quota_flags [of pid w] that by simp
  show "ib_detached (snd (handle_publish q w)) = ib_detached w"
    using quota
    by (auto simp: handle_publish_def handle_qos1_publish_def handle_qos2_publish_def deliver_flags
        with_recipient_flags deliver_then_flags qos_flags split: QoS.split option.split prod.split)
  show "ib_detached (snd (handle_pubrel a w)) = ib_detached w"
    by (simp add: handle_pubrel_def deliver_flags deliver_then_flags Let_def split: option.split)
qed

lemma close_closes [simp]:
  "tr_writer_closed (transport_close t)" "tr_closed (transport_close t)"
  by (simp_all add: transport_close_def Let_def)

lemma send_packet_active: "activity p (snd (send_packet packet w p))"
  by (auto simp: send_packet_def transport_write_def activity_def split: prod.splits option.splits stream_write.splits)

lemma abort_active: "activity p (abort reason w p)"
proof -
  have "activity p (snd (send_packet (Disconnect \<lparr>dis_reason_code = code, dis_properties = None\<rparr>) w p))" for code
    by (rule send_packet_active)
  then show ?thesis by (auto simp: abort_def activity_def Let_def split: option.splits)
qed

lemma inbound_effect_active: "activity p (inbound_effect ev p)"
  by (auto simp: inbound_effect_def send_packet_active abort_active split: event.splits)

lemma inbound_effects_active: "activity p (fold inbound_effect evs p)"
proof (induction evs arbitrary: p)
  case (Cons ev evs)
  show ?case using activity_trans [OF inbound_effect_active Cons.IH] by simp
qed simp

lemma write_failed_active: "activity p q \<Longrightarrow> activity p (write_failed st q)"
  by (simp add: write_failed_def transport_write_def activity_def)

lemma run_inbound_active:
  assumes "run_inbound res p = (st, p')" and "ib_detached (snd res) = ib_detached (pr_in p)"
  shows "activity p p'"
  using assms write_failed_active [OF inbound_effects_active [of "p\<lparr>pr_in := snd res\<rparr>"]]
  by (auto simp: run_inbound_def activity_def split: prod.splits)

text \<open>So the rule \<open>active\<close> of \<open>cstep\<close> covers what the connection does.\<close>

lemma dispatch_active: "dispatch packet p = (st, p') \<Longrightarrow> activity p p'"
  by (auto simp: dispatch_def handle_flags dest: run_inbound_active split: packet.splits prod.splits option.splits)

lemma subscribe_active:
  "subscribe_begin reqs auto_ack queue ident ref p = (res, p') \<Longrightarrow> activity p p'"
  "subscribe_end act es p = Some (res', p') \<Longrightarrow> activity p p'"
  "subscribe_drain fails p = (st, p') \<Longrightarrow> activity p p'"
  by (auto simp: subscribe_begin_def subscribe_end_def subscribe_drain_def rollback_def Let_def
      drain_flags dest: run_inbound_active split: prod.splits sum.splits option.splits)

lemma restore_observers_active: "restore_observers obs ack p = (u, p') \<Longrightarrow> activity p p'"
  by (auto simp: restore_observers_def split: if_splits prod.splits sum.splits)

lemma unsubscribe_active:
  assumes "unsubscribe_begin filters p = (res, p')"
  shows "activity p p'"
proof -
  let ?p1 = "set_index (remove_all filters (pr_index p)) p"
  have "activity p p'" if "apfst Inr (restore_observers obs None ?p1) = (res, p')" for obs
    using that restore_observers_active [of obs None ?p1]
    by (cases "restore_observers obs None ?p1") (auto simp: activity_def set_index_def)
  with assms show ?thesis
    by (auto simp: unsubscribe_begin_def Let_def split: option.splits if_splits prod.splits sum.splits)
qed

lemma detach_active: "detach fs p = (ds, p') \<Longrightarrow> activity p p'"
  by (induction fs arbitrary: p ds) (fastforce split: option.splits prod.splits simp: activity_def)+

lemma stop_protocol_active: "activity p (stop_protocol p)"
  by (simp add: stop_protocol_def run_finally_def)

lemma activity_closed: "activity p p' \<Longrightarrow> tr_writer_closed (pr_transport p) \<Longrightarrow> tr_writer_closed (pr_transport p')"
  by (simp add: activity_def)

definition unchanged :: "'d client \<Rightarrow> 'd client \<Rightarrow> bool" where
  "unchanged c c' \<longleftrightarrow>
     cl_config c' = cl_config c \<and> cl_reconnect c' = cl_reconnect c \<and> cl_connection_info c' = cl_connection_info c
     \<and> cl_connection_id c' = cl_connection_id c \<and> cl_signal c' = cl_signal c \<and> cl_phase c' = cl_phase c
     \<and> cl_failures c' = cl_failures c \<and> cl_next_signal c' = cl_next_signal c
     \<and> cl_recovery_failed c' = cl_recovery_failed c \<and> cl_abandoned c' = cl_abandoned c
     \<and> cl_history c' = cl_history c \<and> rel_option activity (cl_protocol c) (cl_protocol c')"

lemma rel_activity_refl [simp]: "rel_option activity x x"
  by (cases x) simp_all

lemma unchanged_refl [simp]: "unchanged c c"
  by (simp add: unchanged_def)

lemma unchanged_trans: "unchanged a b \<Longrightarrow> unchanged b c \<Longrightarrow> unchanged a c"
  by (cases "cl_protocol a"; cases "cl_protocol b"; cases "cl_protocol c")
    (auto simp: unchanged_def intro: activity_trans)

lemma unchanged_updates:
  "cl_protocol c = Some p \<Longrightarrow> activity p p' \<Longrightarrow> unchanged c (c\<lparr>cl_protocol := Some p'\<rparr>)"
  "unchanged c (c\<lparr>cl_subscriptions := subs\<rparr>)" "unchanged c (c\<lparr>cl_queues := qs\<rparr>)"
  "unchanged c (c\<lparr>cl_detached_filters := fs\<rparr>)" "unchanged c (c\<lparr>cl_objects := obs\<rparr>)"
  "unchanged c (set_registered i flts c)" "unchanged c (c\<lparr>cl_callback := x\<rparr>)"
  by (simp_all add: unchanged_def set_registered_def)

lemma start_unchanged: "start_begin i ref c = (res, c') \<Longrightarrow> unchanged c c'"
  by (auto simp: start_begin_def unchanged_def Let_def dest: subscribe_active
      split: option.splits if_splits prod.splits sum.splits)

lemma started_unchanged: "start_end i res c = (e, c') \<Longrightarrow> unchanged c c'"
  by (auto simp: start_end_def unchanged_updates split: sum.splits prod.splits)

lemma stop_unchanged: "stop_begin was_cancelled i c = (res, c') \<Longrightarrow> unchanged c c'"
  by (auto simp: stop_begin_def unchanged_def Let_def dest: unsubscribe_active
      split: option.splits if_splits prod.splits sum.splits)

lemma empty_queue_unchanged: "unchanged c (empty_queue i c)"
  by (auto simp: empty_queue_def unchanged_def split: option.splits)

lemma detach_unchanged: "unchanged c (subscription_detach i c)"
proof -
  have "unchanged c (detach_local i c)" for c :: "'a client"
  proof (cases "cl_protocol c")
    case None
    then show ?thesis
      by (simp add: detach_local_def Let_def unchanged_trans [OF unchanged_updates(5) empty_queue_unchanged])
  next
    case (Some p)
    obtain ds p' where d: "detach (so_registered_filters (cl_objects c i)) p = (ds, p')" by fastforce
    from Some d detach_active [OF d] show ?thesis
      by (auto simp: detach_local_def Let_def intro!: unchanged_trans [OF _ empty_queue_unchanged]) (simp add: unchanged_def)
  qed
  then show ?thesis
    unfolding subscription_detach_def using unchanged_trans [OF unchanged_updates(2)] by auto
qed

lemma take_unchanged: "take_message i c = Some (m, c') \<Longrightarrow> unchanged c c'"
  by (auto simp: take_message_def unchanged_def split: list.splits option.splits)

lemma capacity_unchanged: "notify_capacity_available fails c = (st, c') \<Longrightarrow> unchanged c c'"
  by (auto simp: notify_capacity_available_def unchanged_updates dest: subscribe_active(3) split: option.splits prod.splits)

section \<open>A successful handshake\<close>

lemma await_connack_keepalive:
  "await_connack w reads p = Some (Inr a, rest, p') \<Longrightarrow>
     pr_effective_keepalive p' = negotiated_keepalive (pr_version p) a (pr_keepalive p)"
proof (induction reads arbitrary: p)
  case (Cons r reads)
  have accepted: "pr_effective_keepalive p' = negotiated_keepalive (pr_version q) a (pr_keepalive q)"
    if "handshake_packet pkt q = (Inr a, p')" for pkt q
    using that
    by (auto simp: handshake_packet_def accept_connack_def negotiated_keepalive_def Let_def
        split: packet.splits if_splits option.splits sum.splits)
  show ?case
    using Cons.prems
    by (auto dest!: Cons.IH accepted split: prod.splits sum.splits option.splits outcome.splits)
qed simp

lemma send_packet_frame:
  "send_packet packet w p = (e, p') \<Longrightarrow> pr_version p' = pr_version p \<and> pr_keepalive p' = pr_keepalive p"
  by (auto simp: send_packet_def send_def split: prod.splits option.splits sum.splits)

lemma new_protocol_frame:
  "pr_version (new_protocol c) = opt_version (cl_config c)" "pr_keepalive (new_protocol c) = opt_keepalive (cl_config c)"
  by (simp_all add: new_protocol_def client_protocol_def MQTTProtocol_init_def outbound_init_def Let_def)

lemma connect_keepalive:
  assumes "connect packet w reads (new_protocol c) = (Inr a, rest, p)" and "connect_packet (cl_config c) = Inr packet"
    and "opt_version (cl_config c) = V50"
  shows "pr_effective_keepalive p = ci_effective_keepalive (from_connack packet a V50 n)"
proof -
  from assms(1) obtain p1 where p1: "send_packet (Connect packet) w (new_protocol c) = (None, p1)"
    and aw: "await_connack w reads p1 = Some (Inr a, rest, p)"
    by (auto simp: connect_def split: prod.splits option.splits)
  have k: "con_keepalive packet = opt_keepalive (cl_config c)"
    using assms(2) by (auto simp: connect_packet_def split: sum.splits)
  have "pr_effective_keepalive p = negotiated_keepalive V50 a (opt_keepalive (cl_config c))"
    using await_connack_keepalive [OF aw] send_packet_frame [OF p1] new_protocol_frame [of c] assms(3) by simp
  then show ?thesis by (simp add: k from_connack_def negotiated_keepalive_def Let_def split: option.splits)
qed

text \<open>The two ways an attempt ends.\<close>

lemma client_connect_failed:
  assumes "client_connect att c = (Inl e, c')"
  shows "\<exists>ts. c' = c\<lparr>cl_abandoned := ts @ cl_abandoned c\<rparr>
    \<and> (\<forall>packet. connect_packet (cl_config c) = Inr packet \<longrightarrow> (\<forall>t \<in> set ts. tr_writer_closed t))"
proof (cases att)
  case (FactoryRaises e')
  with assms have "c' = c\<lparr>cl_abandoned := [] @ cl_abandoned c\<rparr>" by (simp add: client_connect_def)
  then show ?thesis by (metis empty_iff list.set(1))
next
  case (Opened w reads)
  then consider (encode) e1 where "connect_packet (cl_config c) = Inl e1" "c' = c\<lparr>cl_abandoned := [StreamTransport_init] @ cl_abandoned c\<rparr>"
    | (refused) p where "c' = c\<lparr>cl_abandoned := [transport_close (pr_transport p)] @ cl_abandoned c\<rparr>"
    using assms by (auto simp: client_connect_def Let_def split: sum.splits prod.splits)
  then show ?thesis by cases (metis Inl_Inr_False, metis close_closes(1) empty_iff insert_iff list.set)
next
  case (HandshakeCancelled w reads)
  then consider (encode) e1 where "connect_packet (cl_config c) = Inl e1" "c' = c\<lparr>cl_abandoned := [StreamTransport_init] @ cl_abandoned c\<rparr>"
    | (cancelled) p where "c' = c\<lparr>cl_abandoned := [transport_close (pr_transport p)] @ cl_abandoned c\<rparr>"
    using assms by (auto simp: client_connect_def split: sum.splits prod.splits)
  then show ?thesis by cases (metis Inl_Inr_False, metis close_closes(1) empty_iff insert_iff list.set)
qed

lemma cancelled_handshake_raises: "client_connect (HandshakeCancelled w reads) c = (res, c') \<Longrightarrow> \<exists>e. res = Inl e"
  by (auto simp: client_connect_def split: sum.splits prod.splits)

lemma client_connect_ok:
  assumes "client_connect att c = (Inr reads, c')"
  obtains p info where "c' = c\<lparr>cl_abandoned := (case cl_protocol c of None \<Rightarrow> [] | Some old \<Rightarrow> [pr_transport old]) @ cl_abandoned c,
      cl_protocol := Some p, cl_connection_info := Some info,
      cl_connection_id := cl_connection_id c + 1, cl_history := cl_history c @ [info]\<rparr>"
    and "ci_connection_id info = cl_connection_id c + 1"
    and "opt_version (cl_config c) = V50 \<Longrightarrow> ci_effective_keepalive info = pr_effective_keepalive p"
proof -
  from assms obtain w rs packet connack rest p0 where att: "att = Opened w rs"
    and packet: "connect_packet (cl_config c) = Inr packet"
    and con: "connect packet w rs (new_protocol c) = (Inr connack, rest, p0)"
    by (auto simp: client_connect_def Let_def split: attempt.splits sum.splits prod.splits)
  define info where "info = from_connack packet connack (opt_version (cl_config c)) (cl_connection_id c + 1)"
  define p1 where "p1 = restore_detached (cl_detached_filters c) p0"
  define p2 where "p2 = p1\<lparr>pr_in := (pr_in p1)\<lparr>ib_router := map_option (bind (nat (ci_connection_id info))) (ib_router (pr_in p1))\<rparr>\<rparr>"
  have id: "ci_connection_id info = cl_connection_id c + 1"
    by (simp add: info_def from_connack_def Let_def split: option.split)
  have "pr_effective_keepalive p2 = pr_effective_keepalive p0"
    by (simp add: p2_def p1_def restore_detached_def set_index_def)
  then have k: "opt_version (cl_config c) = V50 \<Longrightarrow> ci_effective_keepalive info = pr_effective_keepalive p2"
    using connect_keepalive [OF con packet] by (simp add: info_def)
  show ?thesis
  proof (rule that [OF _ id k])
    show "c' = c\<lparr>cl_abandoned := (case cl_protocol c of None \<Rightarrow> [] | Some old \<Rightarrow> [pr_transport old]) @ cl_abandoned c,
      cl_protocol := Some p2, cl_connection_info := Some info,
      cl_connection_id := cl_connection_id c + 1, cl_history := cl_history c @ [info]\<rparr>"
      using assms id by (simp add: client_connect_def att packet con Let_def p2_def p1_def info_def)
  qed
qed

lemma connect_once_cases:
  assumes "connect_once n att c = (out, c')"
  obtains (ok) reads where "out = Connected reads" "client_connect att c = (Inr reads, c')"
  | (gave_up) e where "out = GaveUp e" "client_connect att c = (Inl e, c')"
  | (again) e where "out = Again" "client_connect att c = (Inl e, c')"
  using assms by (auto simp: connect_once_def Let_def split: prod.splits sum.splits if_splits option.splits)

section \<open>The invariant of a client\<close>

text \<open>
  How often \<open>on_connection_recovery_failed\<close> has been called in a run that is in this phase: once when one
  of these exceptions has ended it, and at most once when another has.
\<close>

definition must_tell :: "'d ReconnectConfig \<Rightarrow> client_error \<Rightarrow> bool" where
  "must_tell rc e \<longleftrightarrow> is_connect_error e \<or> is_timeout_or_os_error e \<or> is_disconnected_error e \<and> \<not> rc_enabled rc"

fun told :: "'d ReconnectConfig \<Rightarrow> 'd phase \<Rightarrow> nat \<Rightarrow> bool" where
  "told rc (Ended (Some e)) n \<longleftrightarrow> n \<le> 1 \<and> (must_tell rc e \<longrightarrow> n = 1)"
| "told rc ph n \<longleftrightarrow> n = 0"

text \<open>The result of the current signal: None when there is no signal, \<open>Some None\<close> while it is not set.\<close>

definition signal_value :: "'d client \<Rightarrow> client_error option option" where
  "signal_value c = map_option (cl_failures c) (cl_signal c)"

fun failure_of :: "'d phase \<Rightarrow> client_error option" where
  "failure_of (Ended f) = f"
| "failure_of ph = None"

abbreviation in_run :: "'d phase \<Rightarrow> bool" where
  "in_run ph \<equiv> ph \<noteq> Idle \<and> \<not> connecting ph"

definition described :: "'d client \<Rightarrow> ConnectionInfo \<Rightarrow> protocol \<Rightarrow> bool" where
  "described c info p \<longleftrightarrow> ci_connection_id info = cl_connection_id c \<and> cl_history c \<noteq> [] \<and> last (cl_history c) = info
     \<and> (opt_version (cl_config c) = V50 \<longrightarrow> ci_effective_keepalive info = pr_effective_keepalive p)"

definition client_inv :: "'d client \<Rightarrow> bool" where
  "client_inv c \<longleftrightarrow>
     (cl_connection_info c \<noteq> None \<longleftrightarrow> live (cl_phase c))
     \<and> (cl_protocol c \<noteq> None \<longleftrightarrow> in_run (cl_phase c))
     \<and> (\<forall>info p. cl_connection_info c = Some info \<longrightarrow> cl_protocol c = Some p \<longrightarrow> described c info p)
     \<and> (cl_connection_id c \<ge> 0 \<and> map ci_connection_id (cl_history c) = [1..cl_connection_id c])
     \<and> (\<forall>p. recovering (cl_phase c) \<longrightarrow> cl_protocol c = Some p \<longrightarrow> tr_writer_closed (pr_transport p))
     \<and> (\<forall>packet. connect_packet (cl_config c) = Inr packet \<longrightarrow> (\<forall>t \<in> set (cl_abandoned c). tr_writer_closed t))
     \<and> (in_run (cl_phase c) \<longrightarrow> signal_value c = Some (failure_of (cl_phase c)))
     \<and> (in_run (cl_phase c) \<longrightarrow> told (cl_reconnect c) (cl_phase c) (cl_recovery_failed c))
     \<and> (recovering (cl_phase c) \<longrightarrow> rc_enabled (cl_reconnect c))
     \<and> (\<forall>n. cl_signal c = Some n \<longrightarrow> n < cl_next_signal c)"

lemma client_inv_init: "client_inv (client_init cfg rc objects)"
  by (simp add: client_inv_def client_init_def)

lemma client_inv_unchanged:
  assumes "unchanged c c'" and "client_inv c"
  shows "client_inv c'"
proof (cases "cl_protocol c")
  case None
  with assms show ?thesis by (auto simp: unchanged_def client_inv_def described_def signal_value_def)
next
  case (Some p)
  with assms(1) obtain p' where "cl_protocol c' = Some p'" "activity p p'"
    by (auto simp: unchanged_def option_rel_Some1)
  with Some assms show ?thesis unfolding unchanged_def client_inv_def described_def activity_def signal_value_def by auto
qed

text \<open>The exception handler of the run loop keeps the invariant in every live phase.\<close>

lemma loop_raised_inv:
  assumes "client_inv c" and "live (cl_phase c)" and "\<not> is_connect_error e"
  shows "client_inv (loop_raised mul e c)"
proof -
  obtain p where p: "cl_protocol c = Some p" and run: "in_run (cl_phase c)"
    using assms(1,2) by (cases "cl_phase c") (auto simp: client_inv_def)
  obtain n where sig: "cl_signal c = Some n" "cl_failures c n = None" "cl_recovery_failed c = 0"
    using assms(1,2) by (cases "cl_phase c") (auto simp: client_inv_def signal_value_def)
  have "tr_writer_closed (pr_transport (stop_protocol (p\<lparr>pr_transport := transport_close (pr_transport p)\<rparr>)))"
    by (rule activity_closed [OF stop_protocol_active]) simp
  with assms(1,3) p sig show ?thesis
    unfolding client_inv_def loop_raised_def notify_subscription_failure_def notify_connection_recovery_failed_def Let_def
    by (auto simp: signal_value_def must_tell_def)
qed

lemma subscribe_begin_raises:
  "subscribe_begin reqs auto_ack queue ident ref p = (Inl e, p') \<Longrightarrow> \<not> is_connect_error (Client_MQTT_Error e)"
  by (auto simp: subscribe_begin_def send_subscribe_def ensure_alive_def acquire_id_def send_def create_future_def
      is_connect_error_def Let_def split: prod.splits sum.splits option.splits if_splits mqtt_error.splits)

lemma live_phase_inv: "client_inv c \<Longrightarrow> live (cl_phase c) \<Longrightarrow> live ph \<Longrightarrow> client_inv (c\<lparr>cl_phase := ph\<rparr>)"
  by (cases ph; cases "cl_phase c") (auto simp: client_inv_def described_def signal_value_def)

lemma protocol_inv: "client_inv c \<Longrightarrow> cl_protocol c = Some p \<Longrightarrow> activity p p' \<Longrightarrow> client_inv (c\<lparr>cl_protocol := Some p'\<rparr>)"
  by (rule client_inv_unchanged [OF unchanged_updates(1)])

lemma reconnect_begin_inv:
  assumes "client_inv c" and "cl_phase c = Restoring (i # is)" and "cl_protocol c = Some p"
  shows "client_inv (reconnect_begin mul i is ref p c)"
proof (cases "so_detached (cl_objects c i)")
  case True
  with live_phase_inv [OF assms(1)] assms(2) show ?thesis by (simp add: reconnect_begin_def Let_def)
next
  case False
  let ?b = "subscribe_begin (subscription_requests (Subscription.truncate (cl_objects c i))) (su_auto_ack (cl_objects c i)) i
    (su_subscription_identifier (cl_objects c i)) ref p"
  obtain res p' where b: "?b = (res, p')" by fastforce
  note inv = protocol_inv [OF assms(1,3) subscribe_active(1) [OF b]]
  show ?thesis
  proof (cases res)
    case (Inl e)
    with b False loop_raised_inv [OF inv, of "Client_MQTT_Error e" mul] subscribe_begin_raises assms(2)
    show ?thesis by (auto simp: reconnect_begin_def Let_def)
  next
    case (Inr w)
    obtain act es where w: "w = (act, es)" by fastforce
    with b False Inr live_phase_inv [OF inv, of "Resubscribing (i # is) act es"] assms(2) show ?thesis
      by (simp add: reconnect_begin_def Let_def)
  qed
qed

lemma reconnect_end_inv:
  assumes "client_inv c" and "cl_phase c = Resubscribing (i # is) act es" and "cl_protocol c = Some p"
    and "subscribe_end act es p = Some (res, p')" and "\<forall>e. res = Inl e \<longrightarrow> \<not> is_connect_error (Client_MQTT_Error e)"
  shows "client_inv (reconnect_end mul i is res p' c)"
proof -
  note inv = protocol_inv [OF assms(1,3) subscribe_active(2) [OF assms(4)]]
  show ?thesis
  proof (cases res)
    case (Inl e)
    with loop_raised_inv [OF inv, of "Client_MQTT_Error e" mul] assms(2,5) show ?thesis by (simp add: reconnect_end_def)
  next
    case (Inr r)
    obtain suback queues where r: "r = (suback, queues)" by fastforce
    with Inr client_inv_unchanged [OF unchanged_updates(6) live_phase_inv [OF inv]] assms(2) show ?thesis
      by (simp add: reconnect_end_def)
  qed
qed

lemma attempt_inv:
  assumes "client_inv c" and ph: "cl_phase c = Trying rec delay n" and "connect_once n att c = (out, c')"
  shows "client_inv (after_attempt mul rec delay n out c')"
proof -
  have info: "cl_connection_info c = None" using assms(1) ph by (auto simp: client_inv_def)
  have failed: "\<exists>ts. c' = c\<lparr>cl_abandoned := ts\<rparr> \<and> (\<forall>packet. connect_packet (cl_config c) = Inr packet \<longrightarrow> (\<forall>t \<in> set ts. tr_writer_closed t))"
    if "client_connect att c = (Inl e, c')" for e
  proof -
    from client_connect_failed [OF that] obtain ts where "c' = c\<lparr>cl_abandoned := ts @ cl_abandoned c\<rparr>"
      and "\<forall>packet. connect_packet (cl_config c) = Inr packet \<longrightarrow> (\<forall>t \<in> set ts. tr_writer_closed t)" by blast
    with assms(1) show ?thesis by (intro exI [of _ "ts @ cl_abandoned c"]) (auto simp: client_inv_def)
  qed
  from assms(3) show ?thesis
  proof (cases rule: connect_once_cases)
    case (ok reads)
    from ok(2) obtain p info where c': "c' = c\<lparr>cl_abandoned := (case cl_protocol c of None \<Rightarrow> [] | Some old \<Rightarrow> [pr_transport old]) @ cl_abandoned c,
        cl_protocol := Some p, cl_connection_info := Some info, cl_connection_id := cl_connection_id c + 1,
        cl_history := cl_history c @ [info]\<rparr>" "ci_connection_id info = cl_connection_id c + 1"
      "opt_version (cl_config c) = V50 \<Longrightarrow> ci_effective_keepalive info = pr_effective_keepalive p"
      by (rule client_connect_ok) blast
    have ids: "[1..cl_connection_id c + 1] = [1..cl_connection_id c] @ [cl_connection_id c + 1]"
      if "cl_connection_id c \<ge> 0" using upto_rec2 [of 1 "cl_connection_id c + 1"] that by simp
    from assms(1) ph c' ids show ?thesis
      unfolding client_inv_def described_def after_attempt_def ok(1) by (auto simp: signal_value_def split: option.splits)
  next
    case (gave_up e)
    from failed [OF gave_up(2)] obtain ts where c': "c' = c\<lparr>cl_abandoned := ts\<rparr>"
      and ts: "\<forall>packet. connect_packet (cl_config c) = Inr packet \<longrightarrow> (\<forall>t \<in> set ts. tr_writer_closed t)" by blast
    show ?thesis
    proof (cases rec)
      case True
      then obtain p k where "cl_protocol c = Some p" "cl_signal c = Some k" "cl_failures c k = None"
        "cl_recovery_failed c = 0" "rc_enabled (cl_reconnect c)"
        using assms(1) ph by (auto simp: client_inv_def signal_value_def)
      with assms(1) ph info ts True show ?thesis
        unfolding client_inv_def after_attempt_def gave_up(1) c' notify_subscription_failure_def
          notify_connection_recovery_failed_def
        by (auto simp: Let_def signal_value_def must_tell_def)
    next
      case False
      with assms(1) ph info ts show ?thesis by (simp add: after_attempt_def gave_up(1) c' client_inv_def signal_value_def)
    qed
  next
    case (again e)
    from failed [OF again(2)] assms(1) ph info show ?thesis
      unfolding after_attempt_def again(1) by (cases rec) (auto simp: client_inv_def signal_value_def)
  qed
qed

lemma returned_inv:
  assumes "client_inv c" and "cl_phase c = Running"
  shows "client_inv (notify_subscription_failure None (c\<lparr>cl_protocol := map_option stop_protocol (cl_protocol c)\<rparr>))"
  using assms by (auto simp: client_inv_def notify_subscription_failure_def signal_value_def Let_def)

lemma disconnect_closes [simp]: "tr_writer_closed (pr_transport (disconnect w p))"
  by (simp add: disconnect_def Let_def)

lemma disconnect_inv: "client_inv c \<Longrightarrow> client_inv (client_disconnect w c)"
  by (cases "cl_protocol c") (auto simp: client_inv_def client_disconnect_def Let_def)

lemma waiting_inv:
  assumes "client_inv c"
  shows "cl_phase c = Idle \<Longrightarrow> client_inv (c\<lparr>cl_phase := Trying False delay 0\<rparr>)"
    and "cl_phase c = Sleeping rec slept delay n \<Longrightarrow> client_inv (c\<lparr>cl_phase := Trying rec delay n\<rparr>)"
    and "cl_phase c = Sleeping False slept delay n \<Longrightarrow> client_inv (c\<lparr>cl_phase := Idle\<rparr>)"
  using assms by (cases rec; auto simp: client_inv_def signal_value_def)+

text \<open>A handshake of a recovery that is cancelled leaves its transport closed and nothing else behind.\<close>

lemma cancelled_handshake_inv:
  assumes "client_inv c" and "client_connect (HandshakeCancelled r reads) c = (res, c')"
  shows "client_inv c'"
proof -
  obtain e where "res = Inl e" using cancelled_handshake_raises [OF assms(2)] by blast
  with client_connect_failed [of "HandshakeCancelled r reads" c e c'] assms(2) obtain ts where
    "c' = c\<lparr>cl_abandoned := ts @ cl_abandoned c\<rparr>"
    "\<forall>packet. connect_packet (cl_config c) = Inr packet \<longrightarrow> (\<forall>t \<in> set ts. tr_writer_closed t)" by blast
  with assms(1) show ?thesis by (auto simp: client_inv_def described_def signal_value_def)
qed

lemma cstep_inv: "cstep mul c c' \<Longrightarrow> client_inv c \<Longrightarrow> client_inv c'"
proof (induction rule: cstep.induct)
  case (connect c)
  then show ?case by (intro waiting_inv)
next
  case (attempt c rec delay n att out c')
  then show ?case by (intro attempt_inv)
next
  case (connect_cancelled c slept delay n)
  then show ?case by (intro waiting_inv)
next
  case (wake c rec slept delay n)
  then show ?case by (intro waiting_inv)
next
  case (reconnect c i "is" p ref)
  then show ?case by (intro reconnect_begin_inv)
next
  case (reconnected c i "is" act es p res p')
  then show ?case by (intro reconnect_end_inv)
next
  case (restored c)
  then show ?case by (intro live_phase_inv) simp_all
next
  case (raised c e)
  then show ?case by (intro loop_raised_inv)
next
  case (returned c)
  then show ?case by (intro returned_inv)
next
  case (disconnect c w)
  then show ?case by (intro disconnect_inv)
next
  case (disconnect_handshake c delay n r reads res c' w)
  show ?case
    by (rule disconnect_inv [OF cancelled_handshake_inv [OF disconnect_handshake.prems disconnect_handshake.hyps(2)]])
next
  case (callback c x)
  then show ?case by (rule client_inv_unchanged [OF unchanged_updates(7)])
next
  case (active c p p')
  then show ?case by (intro protocol_inv)
qed (blast intro: client_inv_unchanged start_unchanged started_unchanged stop_unchanged detach_unchanged
    take_unchanged capacity_unchanged)+

interpretation client_run: step_invariant "cstep mul" client_inv for mul
  by unfold_locales (rule cstep_inv)

lemmas csteps_inv = client_run.steps_kept

lemma cstep_config: "cstep mul c c' \<Longrightarrow> cl_config c' = cl_config c \<and> cl_reconnect c' = cl_reconnect c"
proof (induction rule: cstep.induct)
  case (attempt c rec delay n att out c')
  from attempt(2) have "cl_config c' = cl_config c \<and> cl_reconnect c' = cl_reconnect c"
    by (cases rule: connect_once_cases) (auto dest: client_connect_failed elim: client_connect_ok)
  then show ?case
    by (auto simp: after_attempt_def notify_subscription_failure_def notify_connection_recovery_failed_def Let_def
        split: retry_outcome.split option.split)
next
  case (disconnect_handshake c delay n r reads res c' w)
  obtain e where "res = Inl e" using cancelled_handshake_raises [OF disconnect_handshake(2)] by blast
  with client_connect_failed [of "HandshakeCancelled r reads" c e c'] disconnect_handshake(2)
  have "cl_config c' = cl_config c \<and> cl_reconnect c' = cl_reconnect c" by auto
  then show ?case by (auto simp: client_disconnect_def Let_def split: option.split)
next
  case (detach c i)
  then show ?case using detach_unchanged [of c i] by (simp add: unchanged_def)
qed (auto simp: reconnect_begin_def reconnect_end_def loop_raised_def notify_subscription_failure_def set_registered_def
    notify_connection_recovery_failed_def client_disconnect_def unchanged_def Let_def
    split: option.split prod.split sum.split
    dest: start_unchanged started_unchanged stop_unchanged take_unchanged capacity_unchanged)

text \<open>A signal that is set stays set, with the same exception.\<close>

definition signal_set :: "nat \<Rightarrow> client_error \<Rightarrow> 'd client \<Rightarrow> bool" where
  "signal_set n e c \<longleftrightarrow> n < cl_next_signal c \<and> cl_failures c n = Some e"


lemma signal_set_updates [simp]:
  "signal_set n e (c\<lparr>cl_phase := ph\<rparr>) = signal_set n e c" "signal_set n e (c\<lparr>cl_protocol := p\<rparr>) = signal_set n e c"
  "signal_set n e (c\<lparr>cl_connection_info := i\<rparr>) = signal_set n e c"
  "signal_set n e (c\<lparr>cl_to_restore := js\<rparr>) = signal_set n e c"
  "signal_set n e (c\<lparr>cl_recovery_failed := k\<rparr>) = signal_set n e c"
  "signal_set n e (set_registered j fs c) = signal_set n e c"
  "signal_set n e (notify_connection_recovery_failed c) = signal_set n e c"
  "signal_set n e (client_disconnect w c) = signal_set n e c"
  by (simp_all add: signal_set_def set_registered_def notify_connection_recovery_failed_def client_disconnect_def Let_def
      split: option.split)





section \<open>Attempts end\<close>

lemma client_connect_reconnect: "client_connect att c = (res, c') \<Longrightarrow> cl_reconnect c' = cl_reconnect c"
  by (cases res) (auto dest: client_connect_failed elim: client_connect_ok)

lemma connect_once_reconnect: "connect_once n att c = (out, c') \<Longrightarrow> cl_reconnect c' = cl_reconnect c"
  by (erule connect_once_cases) (auto dest: client_connect_reconnect)

lemma connect_once_again:
  "connect_once n att c = (Again, c') \<Longrightarrow> rc_enabled (cl_reconnect c) \<and> (\<forall>m. rc_max_attempts (cl_reconnect c) = Some m \<longrightarrow> n + 1 < m)"
  by (auto simp: connect_once_def Let_def split: prod.splits sum.splits if_splits option.splits)

lemma connect_once_gave_up:
  "connect_once n att c = (GaveUp e, c') \<Longrightarrow> is_timeout_or_os_error e \<Longrightarrow> rc_enabled (cl_reconnect c) \<Longrightarrow>
     \<exists>m. rc_max_attempts (cl_reconnect c) = Some m \<and> n + 1 \<ge> m"
  by (auto simp: connect_once_def Let_def is_connect_error_def is_timeout_or_os_error_def
      split: prod.splits sum.splits if_splits option.splits client_error.splits mqtt_error.splits)

text \<open>The delays slept are the first ones of the sequence that the back-off produces.\<close>

definition backoff :: "('d :: linorder \<Rightarrow> 'd \<Rightarrow> 'd) \<Rightarrow> 'd ReconnectConfig \<Rightarrow> 'd \<Rightarrow> nat \<Rightarrow> 'd" where
  "backoff mul rc delay i = (next_delay mul rc ^^ i) delay"

lemma backoff_Cons: "delay # map (backoff mul rc (next_delay mul rc delay)) [0..<k] = map (backoff mul rc delay) [0..<Suc k]"
  by (rule nth_equalityI) (simp_all add: backoff_def nth_Cons funpow_swap1 del: upt_Suc split: nat.split)

lemma backoff_bound: "i > 0 \<Longrightarrow> backoff mul rc delay i \<le> rc_max_delay rc"
  by (cases i) (simp_all add: backoff_def next_delay_def)

lemma retry_loop_sleeps:
  "retry_loop mul delay n atts c = (res, slept, c') \<Longrightarrow>
     slept = map (backoff mul (cl_reconnect c) delay) [0..<length slept]"
proof (induction atts arbitrary: delay n c slept res c')
  case (Cons att atts)
  obtain out c1 where once: "connect_once n att c = (out, c1)" by fastforce
  show ?case
  proof (cases out)
    case Again
    obtain res1 slept1 c2 where rest: "retry_loop mul (next_delay mul (cl_reconnect c) delay) (n + 1) atts c1 = (res1, slept1, c2)"
      by (metis prod_cases3)
    from Cons.IH [OF rest] connect_once_reconnect [OF once]
    have s1: "slept1 = map (backoff mul (cl_reconnect c) (next_delay mul (cl_reconnect c) delay)) [0..<length slept1]" by simp
    have slept: "slept = delay # slept1" using Cons.prems by (simp add: once Again rest)
    have "delay # slept1 = map (backoff mul (cl_reconnect c) delay) [0..<Suc (length slept1)]"
      using s1 backoff_Cons by metis
    with slept show ?thesis by simp
  qed (use Cons.prems once in auto)
qed simp

lemma retry_loop_ends:
  assumes "rc_max_attempts (cl_reconnect c) = Some m" and "max 1 (m - n) \<le> int (length atts)"
  shows "\<exists>res slept c'. retry_loop mul delay n atts c = (Some res, slept, c') \<and> int (length slept) < max 1 (m - n)
    \<and> (\<forall>e. res = Inl e \<and> is_timeout_or_os_error e \<and> rc_enabled (cl_reconnect c) \<longrightarrow> int (length slept) + 1 = max 1 (m - n))"
  using assms
proof (induction atts arbitrary: delay n c)
  case (Cons att atts)
  obtain out c1 where once: "connect_once n att c = (out, c1)" by fastforce
  note rc = connect_once_reconnect [OF once]
  show ?case
  proof (cases out)
    case Again
    with connect_once_again [of n att c c1] once Cons.prems(1) have n: "n + 1 < m" by simp
    have "max 1 (m - (n + 1)) \<le> int (length atts)" using n Cons.prems(2) by simp
    from Cons.IH [OF _ this, of c1 "next_delay mul (cl_reconnect c) delay"] rc Cons.prems(1)
    obtain res slept c' where "retry_loop mul (next_delay mul (cl_reconnect c) delay) (n + 1) atts c1 = (Some res, slept, c')"
      and len: "int (length slept) < max 1 (m - (n + 1))"
        "\<forall>e. res = Inl e \<and> is_timeout_or_os_error e \<and> rc_enabled (cl_reconnect c) \<longrightarrow> int (length slept) + 1 = max 1 (m - (n + 1))"
      by auto
    then have "retry_loop mul delay n (att # atts) c = (Some res, delay # slept, c')" by (simp add: once Again)
    with len n show ?thesis by (intro exI conjI) auto
  next
    case (GaveUp e)
    with connect_once_gave_up [of n att c e c1] once Cons.prems(1) show ?thesis by (auto simp: once)
  qed (simp add: once)
qed simp

section \<open>Properties\<close>

text \<open>
  C11: connecting ends.  With a limit on the attempts, \<open>_connect_with_retry\<close> returns or raises after at most
  that many attempts, and at least one; it gives up on timeouts and \<open>OSError\<close>s only when all of them are
  used up or reconnecting is off.  For a configuration whose initial delay is within the maximum, the
  delays before and between the attempts start with the initial delay, each further one is the one
  before times the factor or the maximum, whichever is less, and none exceeds the maximum.
\<close>

theorem reconnect_bounded:
  assumes "rc_max_attempts (cl_reconnect c) = Some m" and "max 1 m \<le> int (length atts)"
    and "rc_initial_delay (cl_reconnect c) \<le> rc_max_delay (cl_reconnect c)"
  shows "\<exists>res slept c'. connect_with_retry mul first_sleeps atts c = (Some res, slept, c')
    \<and> int (length slept) < max 1 m + of_bool first_sleeps
    \<and> (\<forall>e. res = Inl e \<and> is_timeout_or_os_error e \<and> rc_enabled (cl_reconnect c) \<longrightarrow>
         int (length slept) + 1 = max 1 m + of_bool first_sleeps)
    \<and> (\<forall>i < length slept. slept ! i = (if i = 0 then rc_initial_delay (cl_reconnect c)
         else min (mul (slept ! (i - 1)) (rc_backoff_factor (cl_reconnect c))) (rc_max_delay (cl_reconnect c))))
    \<and> (\<forall>d \<in> set slept. d \<le> rc_max_delay (cl_reconnect c))"
proof -
  let ?rc = "cl_reconnect c"
  let ?d = "rc_initial_delay ?rc"
  have bound: "(\<forall>i < length slept. slept ! i = (if i = 0 then ?d
        else min (mul (slept ! (i - 1)) (rc_backoff_factor ?rc)) (rc_max_delay ?rc)))
      \<and> (\<forall>d \<in> set slept. d \<le> rc_max_delay ?rc)"
    if slept: "slept = map (backoff mul ?rc ?d) [0..<length slept]" for slept
  proof -
    have nth: "slept ! i = backoff mul ?rc ?d i" if "i < length slept" for i using slept that by (metis add_0 nth_map_upt diff_zero)
    have "backoff mul ?rc ?d i \<le> rc_max_delay ?rc" for i
      using backoff_bound [of i mul ?rc ?d] assms(3) by (cases i) (simp_all add: backoff_def)
    moreover have "slept ! i = (if i = 0 then ?d else min (mul (slept ! (i - 1)) (rc_backoff_factor ?rc)) (rc_max_delay ?rc))"
      if "i < length slept" for i
      using nth [of i] nth [of "i - 1"] that by (cases i) (simp_all add: backoff_def next_delay_def)
    moreover have "d \<le> rc_max_delay ?rc" if "d \<in> set slept" for d
      using that nth calculation(1) by (metis in_set_conv_nth)
    ultimately show ?thesis by blast
  qed
  show ?thesis
  proof (cases first_sleeps)
    case True
    from retry_loop_ends [of c m 0 atts mul "next_delay mul ?rc ?d"] assms obtain res slept c' where
      r: "retry_loop mul (next_delay mul ?rc ?d) 0 atts c = (Some res, slept, c')" "int (length slept) < max 1 m"
      "\<forall>e. res = Inl e \<and> is_timeout_or_os_error e \<and> rc_enabled ?rc \<longrightarrow> int (length slept) + 1 = max 1 m" by auto
    have s: "?d # slept = map (backoff mul ?rc ?d) [0..<length (?d # slept)]"
      using retry_loop_sleeps [OF r(1)] backoff_Cons by (metis length_Cons)
    have run: "connect_with_retry mul first_sleeps atts c = (Some res, ?d # slept, c')"
      using r(1) True by (simp add: connect_with_retry_def Let_def)
    have "int (length (?d # slept)) < max 1 m + of_bool first_sleeps"
      "\<forall>e. res = Inl e \<and> is_timeout_or_os_error e \<and> rc_enabled ?rc \<longrightarrow>
         int (length (?d # slept)) + 1 = max 1 m + of_bool first_sleeps"
      using r(2,3) True by auto
    with run bound [OF s] show ?thesis
      by (intro exI [of _ res] exI [of _ "?d # slept"] exI [of _ c'] conjI) blast+
  next
    case False
    from retry_loop_ends [of c m 0 atts mul ?d] assms obtain res slept c' where
      r: "retry_loop mul ?d 0 atts c = (Some res, slept, c')" "int (length slept) < max 1 m"
      "\<forall>e. res = Inl e \<and> is_timeout_or_os_error e \<and> rc_enabled ?rc \<longrightarrow> int (length slept) + 1 = max 1 m" by auto
    have run: "connect_with_retry mul first_sleeps atts c = (Some res, slept, c')"
      using r(1) False by (simp add: connect_with_retry_def)
    have "int (length slept) < max 1 m + of_bool first_sleeps"
      "\<forall>e. res = Inl e \<and> is_timeout_or_os_error e \<and> rc_enabled ?rc \<longrightarrow>
         int (length slept) + 1 = max 1 m + of_bool first_sleeps"
      using r(2,3) False by auto
    with run bound [OF retry_loop_sleeps [OF r(1)]] show ?thesis
      by (intro exI [of _ res] exI [of _ slept] exI [of _ c'] conjI) blast+
  qed
qed

definition example_config :: client_config where
  "example_config =
     \<lparr>opt_client_id = str_lit ''c'', opt_keepalive = 60, opt_clean_session = True, opt_username = None,
      opt_password = None, opt_will = None, opt_mqtt_connect_timeout = Finite 30, opt_version = V311,
      opt_session_expiry_interval = 0, opt_receive_maximum = None, opt_maximum_packet_size = None,
      opt_user_properties = [], opt_request_response_information = None, opt_request_problem_information = None,
      opt_stripped_prefixes = [], opt_max_pending_requests = 1, opt_session_replay_buffer_size = 1000,
      opt_session_replay_timeout = Finite 30, cfg_connect_properties = None, cfg_request_dispatcher = sample_dispatcher\<rparr>"

definition example_object :: sub_object where
  "example_object =
     \<lparr>su_filters = [str_lit ''a''], su_qos = AT_MOST_ONCE, su_auto_ack = True, su_receive_buffer_size = 1000,
      su_no_local = False, su_retain_as_published = False, su_retain_handling = SEND_ON_SUBSCRIBE,
      su_subscription_identifier = None, so_registered_filters = [], so_detached = False\<rparr>"

definition example_client :: "bool \<Rightarrow> int option \<Rightarrow> int client" where
  "example_client enabled max_attempts =
     client_init example_config
       \<lparr>rc_enabled = enabled, rc_initial_delay = 1, rc_max_delay = 60, rc_backoff_factor = 2, rc_max_attempts = max_attempts\<rparr>
       (\<lambda>_. example_object)"

theorem reconnect_bounded_witness:
  "\<exists>slept c'. connect_with_retry (*) True [FactoryRaises Client_OSError, FactoryRaises Client_OSError, FactoryRaises Client_OSError]
       (example_client True (Some 3)) = (Some (Inl Client_OSError), slept, c') \<and> length slept = 3 \<and> (\<forall>d \<in> set slept. d \<le> 60)"
proof -
  let ?atts = "[FactoryRaises Client_OSError, FactoryRaises Client_OSError, FactoryRaises Client_OSError]"
  let ?c = "example_client True (Some 3)"
  have rc: "rc_max_attempts (cl_reconnect ?c) = Some 3" "rc_initial_delay (cl_reconnect ?c) \<le> rc_max_delay (cl_reconnect ?c)"
    "rc_enabled (cl_reconnect ?c)" "rc_max_delay (cl_reconnect ?c) = 60"
    by (simp_all add: example_client_def client_init_def)
  have fst: "fst (connect_with_retry (*) True ?atts ?c) = Some (Inl Client_OSError)"
    by (simp add: connect_with_retry_def connect_once_def client_connect_def is_connect_error_def is_timeout_or_os_error_def
        example_client_def client_init_def Let_def)
  from reconnect_bounded [OF rc(1) _ rc(2), of ?atts "(*)" True] obtain res slept c' where
    r: "connect_with_retry (*) True ?atts ?c = (Some res, slept, c')"
    "\<forall>e. res = Inl e \<and> is_timeout_or_os_error e \<and> rc_enabled (cl_reconnect ?c) \<longrightarrow> int (length slept) + 1 = max 1 3 + of_bool True"
    "\<forall>d \<in> set slept. d \<le> rc_max_delay (cl_reconnect ?c)" by auto
  moreover have "res = Inl Client_OSError" using fst r(1) by simp
  ultimately show ?thesis using rc(3,4) by (auto simp: is_timeout_or_os_error_def)
qed

text \<open>A run to use as a witness: connect, lose the connection, meet the end of the stream in the new handshake.\<close>

definition example_packet :: Connect where
  "example_packet = \<lparr>con_client_id = str_lit ''c'', con_clean_session = True, con_keepalive = 60, con_username = None,
     con_password = None, con_will = None, con_properties = None\<rparr>"

lemma example_packet: "connect_packet example_config = Inr example_packet"
  by (simp add: connect_packet_def example_config_def example_packet_def)

lemma example_sent:
  assumes "cl_config c = example_config"
  obtains p where "send_packet (Connect example_packet) Drained (new_protocol c) = (None, p)"
    and "settled V311 None (pr_buf p)" and "pending (pr_buf p) = []" and "pr_version p = V311"
    and "pr_transport p = StreamTransport_init"
proof -
  have enc: "\<exists>bs. encode (Connect example_packet) V311 = Inr bs"
    by (rule exI [of _ "[0x10, 13, 0, 4, 77, 81, 84, 84, 4, 2, 0, 60, 0, 1, 99]"]) code_simp
  have "pr_buf (new_protocol c) = pr_buf (MQTTProtocol_init 60 V311 [] None 1000 None None (\<lambda>_. 0))"
    "pr_version (new_protocol c) = V311" "pr_transport (new_protocol c) = StreamTransport_init"
    by (simp_all add: new_protocol_def client_protocol_def MQTTProtocol_init_def outbound_init_def example_config_def assms Let_def)
  with enc that show ?thesis
    by (auto simp: send_packet_def send_def transport_write_def init_protocol_settled)
qed

lemma example_connect:
  assumes "cl_config c = example_config"
  shows "\<exists>c'. client_connect (Opened Drained [Data [0x20, 2, 0, 0]]) c = (Inr [], c')"
proof (rule example_sent [OF assms])
  let ?a = "\<lparr>cack_session_present = False, cack_return_code = 0, cack_properties = None\<rparr> :: ConnAck"
  fix p assume p: "send_packet (Connect example_packet) Drained (new_protocol c) = (None, p)"
    "settled V311 None (pr_buf p)" "pending (pr_buf p) = []" "pr_version p = V311"
  have d: "decode [0x20, 2, 0, 0] V311 None = Inr (Some (ConnAck ?a, 4))" by code_simp
  have pre: "[] \<notin> set [[0x20, 2, 0, 0 :: byte]]" "decode (pending (pr_buf p) @ concat [[0x20, 2, 0, 0]]) V311 None = Inr (Some (ConnAck ?a, 4))"
    "decode (pending (pr_buf p)) V311 None = Inr None" using p(3) d by simp_all
  obtain before after b where ba: "[[0x20, 2, 0, 0]] = before @ after" "before \<noteq> []"
    and aw: "await_connack Drained (map Data [[0x20, 2, 0, 0]]) p =
      (case handshake_packet (ConnAck ?a) (p\<lparr>pr_buf := b\<rparr>) of
         (Inl e, p') \<Rightarrow> Some (Inl (Some e), map Data after, p') | (Inr a, p') \<Rightarrow> Some (Inr a, map Data after, p'))"
    using await_connack_first [OF p(2) pre, of Drained] by blast
  have "after = []" using ba by (cases before) simp_all
  moreover obtain p' where "accept_connack ?a (p\<lparr>pr_buf := b\<rparr>) = (Inr ?a, p')"
    using p(4) by (simp add: accept_connack_ok negotiated_qos_def)
  ultimately have "await_connack Drained [Data [0x20, 2, 0, 0]] p = Some (Inr ?a, [], p')"
    using aw by (simp add: handshake_packet_def del: await_connack.simps)
  with p(1) show ?thesis
    by (simp add: client_connect_def assms example_packet connect_def Let_def)
qed

lemma example_refused:
  assumes "cl_config c = example_config"
  shows "\<exists>c'. client_connect (Opened Drained [Eof]) c
    = (Inl (Client_MQTT_Error (Outbound.MQTTDisconnectedError ''Connection closed by remote'')), c')"
proof (rule example_sent [OF assms])
  fix p assume "send_packet (Connect example_packet) Drained (new_protocol c) = (None, p)"
  then show ?thesis
    by (simp add: client_connect_def assms example_packet connect_def transport_read_def handshake_raised_def)
qed

lemma example_running:
  obtains c where "(cstep (*))\<^sup>*\<^sup>* (example_client enabled m) c" and "cl_phase c = Running" and "cl_config c = example_config"
    and "cl_reconnect c = cl_reconnect (example_client enabled m)" and "cl_objects c = (\<lambda>_. example_object)"
proof -
  let ?c0 = "example_client enabled m"
  let ?c1 = "?c0\<lparr>cl_phase := Trying False 1 0\<rparr>"
  have init: "cl_phase ?c0 = Idle" "rc_initial_delay (cl_reconnect ?c0) = 1" "cl_config ?c0 = example_config"
    by (simp_all add: example_client_def client_init_def)
  have s1: "cstep (*) ?c0 ?c1" using cstep.connect [of ?c0 "(*)"] init by simp
  obtain c2 where c2: "client_connect (Opened Drained [Data [0x20, 2, 0, 0]]) ?c1 = (Inr [], c2)"
    using example_connect [of ?c1] init(3) by auto
  have once: "connect_once 0 (Opened Drained [Data [0x20, 2, 0, 0]]) ?c1 = (Connected [], c2)"
    by (simp add: connect_once_def c2)
  let ?c3 = "c2\<lparr>cl_phase := Restoring [], cl_signal := Some (cl_next_signal c2),
    cl_failures := (cl_failures c2)(cl_next_signal c2 := None), cl_next_signal := cl_next_signal c2 + 1,
    cl_recovery_failed := 0\<rparr>"
  have s2: "cstep (*) ?c1 ?c3"
    using cstep.attempt [OF _ once, of False 1 "(*)"] by (simp add: after_attempt_def)
  have s3: "cstep (*) ?c3 (?c3\<lparr>cl_phase := Running\<rparr>)" by (rule cstep.restored) simp
  have run: "(cstep (*))\<^sup>*\<^sup>* ?c0 (?c3\<lparr>cl_phase := Running\<rparr>)"
    using s1 s2 s3 by (meson converse_rtranclp_into_rtranclp r_into_rtranclp)
  moreover have "cl_config c2 = example_config" "cl_reconnect c2 = cl_reconnect ?c0"
    using cstep_config [OF s2] init(3) by simp_all
  moreover have "cl_objects c2 = (\<lambda>_. example_object)"
    by (rule client_connect_ok [OF c2]) (simp add: example_client_def client_init_def)
  ultimately show ?thesis using that [of "?c3\<lparr>cl_phase := Running\<rparr>"] by simp
qed

lemma example_recovering:
  obtains c where "(cstep (*))\<^sup>*\<^sup>* (example_client True m) c" and "cl_phase c = Sleeping True 1 2 0"
    and "cl_config c = example_config" and "cl_reconnect c = cl_reconnect (example_client True m)"
proof (rule example_running [of True m])
  fix c assume run: "(cstep (*))\<^sup>*\<^sup>* (example_client True m) c" and ph: "cl_phase c = Running"
    and cfg: "cl_config c = example_config" "cl_reconnect c = cl_reconnect (example_client True m)"
  have s: "cstep (*) c (loop_raised (*) Client_OSError c)"
    by (rule cstep.raised) (simp_all add: ph is_connect_error_def)
  have "cl_phase (loop_raised (*) Client_OSError c) = Sleeping True 1 2 0"
    using cfg(2) by (simp add: loop_raised_def is_timeout_or_os_error_def example_client_def client_init_def next_delay_def Let_def)
  then show ?thesis
    using that [OF rtranclp.rtrancl_into_rtrancl [OF run s]] cstep_config [OF s] cfg by simp
qed

text \<open>
  C9: connection information is current.  In every state a client can reach, \<open>connection_info\<close> gives a
  snapshot exactly while a connection is live, so not before connecting, during a recovery or after the
  run loop has ended, and otherwise raises \<open>MQTTDisconnectedError\<close>; it is the snapshot of the latest handshake,
  and the snapshots carry the numbers 1, 2, 3 and so on.
\<close>

theorem connection_info_current:
  assumes "(cstep mul)\<^sup>*\<^sup>* (client_init cfg rc objects) c"
  shows "map ci_connection_id (cl_history c) = [1..cl_connection_id c]
    \<and> (case connection_info c of
         Inl e \<Rightarrow> \<not> live (cl_phase c) \<and> is_disconnected_error e
       | Inr info \<Rightarrow> live (cl_phase c) \<and> cl_protocol c \<noteq> None \<and> cl_history c \<noteq> [] \<and> info = last (cl_history c))"
proof -
  note inv = csteps_inv [OF assms client_inv_init]
  have "\<exists>p. cl_protocol c = Some p" if "live (cl_phase c)"
    using inv that by (cases "cl_phase c") (auto simp: client_inv_def)
  with inv show ?thesis
    by (cases "cl_connection_info c")
      (auto simp: connection_info_def client_inv_def described_def is_disconnected_error_def)
qed

text \<open>For MQTT 5.0 the keepalive of the snapshot is the interval the protocol of the connection pings with.\<close>

lemma snapshot_keepalive:
  assumes "(cstep mul)\<^sup>*\<^sup>* (client_init cfg rc objects) c" and "connection_info c = Inr info"
    and "cl_protocol c = Some p" and "opt_version (cl_config c) = V50"
  shows "ci_effective_keepalive info = pr_effective_keepalive p"
  using csteps_inv [OF assms(1) client_inv_init] assms(2-4)
  by (auto simp: connection_info_def client_inv_def described_def split: option.splits)

theorem connection_info_current_witness:
  "\<exists>c info. (cstep (*))\<^sup>*\<^sup>* (example_client True None) c \<and> connection_info c = Inr info \<and> info = last (cl_history c)"
proof (rule example_running [of True None])
  fix c assume run: "(cstep (*))\<^sup>*\<^sup>* (example_client True None) c" and ph: "cl_phase c = Running"
  from connection_info_current [OF run [unfolded example_client_def]] ph run show ?thesis
    by (cases "connection_info c") auto
qed

text \<open>
  C10: no transport is forgotten.  When the password can be encoded and \<open>connect()\<close> and \<open>disconnect()\<close> are
  paired as documented (\<open>connect()\<close> only before the first and after each \<open>disconnect()\<close>, no \<open>disconnect()\<close> while a
  \<open>connect()\<close> is under way), every transport the client has let go has its writer closed: after a handshake that failed or was cancelled (a cancelled \<open>connect()\<close>, a \<open>disconnect()\<close> that
  interrupts a recovery), after a lost connection, and after a disconnect.  During a recovery the old
  transport is closed already, and after a disconnect there is none.
\<close>

theorem transports_released:
  assumes "(cstep mul)\<^sup>*\<^sup>* (client_init cfg rc objects) c" and "connect_packet (cl_config c) = Inr packet"
  shows "list_all tr_writer_closed (cl_abandoned c)
    \<and> (cl_phase c = Idle \<longrightarrow> cl_protocol c = None)
    \<and> (recovering (cl_phase c) \<longrightarrow> (\<exists>p. cl_protocol c = Some p \<and> tr_writer_closed (pr_transport p)))"
proof -
  note inv = csteps_inv [OF assms(1) client_inv_init]
  have "in_run (cl_phase c)" if "recovering (cl_phase c)" using that by (cases "cl_phase c") auto
  with inv assms(2) show ?thesis by (auto simp: client_inv_def list_all_iff)
qed

theorem transports_released_witness:
  "\<exists>c p. (cstep (*))\<^sup>*\<^sup>* (example_client True None) c \<and> recovering (cl_phase c) \<and> cl_protocol c = Some p
     \<and> tr_writer_closed (pr_transport p)"
proof (rule example_recovering [of None])
  fix c assume run: "(cstep (*))\<^sup>*\<^sup>* (example_client True None) c" and ph: "cl_phase c = Sleeping True 1 2 0"
    and cfg: "cl_config c = example_config"
  from transports_released [OF run [unfolded example_client_def]] example_packet cfg ph run show ?thesis by auto
qed

text \<open>
  C14: when the application hears of a failed recovery.  While a run goes on, or after it ended without
  an exception, \<open>on_connection_recovery_failed\<close> has not been called.  When an exception ended it, the
  callback was called at most once, also when the callback itself raised, and exactly once if the run was
  ended by a refusal, a timeout or an \<open>OSError\<close>, or by a lost connection with reconnecting off.
  (For \<open>MQTTDisconnectedError\<close> during a recovery nothing more is claimed.)
\<close>

theorem recovery_notified:
  assumes "(cstep mul)\<^sup>*\<^sup>* (client_init cfg rc objects) c" and "cl_phase c \<noteq> Idle" and "\<not> connecting (cl_phase c)"
  shows "case cl_phase c of
       Ended (Some e) \<Rightarrow> cl_recovery_failed c \<le> 1
         \<and> (is_connect_error e \<or> is_timeout_or_os_error e \<or> (is_disconnected_error e \<and> \<not> rc_enabled (cl_reconnect c)) \<longrightarrow>
              cl_recovery_failed c = 1)
     | _ \<Rightarrow> cl_recovery_failed c = 0"
proof -
  have "told (cl_reconnect c) (cl_phase c) (cl_recovery_failed c)"
    using csteps_inv [OF assms(1) client_inv_init] assms(2,3) by (simp add: client_inv_def)
  then show ?thesis by (cases "(cl_reconnect c, cl_phase c, cl_recovery_failed c)" rule: told.cases) (simp_all add: must_tell_def)
qed

text \<open>
  A handshake of a recovery that meets the end of the stream ends the run without a call of the callback.
\<close>

lemma recovery_not_notified:
  "\<exists>c. (cstep (*))\<^sup>*\<^sup>* (example_client True None) c
     \<and> cl_phase c = Ended (Some (Client_MQTT_Error (Outbound.MQTTDisconnectedError ''Connection closed by remote'')))
     \<and> cl_recovery_failed c = 0"
proof (rule example_recovering [of None])
  let ?e = "Client_MQTT_Error (Outbound.MQTTDisconnectedError ''Connection closed by remote'')"
  fix c assume run: "(cstep (*))\<^sup>*\<^sup>* (example_client True None) c" and ph: "cl_phase c = Sleeping True 1 2 0"
    and cfg: "cl_config c = example_config" "cl_reconnect c = cl_reconnect (example_client True None)"
  let ?c1 = "c\<lparr>cl_phase := Trying True 2 0\<rparr>"
  have s1: "cstep (*) c ?c1" by (rule cstep.wake [OF ph])
  obtain c2 where c2: "client_connect (Opened Drained [Eof]) ?c1 = (Inl ?e, c2)"
    using example_refused [of ?c1] cfg(1) by auto
  have once: "connect_once 0 (Opened Drained [Eof]) ?c1 = (GaveUp ?e, c2)"
    by (simp add: connect_once_def c2 is_connect_error_def is_timeout_or_os_error_def)
  let ?c3 = "after_attempt (*) True 2 0 (GaveUp ?e) c2"
  have s2: "cstep (*) ?c1 ?c3" by (rule cstep.attempt [OF _ once]) simp_all
  have "told (cl_reconnect c) (cl_phase c) (cl_recovery_failed c)"
    using csteps_inv [OF run [unfolded example_client_def] client_inv_init] ph by (simp add: client_inv_def)
  moreover have "cl_recovery_failed c2 = cl_recovery_failed c" using client_connect_failed [OF c2] by auto
  ultimately have "cl_recovery_failed ?c3 = 0" "cl_phase ?c3 = Ended (Some ?e)"
    using ph by (auto simp: after_attempt_def notify_subscription_failure_def is_connect_error_def
        is_timeout_or_os_error_def Let_def split: option.split)
  moreover have "(cstep (*))\<^sup>*\<^sup>* (example_client True None) ?c3"
    using run s1 s2 by (meson rtranclp.rtrancl_into_rtrancl)
  ultimately show ?thesis by blast
qed

text \<open>A run that loses its connection with reconnecting off.\<close>

lemma example_ended:
  obtains c where "(cstep (*))\<^sup>*\<^sup>* (example_client False None) c" and "cl_phase c = Running"
    and "(cstep (*)) c (loop_raised (*) Client_OSError c)"
    and "cl_phase (loop_raised (*) Client_OSError c) = Ended (Some (recovery_error Client_OSError c))"
    and "cl_signal (loop_raised (*) Client_OSError c) = cl_signal c" and "cl_objects c = (\<lambda>_. example_object)"
proof (rule example_running [of False None])
  fix c assume run: "(cstep (*))\<^sup>*\<^sup>* (example_client False None) c" and ph: "cl_phase c = Running"
    and rc: "cl_reconnect c = cl_reconnect (example_client False None)" and obs: "cl_objects c = (\<lambda>_. example_object)"
  have s: "cstep (*) c (loop_raised (*) Client_OSError c)"
    by (rule cstep.raised) (simp_all add: ph is_connect_error_def)
  have "cl_phase (loop_raised (*) Client_OSError c) = Ended (Some (recovery_error Client_OSError c))"
    "cl_signal (loop_raised (*) Client_OSError c) = cl_signal c"
    using rc by (auto simp: loop_raised_def is_timeout_or_os_error_def example_client_def client_init_def recovery_error_def
        notify_subscription_failure_def notify_connection_recovery_failed_def Let_def split: option.split)
  with that run ph s obs show ?thesis by blast
qed

theorem recovery_notified_witness:
  "\<exists>c e. (cstep (*))\<^sup>*\<^sup>* (example_client False None) c \<and> cl_phase c = Ended (Some e) \<and> cl_recovery_failed c \<le> 1"
proof (rule example_ended)
  fix c assume run: "(cstep (*))\<^sup>*\<^sup>* (example_client False None) c" and s: "cstep (*) c (loop_raised (*) Client_OSError c)"
    and ended: "cl_phase (loop_raised (*) Client_OSError c) = Ended (Some (recovery_error Client_OSError c))"
  have run': "(cstep (*))\<^sup>*\<^sup>* (example_client False None) (loop_raised (*) Client_OSError c)"
    using run s by (rule rtranclp.rtrancl_into_rtrancl)
  from recovery_notified [OF run' [unfolded example_client_def]] ended run' show ?thesis by auto
qed



end
