(* ===== verification/Client_Subscriptions.thy ===== *)
theory Client_Subscriptions
  imports Client_Run
begin

text \<open>
  The subscriptions of a client across the loss of its connection: the run loop renews those that are
  active on the new connection (\<open>Subscription._reconnect\<close>), and those that were detached stay detached
  (\<open>_detached_filters\<close>, \<open>restore_detached\<close>).
\<close>

section \<open>Detached entries\<close>

definition flags_ok :: "'d client \<Rightarrow> bool" where
  "flags_ok c \<longleftrightarrow> (\<forall>(f, entry) \<in> set (cl_detached_filters c). se_ref entry \<in> current_flags c)"

definition keeps :: "'d client \<Rightarrow> 'd client \<Rightarrow> bool" where
  "keeps c c' \<longleftrightarrow> cl_detached_filters c' = cl_detached_filters c \<and> current_flags c \<subseteq> current_flags c'"

lemma keeps_refl [simp]: "keeps c c"
  by (simp add: keeps_def)

lemma keeps_trans: "keeps a b \<Longrightarrow> keeps b c \<Longrightarrow> keeps a c"
  by (auto simp: keeps_def)

lemma keeps_updates [simp]:
  "keeps c (c'\<lparr>cl_phase := ph\<rparr>) = keeps c c'" "keeps c (c'\<lparr>cl_connection_info := info\<rparr>) = keeps c c'"
  "keeps c (c'\<lparr>cl_signal := sig\<rparr>) = keeps c c'" "keeps c (c'\<lparr>cl_recovery_failed := n\<rparr>) = keeps c c'"
  "keeps c (c'\<lparr>cl_to_restore := is\<rparr>) = keeps c c'" "keeps c (c'\<lparr>cl_abandoned := ts\<rparr>) = keeps c c'"
  "keeps c (c'\<lparr>cl_subscriptions := is\<rparr>) = keeps c c'" "keeps c (set_registered i fs c') = keeps c c'"
  "keeps c (c'\<lparr>cl_queues := qs\<rparr>) = keeps c c'" "keeps c (c'\<lparr>cl_objects := obs\<rparr>) = keeps c c'"
  "keeps c (c'\<lparr>cl_failures := fails\<rparr>) = keeps c c'" "keeps c (c'\<lparr>cl_next_signal := n\<rparr>) = keeps c c'"
  "keeps c (c'\<lparr>cl_callback := x\<rparr>) = keeps c c'"
  by (simp_all add: keeps_def current_flags_def set_registered_def cong: option.case_cong)

lemma keeps_protocol: "cl_protocol c = Some p \<Longrightarrow> activity p p' \<Longrightarrow> keeps c (c\<lparr>cl_protocol := Some p'\<rparr>)"
  by (simp add: keeps_def current_flags_def activity_def)

lemma keeps_mapped:
  "(\<And>p. activity p (g p)) \<Longrightarrow> keeps c (c\<lparr>cl_protocol := map_option g (cl_protocol c)\<rparr>)"
  by (cases "cl_protocol c") (simp_all add: keeps_def current_flags_def activity_def)

lemma notify_keeps [simp]:
  "keeps c (notify_subscription_failure f c') = keeps c c'"
  "keeps c (notify_connection_recovery_failed c') = keeps c c'"
  by (simp_all add: notify_subscription_failure_def notify_connection_recovery_failed_def Let_def split: option.split)

lemma close_active: "activity p (stop_protocol (p\<lparr>pr_transport := transport_close (pr_transport p)\<rparr>))"
  by (rule activity_trans [OF _ stop_protocol_active]) (simp add: activity_def)

lemma loop_raised_keeps: "keeps c (loop_raised mul e c)"
proof -
  have *: "keeps c (c\<lparr>cl_connection_info := None, cl_protocol := map_option g (cl_protocol c)\<rparr>)"
    if "\<And>p. activity p (g p)" for g
    using keeps_mapped [OF that, of "c\<lparr>cl_connection_info := None\<rparr>"] keeps_trans [of c "c\<lparr>cl_connection_info := None\<rparr>"] by simp
  from * [of stop_protocol] * [OF close_active] show ?thesis
    by (simp add: loop_raised_def stop_protocol_active Let_def)
qed

lemma await_connack_cases:
  assumes "await_connack w (r # rs) q = Some (res, rest, q')"
  obtains (lost) t where "q' = q\<lparr>pr_transport := t\<rparr>"
  | (malformed) e e' t b where "reject_oversized e w (q\<lparr>pr_transport := t, pr_buf := b\<rparr>) = (e', q')"
  | (more) t b where "await_connack w rs (q\<lparr>pr_transport := t, pr_buf := b\<rparr>) = Some (res, rest, q')"
  | (packet) packet x t b where "handshake_packet packet (q\<lparr>pr_transport := t, pr_buf := b\<rparr>) = (x, q')"
proof (cases "transport_read r (pr_transport q)")
  case (Pair x t)
  show ?thesis
  proof (cases x)
    case (Inl e)
    with Pair assms lost show ?thesis by auto
  next
    case (Inr data)
    show ?thesis
    proof (cases "feed data (pr_buf q)")
      case None
      with Pair Inr assms lost show ?thesis by auto
    next
      case (Some b)
      obtain out g b' where i: "iter_next Fresh b = (out, g, b')" by (metis prod_cases3)
      show ?thesis
      proof (cases out)
        case (Yield pkt)
        obtain y q1 where "handshake_packet pkt (q\<lparr>pr_transport := t, pr_buf := snd (iter_close g b')\<rparr>) = (y, q1)" by fastforce
        with Pair Inr Some i Yield assms packet show ?thesis by (cases y) auto
      next
        case StopIteration
        with Pair Inr Some i assms more show ?thesis by simp
      next
        case (Raise e)
        obtain e' q1 where "reject_oversized e w (q\<lparr>pr_transport := t, pr_buf := b'\<rparr>) = (e', q1)" by fastforce
        with Pair Inr Some i Raise assms malformed show ?thesis by auto
      qed
    qed
  qed
qed

text \<open>A handshake touches neither the index nor the flags.\<close>

abbreviation same_tables_of :: "protocol \<Rightarrow> protocol \<Rightarrow> bool" where
  "same_tables_of q q' \<equiv> ib_detached (pr_in q') = ib_detached (pr_in q) \<and> pr_index q' = pr_index q"

lemma handshake_frame:
  "send_packet x w q = (e, q') \<Longrightarrow> same_tables_of q q'"
  "reject_oversized e' w q = (e'', q') \<Longrightarrow> same_tables_of q q'"
  "handshake_packet x q = (r, q') \<Longrightarrow> same_tables_of q q'"
proof -
  show s: "send_packet x w q = (e, q') \<Longrightarrow> same_tables_of q q'" for x e q'
    by (auto simp: send_packet_def split: prod.splits option.splits)
  have "same_tables_of q (snd (send_packet x w q))" for x
    using s [of x "fst (send_packet x w q)" "snd (send_packet x w q)"] by simp
  then show "reject_oversized e' w q = (e'', q') \<Longrightarrow> same_tables_of q q'"
    by (auto simp: reject_oversized_def abort_def Let_def split: py_error.splits if_splits)
  show "handshake_packet x q = (r, q') \<Longrightarrow> same_tables_of q q'"
    by (auto simp: handshake_packet_def accept_connack_def Let_def
        split: packet.splits if_splits option.splits sum.splits)
qed

lemma await_connack_frame: "await_connack w rs q = Some (res, rest, q') \<Longrightarrow> same_tables_of q q'"
proof (induction rs arbitrary: q)
  case (Cons r rs)
  from Cons.prems show ?case
  proof (cases rule: await_connack_cases)
    case (more t b)
    then show ?thesis using Cons.IH [OF more] by simp
  qed (auto dest: handshake_frame(2,3))
qed simp

lemma connect_frame: "connect packet w reads p = (res, rest, p') \<Longrightarrow> same_tables_of p p'"
  by (auto simp: connect_def dest!: await_connack_frame handshake_frame(1) split: prod.splits option.splits)

lemma client_connect_keeps: "client_connect att c = (Inl e, c') \<Longrightarrow> keeps c c'"
  by (auto dest!: client_connect_failed)

lemma client_connect_restores:
  assumes "client_connect att c = (Inr reads, c')"
  obtains p where "cl_protocol c' = Some p" and "keeps c c'"
    and "pr_index p = index_add_many (cl_detached_filters c) SubscriptionIndex_init"
    and "ib_detached (pr_in p) = current_flags c"
proof -
  from assms obtain w rs packet connack rest p0 where att: "att = Opened w rs"
    and packet: "connect_packet (cl_config c) = Inr packet"
    and con: "connect packet w rs (new_protocol c) = (Inr connack, rest, p0)"
    by (auto simp: client_connect_def Let_def split: attempt.splits sum.splits prod.splits)
  have new: "pr_index (new_protocol c) = SubscriptionIndex_init" "ib_detached (pr_in (new_protocol c)) = current_flags c"
    by (simp_all add: new_protocol_def client_protocol_def MQTTProtocol_init_def inbound_init_def Let_def)
  obtain p where p: "cl_protocol c' = Some p" "pr_index p = index_add_many (cl_detached_filters c) (pr_index p0)"
    "ib_detached (pr_in p) = ib_detached (pr_in p0)" "cl_detached_filters c' = cl_detached_filters c"
    using assms by (auto simp: client_connect_def att packet con restore_detached_def set_index_def Let_def)
  with connect_frame [OF con] new show ?thesis
    by (intro that [OF p(1)]) (simp_all add: keeps_def current_flags_def)
qed

lemma attempt_keeps:
  assumes "connect_once n att c = (out, c')"
  shows "keeps c (after_attempt mul rec delay n out c')"
proof -
  have "keeps c c'"
    using assms by (cases rule: connect_once_cases) (auto dest: client_connect_keeps elim: client_connect_restores)
  then show ?thesis by (simp add: after_attempt_def split: retry_outcome.split)
qed

lemma reconnect_keeps:
  assumes "cl_protocol c = Some p"
  shows "keeps c (reconnect_begin mul i is ref p c)"
    and "subscribe_end act es p = Some (res, p') \<Longrightarrow> keeps c (reconnect_end mul i is res p' c)"
proof -
  have raised: "keeps c (loop_raised mul e (c\<lparr>cl_protocol := Some p'\<rparr>))" if "activity p p'" for e p'
    by (rule keeps_trans [OF keeps_protocol [OF assms that] loop_raised_keeps])
  show "keeps c (reconnect_begin mul i is ref p c)"
    using subscribe_active(1) raised keeps_protocol [OF assms]
    by (auto simp: reconnect_begin_def Let_def split: prod.split sum.split)
  show "keeps c (reconnect_end mul i is res p' c)" if "subscribe_end act es p = Some (res, p')"
    using subscribe_active(2) [OF that] raised keeps_protocol [OF assms]
    by (auto simp: reconnect_end_def split: prod.split sum.split)
qed

lemma operation_keeps:
  "start_begin i ref c = (res, c') \<Longrightarrow> keeps c c'"
  "start_end i r c = (e, c') \<Longrightarrow> keeps c c'"
  "stop_begin was_cancelled i c = (u, c') \<Longrightarrow> keeps c c'"
  "take_message i c = Some (m, c') \<Longrightarrow> keeps c c'"
  "notify_capacity_available fails c = (st, c') \<Longrightarrow> keeps c c'"
proof -
  show "start_begin i ref c = (res, c') \<Longrightarrow> keeps c c'"
    by (auto simp: start_begin_def keeps_def current_flags_def Let_def activity_def dest!: subscribe_active(1)
        split: option.splits if_splits prod.splits sum.splits)
  show "start_end i r c = (e, c') \<Longrightarrow> keeps c c'" by (auto simp: start_end_def split: sum.splits prod.splits)
  show "stop_begin was_cancelled i c = (u, c') \<Longrightarrow> keeps c c'"
    by (auto simp: stop_begin_def keeps_def current_flags_def Let_def activity_def dest!: unsubscribe_active
        split: option.splits if_splits prod.splits sum.splits)
  show "take_message i c = Some (m, c') \<Longrightarrow> keeps c c'"
    by (auto simp: take_message_def keeps_def current_flags_def split: list.splits option.splits)
  show "notify_capacity_available fails c = (st, c') \<Longrightarrow> keeps c c'"
    by (auto simp: notify_capacity_available_def keeps_def current_flags_def activity_def dest!: subscribe_active(3)
        split: option.splits prod.splits)
qed

text \<open>What detaching adds.\<close>

lemma detach_entries:
  assumes "detach fs p = (ds, p')"
  shows "ib_detached (pr_in p) \<subseteq> ib_detached (pr_in p')" and "\<forall>(f, entry) \<in> set ds. se_ref entry \<in> ib_detached (pr_in p')"
    and "f \<in> set fs \<Longrightarrow> index_get f (pr_index p) \<noteq> None \<Longrightarrow> f \<in> fst ` set ds"
proof -
  have "ib_detached (pr_in p) \<subseteq> ib_detached (pr_in p') \<and> (\<forall>(f, entry) \<in> set ds. se_ref entry \<in> ib_detached (pr_in p'))
      \<and> (\<forall>f. f \<in> set fs \<longrightarrow> index_get f (pr_index p) \<noteq> None \<longrightarrow> f \<in> fst ` set ds)"
    using assms
  proof (induction fs arbitrary: p ds p')
    case (Cons g fs)
    show ?case
    proof (cases "index_get g (pr_index p)")
      case None
      with Cons.prems Cons.IH [of p ds p'] show ?thesis by auto
    next
      case (Some entry)
      let ?p = "p\<lparr>pr_in := (pr_in p)\<lparr>ib_detached := insert (se_ref entry) (ib_detached (pr_in p))\<rparr>\<rparr>"
      obtain ds1 p1 where d: "detach fs ?p = (ds1, p1)" by fastforce
      with Cons.prems Some have r: "ds = (g, entry) # AList.delete g ds1" "p' = p1" by auto
      have keys: "f \<in> fst ` set (AList.delete g ds1)" if "f \<in> fst ` set ds1" "f \<noteq> g" for f
        using that by (auto simp: AList.delete_eq)
      have sub: "set (AList.delete g ds1) \<subseteq> set ds1" by (auto simp: AList.delete_eq)
      from Cons.IH [OF d] r sub show ?thesis by (auto intro: keys)
    qed
  qed simp
  then show "ib_detached (pr_in p) \<subseteq> ib_detached (pr_in p')" "\<forall>(f, entry) \<in> set ds. se_ref entry \<in> ib_detached (pr_in p')"
    "f \<in> set fs \<Longrightarrow> index_get f (pr_index p) \<noteq> None \<Longrightarrow> f \<in> fst ` set ds" by auto
qed

lemma fold_update:
  "fst ` set (fold (\<lambda>(f, entry). AList.update f entry) ds l) = fst ` set ds \<union> fst ` set l"
  "set (fold (\<lambda>(f, entry). AList.update f entry) ds l) \<subseteq> set ds \<union> set l"
proof (induction ds arbitrary: l)
  case (Cons d ds)
  {
    case 1
    show ?case using Cons(1) by (auto simp: case_prod_beta AList.dom_update)
  next
    case 2
    show ?case using Cons(2) [of "AList.update (fst d) (snd d) l"] by (auto simp: case_prod_beta dest!: set_AList_update)
  }
qed simp_all

lemma empty_queue_keeps: "keeps c (empty_queue i c)"
  by (auto simp: empty_queue_def keeps_def current_flags_def split: option.splits)

lemma detach_local_flags:
  assumes "flags_ok c"
  shows "flags_ok (detach_local i c)" and "fst ` set (cl_detached_filters c) \<subseteq> fst ` set (cl_detached_filters (detach_local i c))"
    and "cl_protocol c = Some p \<Longrightarrow> f \<in> set (so_registered_filters (cl_objects c i)) \<Longrightarrow>
      index_get f (pr_index p) \<noteq> None \<Longrightarrow> f \<in> fst ` set (cl_detached_filters (detach_local i c))"
proof -
  let ?c = "c\<lparr>cl_objects := (cl_objects c)(i := (cl_objects c i)\<lparr>so_detached := True\<rparr>)\<rparr>"
  have fl: "flags_ok (empty_queue i c') = flags_ok c'" "cl_detached_filters (empty_queue i c') = cl_detached_filters c'" for c' :: "'a client"
    by (auto simp: flags_ok_def empty_queue_def current_flags_def split: option.splits)
  have "flags_ok (detach_local i c) \<and> fst ` set (cl_detached_filters c) \<subseteq> fst ` set (cl_detached_filters (detach_local i c))
    \<and> (\<forall>p f. cl_protocol c = Some p \<longrightarrow> f \<in> set (so_registered_filters (cl_objects c i)) \<longrightarrow>
      index_get f (pr_index p) \<noteq> None \<longrightarrow> f \<in> fst ` set (cl_detached_filters (detach_local i c)))"
  proof (cases "cl_protocol c")
    case None
    have "flags_ok ?c" using assms None by (simp add: flags_ok_def current_flags_def)
    with None fl show ?thesis by (simp add: detach_local_def Let_def)
  next
    case (Some p)
    obtain ds p' where d: "detach (so_registered_filters (cl_objects c i)) p = (ds, p')" by fastforce
    let ?l = "fold (\<lambda>(f, entry). AList.update f entry) ds (cl_detached_filters c)"
    have res: "detach_local i c = empty_queue i (?c\<lparr>cl_protocol := Some p', cl_detached_filters := ?l\<rparr>)"
      using Some d by (simp add: detach_local_def Let_def)
    have old: "\<forall>(f, entry) \<in> set (cl_detached_filters c). se_ref entry \<in> ib_detached (pr_in p')"
      using assms Some detach_entries(1) [OF d] by (auto simp: flags_ok_def current_flags_def)
    have "flags_ok (?c\<lparr>cl_protocol := Some p', cl_detached_filters := ?l\<rparr>)"
      using old detach_entries(2) [OF d] fold_update(2) [of ds "cl_detached_filters c"]
      by (fastforce simp: flags_ok_def current_flags_def)
    with Some fl detach_entries(3) [OF d] show ?thesis by (auto simp: res fold_update(1))
  qed
  then show "flags_ok (detach_local i c)" "fst ` set (cl_detached_filters c) \<subseteq> fst ` set (cl_detached_filters (detach_local i c))"
    "cl_protocol c = Some p \<Longrightarrow> f \<in> set (so_registered_filters (cl_objects c i)) \<Longrightarrow>
      index_get f (pr_index p) \<noteq> None \<Longrightarrow> f \<in> fst ` set (cl_detached_filters (detach_local i c))" by auto
qed

text \<open>Every step keeps the flags of the detached entries, and none but a disconnect gives one up.\<close>

lemma keeps_flags_ok: "keeps c c' \<Longrightarrow> flags_ok c \<Longrightarrow> flags_ok c'"
  by (auto simp: keeps_def flags_ok_def)

lemma disconnect_forgets: "flags_ok (client_disconnect w c) \<and> cl_phase (client_disconnect w c) = Idle"
  by (cases "cl_protocol c") (simp_all add: client_disconnect_def flags_ok_def Let_def)

lemma cstep_detached:
  assumes "cstep mul c c'" and "flags_ok c"
  shows "flags_ok c' \<and> (cl_phase c' \<noteq> Idle \<longrightarrow> fst ` set (cl_detached_filters c) \<subseteq> fst ` set (cl_detached_filters c'))"
proof -
  have kept: ?thesis if "keeps c c'" using that keeps_flags_ok [OF that assms(2)] by (simp add: keeps_def)
  from assms(1) show ?thesis
  proof cases
    case (disconnect w)
    then show ?thesis by (simp add: disconnect_forgets)
  next
    case (disconnect_handshake delay n r reads res c'' w)
    then show ?thesis by (simp add: disconnect_forgets)
  next
    case (detach i)
    have "flags_ok (c\<lparr>cl_subscriptions := remove1 i (cl_subscriptions c)\<rparr>)"
      using assms(2) by (simp add: flags_ok_def current_flags_def cong: option.case_cong)
    from detach_local_flags(1,2) [OF this, of i] detach assms(2) show ?thesis by (auto simp: subscription_detach_def)
  next
    case (active p p')
    then show ?thesis using kept keeps_protocol by blast
  next
    case (attempt rec delay n att out c'')
    then show ?thesis using kept attempt_keeps by blast
  next
    case (reconnect i "is" p ref)
    then show ?thesis using kept reconnect_keeps(1) by blast
  next
    case (reconnected i "is" act es p res p')
    then show ?thesis using kept reconnect_keeps(2) by blast
  next
    case (raised e)
    then show ?thesis using kept loop_raised_keeps by blast
  next
    case returned
    then show ?thesis using kept keeps_mapped [OF stop_protocol_active, of c] by simp
  next
    case (start i ref res)
    then show ?thesis by (rule kept [OF operation_keeps(1)])
  next
    case (started i res e)
    then show ?thesis by (rule kept [OF operation_keeps(2)])
  next
    case (stop was_cancelled i res)
    then show ?thesis by (rule kept [OF operation_keeps(3)])
  next
    case (take i m)
    then show ?thesis by (rule kept [OF operation_keeps(4)])
  next
    case (capacity fails st)
    then show ?thesis by (rule kept [OF operation_keeps(5)])
  qed (rule kept, simp)+
qed

lemma init_flags_ok: "flags_ok (client_init cfg rc objects)"
  by (simp add: flags_ok_def client_init_def)

interpretation detached_run: step_invariant "cstep mul" flags_ok for mul
  by unfold_locales (use cstep_detached in blast)

lemmas csteps_flags_ok = detached_run.steps_kept

lemma online_detached:
  "(\<lambda>a b. cstep mul a b \<and> cl_phase b \<noteq> Idle)\<^sup>*\<^sup>* c c' \<Longrightarrow> flags_ok c \<Longrightarrow>
     flags_ok c' \<and> fst ` set (cl_detached_filters c) \<subseteq> fst ` set (cl_detached_filters c')"
  by (induction rule: rtranclp_induct) (use cstep_detached in blast)+

lemma detached_not_delivered:
  assumes "ir_request r = None" and "ir_subscription r = Some (f, entry)" and "se_ref entry \<in> ib_detached w"
    and "pub_qos q = AT_MOST_ONCE \<or> pub_packet_id q \<noteq> None"
  shows "deliver_replay q r w = (Done, w)"
proof -
  have d: "deliver_then r cb (Some pid) w = (Done, w)" "deliver_then r cb None w = (Done, w)" for cb pid
    using assms(1-3) by (simp_all add: deliver_then_def deliver_def after_delivery_def)
  with assms show ?thesis
    by (auto simp: deliver_replay_def deliver_qos1_publish_def accept_qos2_publish_def split: QoS.split option.split)
qed

text \<open>
  A message that arrives for the entry \<open>it\<close>: no request claims it, the replay buffer holds nothing of its
  topic or identifier, the quota has room and no flight of its identifier is open.
\<close>

definition arrives_for :: "Publish \<Rightarrow> item \<Rightarrow> inbound \<Rightarrow> bool" where
  "arrives_for q it w \<longleftrightarrow> unclaimed q w \<and> subscriber_of q w = Some it
     \<and> (\<forall>b. ib_replay w = PersistentReplayBuffered b \<longrightarrow>
          map_of (rb_topics b) (pub_topic q) = None \<and> (\<forall>pid. pub_packet_id q = Some pid \<longrightarrow> pid \<notin> rb_packet_ids b))
     \<and> (pub_qos q \<noteq> AT_MOST_ONCE \<longrightarrow>
          (\<exists>pid. pub_packet_id q = Some pid \<and> room_for pid w \<and> map_of (ib_inflight_qos2_in w) pid = None))"

lemma arrives_with:
  assumes "arrives_for q it w"
  shows "with_recipient q k (w\<lparr>ib_unacknowledged := u\<rparr>) = k (recipient_of q it) (w\<lparr>ib_unacknowledged := u\<rparr>)"
proof -
  let ?w = "w\<lparr>ib_unacknowledged := u\<rparr>"
  have "unclaimed q ?w" "subscriber_of q ?w = Some it"
    using assms by (simp_all add: arrives_for_def unclaimed_def subscriber_of_def)
  then have "select_recipient q ?w = (recipient_of q it, ?w)" by (simp add: unclaimed_select recipient_of_def)
  with assms show ?thesis
    by (auto simp: with_recipient_def select_recipient_or_buffer_def accept_def accept_no_session_def accept_idle_def
        accept_buffered_def arrives_for_def split: replay.split)
qed

lemma detached_not_handled:
  assumes "arrives_for q (f, entry) w" and "se_ref entry \<in> ib_detached w"
  shows "\<exists>u. handle_publish q w = (Done, w\<lparr>ib_unacknowledged := u\<rparr>)"
proof -
  have d: "deliver_then (recipient_of q (f, entry)) cb pb (w\<lparr>ib_unacknowledged := u\<rparr>) = (Done, w\<lparr>ib_unacknowledged := u\<rparr>)" for cb pb u
    using assms(2) by (simp add: deliver_then_def deliver_def after_delivery_def split: option.split)
  show ?thesis
  proof (cases "pub_qos q = AT_MOST_ONCE")
    case True
    then show ?thesis using arrives_with [OF assms(1), of _ "ib_unacknowledged w"] d [of None None "ib_unacknowledged w"]
      by (auto simp: handle_publish_def intro: exI [of _ "ib_unacknowledged w"])
  next
    case False
    then obtain pid where pid: "pub_packet_id q = Some pid" "room_for pid w" "map_of (ib_inflight_qos2_in w) pid = None"
      using assms(1) by (auto simp: arrives_for_def)
    have held: "\<not> contains_packet_id pid (ib_replay w)"
      using assms(1) pid(1) by (auto simp: arrives_for_def contains_packet_id_def split: replay.split)
    let ?w = "w\<lparr>ib_unacknowledged := insert pid (ib_unacknowledged w)\<rparr>"
    have "handle_publish q w = (Done, ?w)"
    proof (cases "pub_qos q")
      case AT_LEAST_ONCE
      then show ?thesis using pid held d
        by (simp add: handle_publish_def handle_qos1_publish_def hold_quota_room arrives_with [OF assms(1)] deliver_qos1_publish_def)
    next
      case EXACTLY_ONCE
      then show ?thesis using pid held assms(2)
        by (simp add: handle_publish_def handle_qos2_publish_def hold_quota_room arrives_with [OF assms(1)] accept_qos2_publish_def)
    qed (use False in simp)
    then show ?thesis by blast
  qed
qed

section \<open>Renewal\<close>

text \<open>
  The steps of the run loop from a new connection to the end of its renewals, when the broker grants
  every SUBSCRIBE: ask for the next subscription, be answered, and whatever else happens on the
  connection that leaves the index alone.
\<close>

inductive renew :: "('d :: linorder \<Rightarrow> 'd \<Rightarrow> 'd) \<Rightarrow> 'd client \<Rightarrow> 'd client \<Rightarrow> bool" for mul where
  asked: "cl_phase c = Restoring (i # is) \<Longrightarrow> cl_protocol c = Some p \<Longrightarrow>
    live (cl_phase (reconnect_begin mul i is ref p c)) \<Longrightarrow> renew mul c (reconnect_begin mul i is ref p c)"
| granted: "cl_phase c = Resubscribing (i # is) act es \<Longrightarrow> cl_protocol c = Some p \<Longrightarrow>
    subscribe_end act es p = Some (Inr r, p') \<Longrightarrow> renew mul c (reconnect_end mul i is (Inr r) p' c)"
| elsewhere: "cl_protocol c = Some p \<Longrightarrow> activity p p' \<Longrightarrow> pr_index p' = pr_index p \<Longrightarrow>
    renew mul c (c\<lparr>cl_protocol := Some p'\<rparr>)"

lemma renew_cstep: "renew mul c c' \<Longrightarrow> cstep mul c c'"
  by (induction rule: renew.induct) (auto intro: cstep.reconnect cstep.active cstep.reconnected)

text \<open>The subscription that a filter belongs to after those in the list were renewed, in order.\<close>

definition wants :: "(nat \<Rightarrow> sub_object) \<Rightarrow> pystr \<Rightarrow> nat \<Rightarrow> bool" where
  "wants objects f i \<longleftrightarrow> \<not> so_detached (objects i) \<and> f \<in> set (su_filters (objects i))"

definition entry_of :: "(nat \<Rightarrow> sub_object) \<Rightarrow> nat \<Rightarrow> SubscriptionEntry \<Rightarrow> bool" where
  "entry_of objects i e \<longleftrightarrow> se_queue e = i \<and> se_auto_ack e = su_auto_ack (objects i)
     \<and> se_subscription_identifier e = su_subscription_identifier (objects i)"

definition renewed :: "(nat \<Rightarrow> sub_object) \<Rightarrow> protocol \<Rightarrow> nat list \<Rightarrow> protocol \<Rightarrow> bool" where
  "renewed objects p is p' \<longleftrightarrow>
     (\<forall>f. case index_get f (pr_index p) of
            Some e \<Rightarrow> index_get f (pr_index p') = Some e
          | None \<Rightarrow>
              (case find (wants objects f) is of
                 None \<Rightarrow> index_get f (pr_index p') = None
               | Some i \<Rightarrow> (\<exists>e. index_get f (pr_index p') = Some e \<and> entry_of objects i e)))"

definition left_to_renew :: "'d phase \<Rightarrow> nat list option" where
  "left_to_renew ph = (case ph of Restoring is \<Rightarrow> Some is | Resubscribing is act es \<Rightarrow> Some (tl is) | _ \<Rightarrow> None)"

definition same_objects :: "(nat \<Rightarrow> sub_object) \<Rightarrow> (nat \<Rightarrow> sub_object) \<Rightarrow> bool" where
  "same_objects obs obs' \<longleftrightarrow> (\<forall>i. Subscription.truncate (obs' i) = Subscription.truncate (obs i) \<and> so_detached (obs' i) = so_detached (obs i))"

lemma find_snoc: "find P (xs @ [y]) = (case find P xs of None \<Rightarrow> if P y then Some y else None | Some x \<Rightarrow> Some x)"
  by (induction xs) auto

lemma subscribe_begin_index:
  assumes "subscribe_begin reqs auto_ack queue ident ref p = (Inr (act, es), p1)"
    and "index_get f (pr_index p) = None" and "f \<notin> sr_topic_filter ` set reqs"
  shows "index_get f (pr_index p1) = None"
proof -
  have "f \<notin> subscribed p1"
    using subscribe_begin_spec(4) [OF assms(1) refl] assms(2,3) by (simp add: subscribed_def index_contains_def index_get_def)
  then show ?thesis by (simp add: subscribed_def index_contains_def index_get_def)
qed

lemma renewed_Nil: "renewed objects p [] p"
  by (simp add: renewed_def split: option.split)

lemma renewed_detached: "renewed objects p is q \<Longrightarrow> so_detached (objects i) \<Longrightarrow> renewed objects p (is @ [i]) q"
proof -
  assume "so_detached (objects i)"
  then have "find (wants objects f) (is @ [i]) = find (wants objects f) is" for f
    by (simp add: find_snoc wants_def split: option.split)
  then show "renewed objects p is q \<Longrightarrow> renewed objects p (is @ [i]) q" by (simp only: renewed_def simp_thms)
qed

lemma renewed_snoc:
  assumes "renewed objects p is q" and "\<not> so_detached (objects i)"
    and "subscribe_begin (subscription_requests (Subscription.truncate (objects i))) (su_auto_ack (objects i)) i
      (su_subscription_identifier (objects i)) ref q = (Inr (act, es), q')"
  shows "renewed objects p (is @ [i]) q'"
proof -
  note parts = subscribe_atomic_parts(1,2) [OF assms(3)]
  have filters: "sr_topic_filter ` set (subscription_requests (Subscription.truncate (objects i))) = set (su_filters (objects i))"
    by (force simp: subscription_requests_def Subscription.truncate_def)
  have kept: "index_get f (pr_index q) = Some e \<Longrightarrow> index_get f (pr_index q') = Some e" for f e using parts(1) by blast
  have added: "\<exists>e. index_get f (pr_index q') = Some e \<and> entry_of objects i e"
    if "index_get f (pr_index q) = None" "f \<in> set (su_filters (objects i))" for f
    using parts(2) [of f] that by (auto simp: filters entry_for_def entry_of_def)
  have absent: "index_get f (pr_index q') = None" if "index_get f (pr_index q) = None" "f \<notin> set (su_filters (objects i))" for f
    using subscribe_begin_index [OF assms(3) that(1)] that(2) by (simp add: filters)
  show ?thesis
    unfolding renewed_def
  proof
    fix f
    show "case index_get f (pr_index p) of Some e \<Rightarrow> index_get f (pr_index q') = Some e
      | None \<Rightarrow> (case find (wants objects f) (is @ [i]) of None \<Rightarrow> index_get f (pr_index q') = None
          | Some i \<Rightarrow> (\<exists>e. index_get f (pr_index q') = Some e \<and> entry_of objects i e))"
      using assms(1) [unfolded renewed_def, rule_format, of f] kept [of f] added [of f] absent [of f] assms(2)
      by (auto simp: find_snoc wants_def split: option.splits)
  qed
qed

definition renewing :: "'d client \<Rightarrow> protocol \<Rightarrow> nat list \<Rightarrow> 'd client \<Rightarrow> bool" where
  "renewing c0 p0 is0 c \<longleftrightarrow>
     (\<exists>p is todo. cl_protocol c = Some p \<and> left_to_renew (cl_phase c) = Some todo \<and> is0 = is @ todo
        \<and> renewed (cl_objects c0) p0 is p \<and> same_objects (cl_objects c0) (cl_objects c))"

lemma same_objects_refl [simp]: "same_objects obs obs"
  by (simp add: same_objects_def)

lemma same_objects_registered: "same_objects obs (cl_objects c) \<Longrightarrow> same_objects obs (cl_objects (set_registered i fs c))"
  by (simp add: same_objects_def set_registered_def Subscription.truncate_def)

lemma renewed_index: "pr_index q' = pr_index q \<Longrightarrow> renewed objects p is q \<Longrightarrow> renewed objects p is q'"
  by (simp only: renewed_def simp_thms)

lemma same_objectsD:
  assumes "same_objects obs obs'"
  shows "so_detached (obs' i) = so_detached (obs i)" "Subscription.truncate (obs' i) = Subscription.truncate (obs i)"
    "su_auto_ack (obs' i) = su_auto_ack (obs i)" "su_subscription_identifier (obs' i) = su_subscription_identifier (obs i)"
  using assms by (auto simp: same_objects_def Subscription.truncate_def)

lemma loop_raised_not_live: "\<not> live (cl_phase (loop_raised mul e c))"
  by (simp add: loop_raised_def notify_subscription_failure_def notify_connection_recovery_failed_def Let_def split: option.split)

lemma renew_renewing: "renew mul c c' \<Longrightarrow> renewing c0 p0 is0 c \<Longrightarrow> renewing c0 p0 is0 c'"
proof (induction rule: renew.induct)
  case (asked c i todo p ref)
  from asked.prems asked.hyps(1,2) obtain "is" where r: "is0 = is @ i # todo" "renewed (cl_objects c0) p0 is p"
    "same_objects (cl_objects c0) (cl_objects c)" by (auto simp: renewing_def left_to_renew_def)
  note obs = same_objectsD [OF r(3), of i]
  show ?case
  proof (cases "so_detached (cl_objects c0 i)")
    case True
    with r obs(1) asked.hyps renewed_detached [OF r(2)] show ?thesis
      by (auto simp: renewing_def left_to_renew_def reconnect_begin_def Let_def intro!: exI [of _ "is @ [i]"])
  next
    case False
    obtain res p' where b: "subscribe_begin (subscription_requests (Subscription.truncate (cl_objects c0 i)))
      (su_auto_ack (cl_objects c0 i)) i (su_subscription_identifier (cl_objects c0 i)) ref p = (res, p')" by fastforce
    obtain act es where res: "res = Inr (act, es)"
      using asked.hyps(3) loop_raised_not_live b False obs by (cases res) (auto simp: reconnect_begin_def)
    have "reconnect_begin mul i todo ref p c = c\<lparr>cl_protocol := Some p', cl_phase := Resubscribing (i # todo) act es\<rparr>"
      using b res False obs by (simp add: reconnect_begin_def)
    with r renewed_snoc [OF r(2) False b [unfolded res]] show ?thesis
      by (auto simp: renewing_def left_to_renew_def intro!: exI [of _ "is @ [i]"])
  qed
next
  case (granted c i todo act es p r p')
  obtain suback queues where r: "r = (suback, queues)" by fastforce
  have "pr_index p' = pr_index p"
    using granted.hyps(3) by (auto simp: subscribe_end_def split: option.splits sum.splits prod.splits)
  with granted.prems granted.hyps(1,2) same_objects_registered renewed_index show ?case
    by (auto simp: renewing_def left_to_renew_def reconnect_end_def r set_registered_def)
next
  case (elsewhere c p p')
  then show ?case using renewed_index by (fastforce simp: renewing_def)
qed

interpretation renewal: step_invariant "renew mul" "renewing c0 p0 is0" for mul c0 p0 is0
  by unfold_locales (rule renew_renewing)

section \<open>Properties\<close>

text \<open>
  C12: subscriptions survive a reconnection.  When the run loop has renewed a list of subscriptions on a
  new connection and the broker granted each, every filter of a subscription that is not detached
  has its entry again, with the queue, acknowledgement mode and identifier of the first subscription
  in the list that asks for it; entries that were there keep their place, and no others appear.
\<close>

theorem subscriptions_renewed:
  assumes "cl_phase c = Restoring is" and "cl_protocol c = Some p"
    and "(renew mul)\<^sup>*\<^sup>* c c'" and "cl_phase c' = Restoring []"
  shows "\<exists>p'. cl_protocol c' = Some p' \<and> renewed (cl_objects c) p is p'"
proof -
  have start: "renewing c p is c"
    using assms(1,2) renewed_Nil by (auto simp: renewing_def left_to_renew_def intro!: exI [of _ "[]"])
  from renewal.steps_kept [OF assms(3) start] have "renewing c p is c'" .
  with assms(4) show ?thesis by (auto simp: renewing_def left_to_renew_def)
qed

theorem subscriptions_renewed_witness:
  "\<exists>c' p'. (renew (*))\<^sup>*\<^sup>* ((example_client True None)\<lparr>cl_phase := Restoring [0], cl_protocol := Some example_protocol\<rparr>) c'
     \<and> cl_protocol c' = Some p' \<and> (\<exists>e. index_get (str_lit ''a'') (pr_index p') = Some e \<and> se_queue e = 0)"
proof (rule example_subscribe)
  let ?c = "(example_client True None)\<lparr>cl_phase := Restoring [0], cl_protocol := Some example_protocol\<rparr>"
  let ?act = "Subscribing 1 0 [example_request]"
  let ?ack = "\<lparr>sback_packet_id = 1, sback_return_codes = [0], sback_properties = None\<rparr> :: SubAck"
  fix es p1
  assume b: "subscribe_begin [example_request] True 0 None 0 example_protocol = (Inr (?act, es), p1)"
    and w: "ob_futures (pr_out p1) 0 = Waiting" and pend: "ob_pending_subs (pr_out p1) = [(1, 0)]"
  define p2 where "p2 = snd (dispatch (SubAck ?ack) p1)"
  have p2: "pr_index p2 = pr_index p1" "activity p1 p2" "ob_futures (pr_out p2) 0 = Answered (SubAck ?ack)"
    using w pend by (simp_all add: p2_def dispatch_def dispatch_outbound_def handle_suback_def set_result_def)
  obtain res p3 where e: "subscribe_end ?act es p2 = Some (Inr res, p3)"
    using p2(3) by (auto simp: subscribe_end_def finish_def await_reply_def check_reply_def raise_on_rejected_filters_def
        rejected_filters_def Let_def activity_future_def)
  have obj: "cl_objects ?c 0 = example_object" by (simp add: example_client_def client_init_def)
  have reqs: "subscription_requests (Subscription.truncate example_object) = [example_request]"
    by (simp add: subscription_requests_def example_object_def Subscription.truncate_def example_request_def observer_request_def)
  have fields: "so_detached example_object = False" "su_auto_ack example_object = True" "su_subscription_identifier example_object = None"
    by (simp_all add: example_object_def)
  let ?c1 = "?c\<lparr>cl_protocol := Some p1, cl_phase := Resubscribing [0] ?act es\<rparr>"
  have c1: "reconnect_begin (*) 0 [] 0 example_protocol ?c = ?c1"
    unfolding reconnect_begin_def Let_def obj reqs fields using b by simp
  have s1: "renew (*) ?c ?c1" using renew.asked [of ?c 0 "[]" example_protocol "(*)" 0] by (simp add: c1)
  have s2: "renew (*) ?c1 (?c1\<lparr>cl_protocol := Some p2\<rparr>)" by (rule renew.elsewhere) (simp_all add: p2)
  let ?c3 = "reconnect_end (*) 0 [] (Inr res) p3 (?c1\<lparr>cl_protocol := Some p2\<rparr>)"
  have s3: "renew (*) (?c1\<lparr>cl_protocol := Some p2\<rparr>) ?c3" by (rule renew.granted [OF _ _ e]) simp_all
  have run: "(renew (*))\<^sup>*\<^sup>* ?c ?c3" using s1 s2 s3 by (meson converse_rtranclp_into_rtranclp r_into_rtranclp)
  have "cl_phase ?c3 = Restoring []" by (cases res) (simp add: reconnect_end_def set_registered_def)
  from subscriptions_renewed [OF _ _ run this] obtain p' where p': "cl_protocol ?c3 = Some p'"
    "renewed (cl_objects ?c) example_protocol [0] p'" by auto
  have none: "index_get (str_lit ''a'') (pr_index example_protocol) = None"
    by (simp add: example_protocol_def MQTTProtocol_init_def inbound_init_def SubscriptionIndex_init_def index_get_def)
  have "find (wants (cl_objects ?c) (str_lit ''a'')) [0] = Some 0"
    using obj by (simp add: wants_def example_object_def)
  with p'(2) none have "\<exists>e. index_get (str_lit ''a'') (pr_index p') = Some e \<and> entry_of (cl_objects ?c) 0 e"
    using renewed_def [THEN iffD1, rule_format, OF p'(2), of "str_lit ''a''"] by simp
  with run p'(1) show ?thesis by (auto simp: entry_of_def)
qed

text \<open>
  C13: a detached subscription stays detached.  Let a filter of the subscription have an entry on the
  connection when \<open>detach\<close> is called (so not while a recovery has yet to renew it).  Then, whatever happens
  short of a disconnect, the protocol of every later connection has an entry for the filter before it
  reads anything, and at any time on that connection a message for this entry is neither queued nor
  acknowledged, so that the broker keeps it: one from the replay buffer changes nothing at all, and one
  that arrives (that the replay buffer does not hold back, with room in the quota and no open flight of its
  identifier) only takes a unit of the quota.
\<close>

theorem detach_survives:
  assumes "(cstep mul)\<^sup>*\<^sup>* (client_init cfg rc objects) c" and "cl_protocol c = Some p"
    and "i \<in> set (cl_subscriptions c)" and "f \<in> set (so_registered_filters (cl_objects c i))"
    and "index_get f (pr_index p) \<noteq> None"
    and "(\<lambda>a b. cstep mul a b \<and> cl_phase b \<noteq> Idle)\<^sup>*\<^sup>* (subscription_detach i c) c1"
    and "client_connect att c1 = (Inr reads, c2)"
  shows "\<exists>p2 e. cl_protocol c2 = Some p2 \<and> index_get f (pr_index p2) = Some e
    \<and> (\<forall>w q. ib_detached (pr_in p2) \<subseteq> ib_detached w \<longrightarrow>
         (\<forall>r. ir_request r = None \<and> ir_subscription r = Some (f, e) \<and> (pub_qos q = AT_MOST_ONCE \<or> pub_packet_id q \<noteq> None) \<longrightarrow>
            deliver_replay q r w = (Done, w))
         \<and> (arrives_for q (f, e) w \<longrightarrow> (\<exists>u. handle_publish q w = (Done, w\<lparr>ib_unacknowledged := u\<rparr>))))"
proof -
  let ?c = "c\<lparr>cl_subscriptions := remove1 i (cl_subscriptions c)\<rparr>"
  have "flags_ok c" using csteps_flags_ok [OF assms(1) init_flags_ok] .
  then have ok: "flags_ok ?c" by (simp add: flags_ok_def current_flags_def cong: option.case_cong)
  from detach_local_flags(1,3) [OF ok] assms(2-5)
  have d: "flags_ok (subscription_detach i c)" "f \<in> fst ` set (cl_detached_filters (subscription_detach i c))"
    by (auto simp: subscription_detach_def)
  from online_detached [OF assms(6) d(1)] d(2) have c1: "flags_ok c1" "f \<in> fst ` set (cl_detached_filters c1)" by auto
  from assms(7) obtain p2 where p2: "cl_protocol c2 = Some p2"
    "pr_index p2 = index_add_many (cl_detached_filters c1) SubscriptionIndex_init" "ib_detached (pr_in p2) = current_flags c1"
    by (rule client_connect_restores)
  from index_get_added [OF c1(2), of SubscriptionIndex_init] p2(2) obtain e where
    e: "(f, e) \<in> set (cl_detached_filters c1)" "index_get f (pr_index p2) = Some e" by auto
  have "se_ref e \<in> ib_detached (pr_in p2)" using c1(1) e(1) p2(3) by (auto simp: flags_ok_def)
  then have flag: "se_ref e \<in> ib_detached w" if "ib_detached (pr_in p2) \<subseteq> ib_detached w" for w using that by blast
  show ?thesis
    by (rule exI [of _ p2], rule exI [of _ e]) (use p2(1) e(2) flag detached_not_delivered detached_not_handled in blast)
qed

lemma example_detachable:
  obtains c p where "(cstep (*))\<^sup>*\<^sup>* (example_client True None) c" and "cl_protocol c = Some p" and "0 \<in> set (cl_subscriptions c)"
    and "so_registered_filters (cl_objects c 0) = [str_lit ''a'']" and "index_get (str_lit ''a'') (pr_index p) \<noteq> None"
    and "cl_phase c = Running"
proof (rule example_running [of True None])
  fix c assume run: "(cstep (*))\<^sup>*\<^sup>* (example_client True None) c" and ph: "cl_phase c = Running"
    and obs: "cl_objects c = (\<lambda>_. example_object)"
  obtain p where p: "cl_protocol c = Some p"
    using csteps_inv [OF run [unfolded example_client_def] client_inv_init] ph by (auto simp: client_inv_def)
  obtain res c1 where start: "start_begin 0 0 c = (res, c1)" by fastforce
  obtain p1 where c1: "cl_protocol c1 = Some p1" "0 \<in> set (cl_subscriptions c1)" "cl_phase c1 = Running"
    "cl_objects c1 = (\<lambda>_. example_object)"
    using start p ph obs by (auto simp: start_begin_def example_object_def Let_def split: prod.splits sum.splits)
  let ?entry = "\<lparr>se_ref = 0, se_queue = 0, se_auto_ack = True, se_actual_filter = str_lit ''a'',
    se_subscription_identifier = None\<rparr> :: SubscriptionEntry"
  let ?p2 = "set_index (index_add (str_lit ''a'') ?entry (pr_index p1)) p1"
  let ?c2 = "c1\<lparr>cl_protocol := Some ?p2\<rparr>"
  let ?c3 = "set_registered 0 [str_lit ''a''] ?c2"
  have s1: "cstep (*) c c1" by (rule cstep.start [OF start])
  have s2: "cstep (*) c1 ?c2" by (rule cstep.active [OF c1(1)]) simp
  have s3: "cstep (*) ?c2 ?c3"
    by (rule cstep.started [of 0 "Inr (PingResp, [(str_lit ''a'', 0)])" _ None]) (simp add: start_end_def)
  have "(cstep (*))\<^sup>*\<^sup>* c ?c3" using s1 s2 s3 by (meson converse_rtranclp_into_rtranclp r_into_rtranclp)
  with run have "(cstep (*))\<^sup>*\<^sup>* (example_client True None) ?c3" by (meson rtranclp_trans)
  then show ?thesis using c1 by (intro that [of ?c3 ?p2]) (simp_all add: set_registered_def)
qed

theorem detach_survives_witness:
  "\<exists>(c :: int client) c1 c2 p2 e. (\<lambda>a b. cstep (*) a b \<and> cl_phase b \<noteq> Idle)\<^sup>*\<^sup>* (subscription_detach 0 c) c1
     \<and> client_connect (Opened Drained [Data [0x20, 2, 0, 0]]) c1 = (Inr [], c2)
     \<and> cl_protocol c2 = Some p2 \<and> index_get (str_lit ''a'') (pr_index p2) = Some e"
proof (rule example_detachable)
  fix c p
  assume run: "(cstep (*))\<^sup>*\<^sup>* (example_client True None) c" and p: "cl_protocol c = Some p" and i: "0 \<in> set (cl_subscriptions c)"
    and f: "so_registered_filters (cl_objects c 0) = [str_lit ''a'']" and ix: "index_get (str_lit ''a'') (pr_index p) \<noteq> None"
    and ph: "cl_phase c = Running"
  let ?d = "subscription_detach 0 c"
  let ?c1 = "loop_raised (*) Client_OSError ?d"
  have d: "cl_phase ?d = Running" "cl_reconnect ?d = cl_reconnect c" "cl_config ?d = cl_config c"
    using detach_unchanged [of c 0] ph by (simp_all add: unchanged_def)
  have cfg: "cl_config c' = example_config \<and> rc_enabled (cl_reconnect c')" if "(cstep (*))\<^sup>*\<^sup>* (example_client True None) c'" for c'
    using that by (induction rule: rtranclp_induct) (auto dest: cstep_config simp: example_client_def client_init_def)
  have s: "cstep (*) ?d ?c1" by (rule cstep.raised) (simp_all add: d is_connect_error_def)
  have "cl_phase ?c1 \<noteq> Idle"
    by (simp add: loop_raised_def notify_subscription_failure_def notify_connection_recovery_failed_def Let_def split: option.split)
  with s have online: "(\<lambda>a b. cstep (*) a b \<and> cl_phase b \<noteq> Idle)\<^sup>*\<^sup>* ?d ?c1" by (intro r_into_rtranclp) blast
  have "cl_config ?c1 = example_config" using cstep_config [OF s] d(3) cfg [OF run] by simp
  then obtain c2 where c2: "client_connect (Opened Drained [Data [0x20, 2, 0, 0]]) ?c1 = (Inr [], c2)"
    using example_connect by blast
  from detach_survives [OF run [unfolded example_client_def] p i _ ix online c2] f
  obtain p2 e where "cl_protocol c2 = Some p2" "index_get (str_lit ''a'') (pr_index p2) = Some e" by auto
  with online c2 show ?thesis by blast
qed

end
