(* ===== verification/Spec2Isabelle.thy ===== *)
theory Spec2Isabelle
  imports Reader Packet_Ids Subscription_Index Request_Response Inbound Subscribing
    Protocol_Run Task_Cancellation Client_Subscriptions
begin

text \<open>
  A model of zMQTT, an asyncio MQTT 3.1.1 and 5.0 client (\<open>src/src/zmqtt\<close>), and proofs about it.

  \<^bold>\<open>The program.\<close>  Bytes from the transport go into a \<open>PacketBuffer\<close> (\<open>packets/reader.py\<close>), which cuts
  them into packets with the codec (\<open>packets/codec.py\<close>, on top of \<open>packets/_wire.py\<close> and
  \<open>packets/properties.py\<close>).  The protocol (\<open>protocol.py\<close>, \<open>inbound.py\<close>, \<open>request_response.py\<close>) dispatches
  the packets: acknowledgements to the flights waiting for them under a packet id (\<open>state.py\<close>),
  publishes to the subscription the \<open>SubscriptionIndex\<close> (\<open>subscription_index.py\<close>, matching by
  \<open>topic_matching.py\<close>) selects.  The client (\<open>client.py\<close>) validates what the application passes
  (\<open>types/topic.py\<close>) and keeps the connection.

  \<^bold>\<open>The theories.\<close>
  \<^item> \<open>Mqtt_Prelude\<close>: bytes as 8-bit words, strings as lists of code points, errors as values
    (\<open>py_error\<close>, results \<open>'a res\<close>), \<open>struct.pack\<close> and \<open>unpack_from\<close>, UTF-8 with its round trips, dicts
    as association lists in insertion order.
  \<^item> \<open>Wire\<close>: \<open>_wire.py\<close>.  The locale \<open>wire_field\<close> is the contract of a field codec (decoding at an
    offset inverts encoding, whatever follows, and stays inside the buffer); varints, strings and
    binary fields interpret it.
  \<^item> \<open>Property_Block\<close> and \<open>Properties\<close>: \<open>properties.py\<close>, the generic block and the eleven property
    classes, each an interpretation of \<open>wire_field\<close>.
  \<^item> \<open>Packets\<close> and \<open>Codec\<close>: the packet classes and \<open>codec.py\<close>, function by function;
    \<open>Codec_Correct\<close>: the round trip of every packet type, what \<open>decode\<close> says of incomplete and
    oversized packets, and that its answer does not depend on bytes that arrive later.  \<open>seen\<close> is
    what a receiver sees of a packet: the parts its protocol version carries.
  \<^item> \<open>Reader\<close>: \<open>reader.py\<close>, with the generator behind \<open>__iter__\<close> as explicit state and the exported
    memoryview that makes \<open>feed\<close> fail, and the protocol's read loop; the packets do not depend on
    how the stream was cut into reads.
  \<^item> \<open>Packet_Ids\<close>: \<open>PacketIdPool\<close> of \<open>state.py\<close>.  The locale \<open>id_allocator\<close> is what the protocol relies
    on; the pool interprets it, and hands out the smallest free id.  The search loop is a partial
    function, and its result is shown to exist.
  \<^item> \<open>Topic\<close>: \<open>types/topic.py\<close> and \<open>topic_matching.py\<close>; validation and matching level by level.
  \<^item> \<open>Subscription_Index\<close>: \<open>subscription_index.py\<close>; the trie refines the flat dict of entries, and
    the locale \<open>subscription_store\<close> is the contract the protocol relies on.
  \<^item> \<open>Request_Response\<close>: the dispatcher of \<open>request_response.py\<close>.  Its coroutines are cut into segments
    at their awaits; \<open>rstep\<close> interleaves the segments of any number of requests with reconnections,
    failures and shutdown, and capacity, topic interests and claims are accounted for in all of them.
  \<^item> \<open>Inbound\<close>: \<open>inbound.py\<close> with \<open>InboundRecipient\<close>, the inbound flights of \<open>state.py\<close> and \<open>Message.ack\<close>.
    A handler that has to wait for room in a queue returns \<open>Blocked\<close> and \<open>resume\<close> continues it; \<open>istep\<close>
    interleaves packets with the application, subscriptions, drains and expiry.  The three replay
    states are there with the task that expires a buffer.  A send of a replay pass may raise (the
    parameter \<open>fails\<close>), and \<open>istep\<close> lets a handler be cut short by one.  Exactly-once and at-least-once delivery,
    the receive quota, the order of a replayed session and how long it is held.
  \<^item> \<open>Subscription_Guards\<close>: the per-filter locks of \<open>protocol.py\<close>; mutual exclusion, no leaked guards,
    and no deadlock because every task takes its filters in sorted order.
  \<^item> \<open>Outbound\<close>: the requesting half of \<open>protocol.py\<close> and of \<open>SessionState\<close>: publishes of every QoS,
    SUBSCRIBE, UNSUBSCRIBE and pings, the handlers of the answers, and the end of a connection.
    \<open>ostep\<close> interleaves operations, answers, cancellations and failures; one invariant ties packet
    ids, tables and futures together, and answers and liveness follow from it.
  \<^item> \<open>Protocol\<close>: \<open>StreamTransport\<close> and \<open>MQTTProtocol\<close> as a whole, with the two halves and the packet buffer as
    its fields: handshake, read loop, dispatch, abort and disconnect.  The loop is shown to do what
    dispatching the packets of the whole stream does, and the handshake to leave the rest of the
    stream to it.
  \<^item> \<open>Protocol_Run\<close>: \<open>run\<close> and \<open>_ping_loop\<close>, the read loop and the ping loop as tasks, with the clock.  \<open>run_step\<close>
    interleaves them with the other tasks and with time; the distance of the pings and the time until a
    silent broker is noticed are bounded, and a run returns by itself only without a keepalive.
  \<^item> \<open>Task_Cancellation\<close>: \<open>wait_for\<close> and \<open>defer_cancellation\<close> of \<open>_compat.py\<close>.  \<open>wstep\<close> interleaves a waiting task with
    what it waits for, the timer and cancellations; no cancellation is lost and no task is left running.
  \<^item> \<open>Subscribing\<close>: \<open>subscribe\<close>, \<open>unsubscribe\<close>, \<open>detach\<close> and the response observers of the protocol.  \<open>pstep\<close>
    interleaves them under the guards, with operations that are refused, fail here or are cancelled (the
    \<open>_cut\<close> variants).  The broker's filters follow what the index wants, except for a set \<open>U\<close> of filters in
    doubt, which holds those of operations that ended without the broker's full answer.
  \<^item> \<open>Client_Options\<close>: of \<open>client.py\<close>, what is checked and built before anything is sent: the options of
    \<open>MQTTClient\<close>, the CONNECT packet, \<open>ConnectionInfo\<close>, \<open>UnsubscribeResult\<close>, and the arguments of \<open>publish\<close>,
    \<open>subscribe\<close>, \<open>request\<close>, \<open>ping\<close> and \<open>auth\<close>; and the default factory of transports (\<open>transport/tcp.py\<close>,
    \<open>transport/tls.py\<close>).  Accepted options can be encoded and arrive; a request waits for
    what it asks the responder to send.
  \<^item> \<open>Client_Run\<close>: the life of a client: \<open>_connect\<close> on top of the protocol's handshake, attempts and delays,
    the run loop, \<open>disconnect\<close>, the operations of a \<open>Subscription\<close>.  \<open>cstep\<close> interleaves the phases of the run
    loop with the application and the connection, with handshakes that are cancelled; one invariant gives
    what the application is told, that no transport is left open and that no consumer of a run waits when
    it has failed.  The futures that signal a failure are objects with numbers, so that a \<open>get_message\<close> keeps
    the one it captured.
  \<^item> \<open>Client_Subscriptions\<close>: subscriptions across the loss of a connection; active ones are renewed, detached
    ones stay detached.

  \<^bold>\<open>Conventions.\<close>  Names are the source's without leading underscores; record fields carry a prefix
  per class.  The locale \<open>step_invariant\<close> carries an invariant from the steps of an interleaving to its
  runs; every step relation interprets it.  An exception is a value of a sum type, so that every raise of the source is a branch
  of the model; messages of exceptions keep their constant part.  Recursive functions terminate
  by a measure given with each (no fuel is used); the retries of a client are a function of the list
  of what its attempts meet, and a limit on the attempts bounds the part of the list that is used.

  \<^bold>\<open>Not modelled.\<close>  What the sockets do (I/O: whether a connection is opened, and each read and write, is
  input), logging apart from the warning about a rejected unsubscribe, and the scheduling of asyncio
  tasks: an interleaving of segments stands for it, and timeouts are steps or inputs, except for the
  keepalive, whose clock is that of an event loop that is never late.  The typed views \<open>MQTTClientV311\<close> and
  \<open>MQTTClientV5\<close>, the overloads of \<open>create_client\<close> and the package exports are declarations only.  Methods that
  only call another (\<open>connect\<close>, \<open>disconnect\<close>, \<open>start\<close>, \<open>stop\<close>, \<open>__anext__\<close>) are the method they call.  Of \<open>_compat.py\<close>,
  the branches that take \<open>asyncio.wait_for\<close> as it is or do nothing are left out.

  Three simplifications bear on the theorems.  A send of the inbound flow is one step, which may raise but lets no
  other task run in between; where a whole protocol is run (\<open>Protocol\<close>), the writes of packet handlers
  succeed, and a write that fails is met in \<open>istep\<close> and in the passes over the replay buffer.  A call of
  \<open>on_connection_recovery_failed\<close> is one step, which may raise.  And the
  client is used as documented: no \<open>disconnect()\<close> while a \<open>connect()\<close> is under way, and no second \<open>connect()\<close> without a
  \<open>disconnect()\<close> after the first, also when its run has ended by itself.
\<close>

section \<open>From the sender to the subscriber\<close>

text \<open>
  C3: a publish that one side encodes reaches the other side's subscription: however the bytes are
  cut into reads, the reader yields one packet with the same topic and payload, and when a
  subscription matches the topic the index selects one that does, the most specific.
\<close>

theorem publish_reaches_subscriber:
  assumes "encode (Publish p) v = Inr bs" and "concat reads = bs" and "store_inv ix"
    and "it \<in> set (ix_entries ix)" and "matches_actual (actual_filter it) (pub_topic p)"
  shows "\<exists>b q r. read_loop reads (PacketBuffer_init v None) = Some ([Publish q], None, b)
    \<and> pub_topic q = pub_topic p \<and> pub_payload q = pub_payload p \<and> pub_qos q = pub_qos p
    \<and> sel_recipient (index_select (pub_topic q) ix) = Some r
    \<and> matches_actual (actual_filter r) (pub_topic p)
    \<and> filter_specificity (actual_filter r) \<le> filter_specificity (actual_filter it)"
proof -
  have l: "list_all2 (\<lambda>p bs. encode p v = Inr bs \<and> fits None (length bs)) [Publish p] [bs]"
    using assms(1) by (simp add: fits_def)
  have "parse_stream v None (concat reads) = ([seen v (Publish p)], None, [])"
    using parse_stream_encoded [OF l, of "[]"] assms(2) by simp
  then obtain b where b: "read_loop reads (PacketBuffer_init v None) = Some ([seen v (Publish p)], None, b)"
    using read_loop_parse [OF init_settled, of v None reads] by auto
  have m: "it \<in> set (index_match (pub_topic p) ix)"
    using set_index_match [of ix "pub_topic p"] assms(3-5)
    by (simp add: store_inv_def matching_entries_def)
  then have ne: "index_match (pub_topic p) ix \<noteq> []" by auto
  from select_from_spec [OF ne] obtain r where
    "sel_recipient (index_select (pub_topic p) ix) = Some r" "r \<in> set (index_match (pub_topic p) ix)"
    "specificity r \<le> specificity it"
    using m unfolding index_select_def by metis
  moreover from this(2) have "matches_actual (actual_filter r) (pub_topic p)"
    by (simp add: index_match_def Let_def)
  ultimately show ?thesis using b by (cases r) (simp add: seen_def seen_publish_def)
qed

theorem publish_reaches_subscriber_witness:
  "\<exists>b q. read_loop [[0x30, 5], [0, 1, 97, 1], [2]] (PacketBuffer_init V311 None) = Some ([Publish q], None, b)
     \<and> pub_payload q = [1, 2]"
proof -
  let ?p = "\<lparr>pub_topic = str_lit ''a'', pub_payload = [1, 2], pub_qos = AT_MOST_ONCE,
    pub_retain = False, pub_dup = False, pub_packet_id = None, pub_properties = None\<rparr>"
  let ?ix = "index_add (str_lit ''#'') (sample_entry 0 []) SubscriptionIndex_init"
  have e: "encode (Publish ?p) V311 = Inr [0x30, 5, 0, 1, 97, 1, 2]" by code_simp
  have ok: "indexable (str_lit ''#'', sample_entry 0 [])" by code_simp
  have "store_inv SubscriptionIndex_init" by (simp add: store_inv_def)
  then have inv: "store_inv ?ix" using index.put [OF _ ok] by blast
  have it: "ix_entries ?ix = [(str_lit ''#'', sample_entry 0 [])]"
    "matches_actual (actual_filter (str_lit ''#'', sample_entry 0 [])) (str_lit ''a'')" by code_simp+
  have c: "concat [[0x30, 5], [0, 1, 97, 1], [2]] = [0x30, 5, 0, 1, 97, 1, 2 :: byte]" by simp
  have mem: "(str_lit ''#'', sample_entry 0 []) \<in> set (ix_entries ?ix)"
    "matches_actual (actual_filter (str_lit ''#'', sample_entry 0 [])) (pub_topic ?p)"
    using it by simp_all
  from publish_reaches_subscriber [OF e c inv mem] show ?thesis by auto
qed

end
